(* ===== verification/Prelude_Monero.thy ===== *)
theory Prelude_Monero
  imports Main "HOL-Library.Word" "HOL-Library.Multiset" "HOL-Library.Monad_Syntax"
begin

text \<open>
  Shared vocabulary of the development.  Machine integers of the C++ sources are words of
  their own width (\<open>uint8_t\<close> is \<open>u8\<close>, \<open>uint64_t\<close> and, on the 64-bit targets, \<open>size_t\<close> are
  \<open>u64\<close>, the \<open>boost::multiprecision\<close> types are \<open>u128\<close> to \<open>u512\<close>), so that wrap-around is the
  wrap-around of the code.  The collection \<open>word_nat\<close> moves a statement about words to one
  about natural numbers with the wrap-around written out; the lemmas on lists and options
  are the ones several components use.
\<close>

unbundle bit_operations_syntax

type_synonym u8 = "8 word"
type_synonym u16 = "16 word"
type_synonym u32 = "32 word"
type_synonym u64 = "64 word"
type_synonym u128 = "128 word"
type_synonym u256 = "256 word"
type_synonym u512 = "512 word"
type_synonym bytes = "8 word list"

named_theorems word_nat \<open>rewriting word operations to operations on nat\<close>

section \<open>Words read as natural numbers\<close>

lemma unat_drop_bit [word_nat]:
  "unat (drop_bit n (w :: 'a::len word)) = unat w div 2 ^ n"
  by (simp add: drop_bit_eq_div [of n "unat w", symmetric] unat_drop_bit_eq)

lemma unat_take_bit [word_nat]:
  "unat (take_bit n (w :: 'a::len word)) = unat w mod 2 ^ n"
  unfolding take_bit_eq_mod [of n "unat w", symmetric] by (rule unsigned_take_bit_eq)

lemma unat_push_bit [word_nat]:
  "unat (push_bit n (w :: 'a::len word)) = unat w * 2 ^ n mod 2 ^ LENGTH('a)"
  unfolding push_bit_eq_mult [of n "unat w", symmetric]
    take_bit_eq_mod [of "LENGTH('a)" "push_bit n (unat w)", symmetric]
  by (rule unsigned_push_bit_eq)

lemma unat_ucast [word_nat]:
  "unat (ucast (w :: 'a::len word) :: 'b::len word) = unat w mod 2 ^ LENGTH('b)"
  unfolding take_bit_eq_mod [of "LENGTH('b)" "unat w", symmetric] by (rule unsigned_ucast_eq)

lemma unat_ucast_up:
  "LENGTH('a) \<le> LENGTH('b) \<Longrightarrow> unat (ucast (w :: 'a::len word) :: 'b::len word) = unat w"
  unfolding unat_ucast by (rule mod_less) (rule less_le_trans [OF unsigned_less], simp)

lemma wrapped_sum_less_iff:
  "b < P \<Longrightarrow> (if a + b < P then a + b else a + b - P) < a \<longleftrightarrow> P \<le> a + (b :: nat)"
  by auto

lemma word_add_carry [word_nat]:
  "a + b < (a :: 'a::len word) \<longleftrightarrow> 2 ^ LENGTH('a) \<le> unat a + unat b"
  unfolding word_less_nat_alt unat_plus_if' by (rule wrapped_sum_less_iff) (rule unsigned_less)

lemma unat_or_disjoint:
  assumes "a AND b = 0"
  shows "unat (a OR b :: 'a::len word) = unat a + unat b"
proof -
  have "unat a AND unat b = unat (a AND b)" by (simp add: unsigned_and_eq)
  with assms have "unat a AND unat b = 0" by simp
  then show ?thesis by (simp add: unsigned_or_eq disjunctive_add_eq_or)
qed

lemma unat_or_take_push:
  assumes "unat a < 2 ^ n"
  shows "unat (a OR push_bit n b :: 'a::len word) = unat a + unat b * 2 ^ n mod 2 ^ LENGTH('a)"
proof -
  have a: "a = take_bit n a"
    using assms by (simp add: word_unat_eq_iff unat_take_bit)
  have "take_bit n a AND push_bit n b = 0"
    by (rule bit_eqI) (auto simp: bit_and_iff bit_take_bit_iff bit_push_bit_iff)
  then have "a AND push_bit n b = 0" using a by simp
  then show ?thesis by (simp add: unat_or_disjoint unat_push_bit)
qed

lemma unat_add_exact:
  "unat a + unat b < 2 ^ LENGTH('a) \<Longrightarrow> unat (a + b :: 'a::len word) = unat a + unat b"
  by (simp add: unat_plus_if')

lemma unat_add4_exact:
  assumes "unat a + unat b + unat c + unat d < 2 ^ LENGTH('a)"
  shows "unat (a + b + c + d :: 'a::len word) = unat a + unat b + unat c + unat d"
  using assms by (simp add: unat_add_exact)

lemma unat_mult_exact:
  "unat a * unat b < 2 ^ LENGTH('a) \<Longrightarrow> unat (a * b :: 'a::len word) = unat a * unat b"
  by (simp add: unat_word_ariths)

lemma unat_of_nat_exact:
  "n < 2 ^ LENGTH('a) \<Longrightarrow> unat (of_nat n :: 'a::len word) = n"
  by (simp add: unat_of_nat)

lemma unat_at_least_1: "unat (if d = 0 then 1 else d :: 'a::len word) = max 1 (unat d)"
  by (auto simp: max_def not_less_eq_eq unat_eq_0)

lemma unat_add_sub_1:
  assumes "y \<noteq> 0" "unat x + unat y - 1 < 2 ^ LENGTH('a)"
  shows "unat (x + y - 1 :: 'a::len word) = unat x + unat y - 1"
proof -
  have y: "0 < unat y" using assms(1) by (simp add: unat_gt_0)
  have "unat (y - 1) = unat y - 1" using assms(1) by (rule unat_minus_one)
  then have "unat (x + (y - 1)) = unat x + (unat y - 1)"
    using assms(2) y by (simp add: unat_add_exact)
  then show ?thesis using y by (simp add: add_diff_eq)
qed

lemma unat_minus_1_u64 [simp]: "unat (- 1 :: u64) = 18446744073709551615"
  by (simp add: unsigned_minus_1_eq_mask mask_eq_exp_minus_1)

lemma unat_lt_u64: "unat (x :: u64) < 18446744073709551616"
  using unsigned_less [of x] by simp

lemma unat_le_u64: "unat (x :: u64) \<le> 18446744073709551615"
  using unat_lt_u64 [of x] by linarith

lemma unat_lt_u32: "unat (x :: u32) < 4294967296"
  using unsigned_less [of x] by simp

lemma unat_lt_u8: "unat (x :: u8) < 256"
  using unsigned_less [of x] by simp

section \<open>Little-endian byte strings\<close>

fun le_nat :: "bytes \<Rightarrow> nat" where
  "le_nat [] = 0"
| "le_nat (b # bs) = unat b + 256 * le_nat bs"

lemma le_nat_less: "le_nat bs < 256 ^ length bs"
proof (induction bs)
  case (Cons b bs)
  then show ?case using unat_lt_u8 [of b] by simp
qed simp

lemma le_nat_append: "le_nat (xs @ ys) = le_nat xs + 256 ^ length xs * le_nat ys"
  by (induction xs) (simp_all add: algebra_simps)

lemma le_nat_split: "le_nat bs = le_nat (take n bs) + 256 ^ min n (length bs) * le_nat (drop n bs)"
  using le_nat_append [of "take n bs" "drop n bs"] by (simp add: min.commute)

section \<open>Checked signed arithmetic\<close>

text \<open>Signed overflow is undefined: a result out of range has no value.\<close>

definition i32 :: "int \<Rightarrow> int option" where
  "i32 x = (if - (2 ^ 31) \<le> x \<and> x < 2 ^ 31 then Some x else None)"

definition i64 :: "int \<Rightarrow> int option" where
  "i64 x = (if - (2 ^ 63) \<le> x \<and> x < 2 ^ 63 then Some x else None)"

lemma i32_small: "- (2 ^ 31) \<le> x \<Longrightarrow> x < 2 ^ 31 \<Longrightarrow> i32 x = Some x"
  by (simp add: i32_def)

lemma i64_small: "- (2 ^ 63) \<le> x \<Longrightarrow> x < 2 ^ 63 \<Longrightarrow> i64 x = Some x"
  by (simp add: i64_def)

section \<open>Vectors\<close>

text \<open>
  A read past the end of a \<open>std::vector\<close> is undefined behaviour: the model reads through
  \<open>vec_at\<close>, which has no value there.  \<open>vec_resize\<close> is \<open>std::vector::resize\<close>.
\<close>

definition vec_at :: "'a list \<Rightarrow> nat \<Rightarrow> 'a option" where
  "vec_at xs i = (if i < length xs then Some (xs ! i) else None)"

definition vec_resize :: "nat \<Rightarrow> 'a \<Rightarrow> 'a list \<Rightarrow> 'a list" where
  "vec_resize n x xs = take n xs @ replicate (n - length xs) x"

lemma vec_at_Some [simp]: "i < length xs \<Longrightarrow> vec_at xs i = Some (xs ! i)"
  by (simp add: vec_at_def)

lemma vec_at_None [simp]: "length xs \<le> i \<Longrightarrow> vec_at xs i = None"
  by (simp add: vec_at_def)

lemma length_vec_resize [simp]: "length (vec_resize n x xs) = n"
  by (simp add: vec_resize_def)

lemma vec_resize_take: "n \<le> length xs \<Longrightarrow> vec_resize n x xs = take n xs"
  by (simp add: vec_resize_def)

section \<open>Sorting words\<close>

lemma sort_map_unat: "sort (map unat xs) = map unat (sort (xs :: 'a::len word list))"
proof (rule properties_for_sort)
  show "mset (map unat (sort xs)) = mset (map unat xs)" by simp
  show "sorted (map unat (sort xs))"
    using sorted_sort [of xs] by (simp add: sorted_iff_nth_mono word_le_nat_alt)
qed

lemma sorted_map_unat: "sorted (map unat (xs :: 'a::len word list)) = sorted xs"
  by (simp add: sorted_iff_nth_mono word_le_nat_alt)

section \<open>Loops that may fail\<close>

text \<open>
  \<open>ofold f xs s\<close> runs the body \<open>f x\<close> for each \<open>x\<close> of \<open>xs\<close> in order, and has no value as soon as
  one run of the body has none (it threw, or its behaviour is undefined).
\<close>

fun ofold :: "('x \<Rightarrow> 's \<Rightarrow> 's option) \<Rightarrow> 'x list \<Rightarrow> 's \<Rightarrow> 's option" where
  "ofold f [] s = Some s"
| "ofold f (x # xs) s = do { s' \<leftarrow> f x s; ofold f xs s' }"

lemma ofold_append: "ofold f (xs @ ys) s = do { s' \<leftarrow> ofold f xs s; ofold f ys s' }"
proof (induction xs arbitrary: s)
  case (Cons x xs)
  then show ?case by (cases "f x s") simp_all
qed simp

lemma ofold_snoc: "ofold f (xs @ [x]) s = ofold f xs s \<bind> f x"
  unfolding ofold_append ofold.simps by (cases "ofold f xs s") (simp_all add: ofold.simps(1) [abs_def] bind_runit)

lemma ofold_upt_Suc: "a \<le> n \<Longrightarrow> ofold f [a..<Suc n] s = ofold f [a..<n] s \<bind> f n"
  by (simp only: upt_Suc_append ofold_snoc)

lemma ofold_invariant:
  assumes "ofold f xs s = Some s'" "I s"
    and "\<And>x s s'. x \<in> set xs \<Longrightarrow> I s \<Longrightarrow> f x s = Some s' \<Longrightarrow> I s'"
  shows "I s'"
  using assms
proof (induction xs arbitrary: s)
  case (Cons x xs)
  then obtain t where t: "f x s = Some t" "ofold f xs t = Some s'"
    by (auto simp: bind_eq_Some_conv)
  then show ?case using Cons by (meson list.set_intros)
qed simp

lemma ofold_total:
  assumes "I s" and "\<And>x s. x \<in> set xs \<Longrightarrow> I s \<Longrightarrow> \<exists>s'. f x s = Some s' \<and> I s'"
  shows "\<exists>s'. ofold f xs s = Some s' \<and> I s'"
  using assms
proof (induction xs arbitrary: s)
  case (Cons x xs)
  then obtain t where "f x s = Some t" "I t" by (meson list.set_intros(1))
  then show ?case using Cons by (metis list.set_intros(2) bind.bind_lunit ofold.simps(2))
qed simp

lemma ofold_Some: "ofold (\<lambda>x s. Some (f x s)) xs s = Some (fold f xs s)"
  by (induction xs arbitrary: s) simp_all

end
