(* ===== verification/Int_Util.thy ===== *)
theory Int_Util
  imports Prelude_Monero
begin

text \<open>
  \<open>contrib/epee/include/int-util.h\<close> and \<open>contrib/epee/src/int-util.cpp\<close>: 128-bit products and
  quotients built from 64-bit words, and clamped additions.  Out-parameters are components of
  the returned tuple, in the order of the C++ signature after the returned value.  Release
  builds define \<open>NDEBUG\<close>, so an \<open>assert\<close> is no branch of the model; that its condition always
  holds is proved instead.
\<close>

definition hi_dword :: "u64 \<Rightarrow> u64" where
  "hi_dword val = drop_bit 32 val"

definition lo_dword :: "u64 \<Rightarrow> u64" where
  "lo_dword val = val AND 0xFFFFFFFF"

text \<open>\<open>mul128\<close> returns the low word and, through the pointer, the high word.\<close>

definition mul128 :: "u64 \<Rightarrow> u64 \<Rightarrow> u64 \<times> u64" where
  "mul128 multiplier multiplicand =
     (let a = hi_dword multiplier;
          b = lo_dword multiplier;
          c = hi_dword multiplicand;
          d = lo_dword multiplicand;
          ac = a * c;
          ad = a * d;
          bc = b * c;
          bd = b * d;
          adbc = ad + bc;
          adbc_carry = (if adbc < ad then 1 else 0);
          product_lo = bd + push_bit 32 adbc;
          product_lo_carry = (if product_lo < bd then 1 else 0);
          product_hi = ac + drop_bit 32 adbc + push_bit 32 adbc_carry + product_lo_carry
      in (product_lo, product_hi))"

lemma unat_hi_dword [word_nat]: "unat (hi_dword v) = unat v div 4294967296"
  unfolding hi_dword_def unat_drop_bit by simp

lemma lo_dword_take_bit: "lo_dword v = take_bit 32 v"
  by (simp add: lo_dword_def take_bit_eq_mask mask_eq_exp_minus_1)

lemma unat_lo_dword [word_nat]: "unat (lo_dword v) = unat v mod 4294967296"
  by (simp add: lo_dword_take_bit unat_take_bit)

lemma len64: "LENGTH(64) = 64"
  by simp

text \<open>
  The school-book product: with every partial product below \<open>2 ^ 64\<close>, the two carries are
  exactly what the two wrapped additions lose.
\<close>

lemma schoolbook_split:
  fixes a b c d B :: nat
  assumes lt: "a < B" "b < B" "c < B" "d < B" and B: "0 < B"
  defines "s \<equiv> a * d + b * c"
  defines "adbc \<equiv> s mod (B * B)" and "k1 \<equiv> s div (B * B)"
  defines "t \<equiv> b * d + adbc mod B * B"
  shows "(a * B + b) * (c * B + d) =
           (a * c + adbc div B + k1 * B + t div (B * B)) * (B * B) + t mod (B * B)"
proof -
  have s: "s = k1 * (B * B) + adbc" unfolding adbc_def k1_def by (rule div_mult_mod_eq [symmetric])
  have adbcB: "adbc * B = adbc div B * (B * B) + adbc mod B * B"
    unfolding mult.assoc [symmetric] distrib_right [symmetric] by (simp only: div_mult_mod_eq)
  have "(a * B + b) * (c * B + d) = a * c * (B * B) + s * B + b * d"
    by (simp add: s_def algebra_simps)
  also have "\<dots> = a * c * (B * B) + k1 * B * (B * B) + adbc div B * (B * B) + t"
    using adbcB by (subst s) (simp add: t_def algebra_simps)
  also have "\<dots> = (a * c + adbc div B + k1 * B) * (B * B) + t"
    by (simp add: algebra_simps)
  also have "\<dots> = (a * c + adbc div B + k1 * B) * (B * B) + (t div (B * B) * (B * B) + t mod (B * B))"
    by (simp only: div_mult_mod_eq)
  finally show ?thesis by (simp only: distrib_right add.assoc)
qed

lemma lt_square: "a < B \<Longrightarrow> b < B \<Longrightarrow> a * b < B * (B :: nat)"
  by (rule mult_strict_mono) auto

lemma carry_div: "(s :: nat) < 2 * P \<Longrightarrow> s div P = (if P \<le> s then 1 else 0)"
  by (cases "P \<le> s") (auto simp: div_nat_eqI)

lemma mul128_product:
  "unat (snd (mul128 x y)) * 2 ^ 64 + unat (fst (mul128 x y)) = unat x * unat y"
proof -
  define B :: nat where "B = 4294967296"
  have BB: "B * B = 2 ^ 64" by (simp add: B_def)
  define a b c d where "a = unat (hi_dword x)" and "b = unat (lo_dword x)"
    and "c = unat (hi_dword y)" and "d = unat (lo_dword y)"
  have x: "unat x = a * B + b" and y: "unat y = c * B + d"
    by (simp_all add: a_def b_def c_def d_def B_def unat_hi_dword unat_lo_dword)
  have lt: "a < B" "b < B" "c < B" "d < B"
    using unat_lt_u64 [of x] unat_lt_u64 [of y]
    by (simp_all add: a_def b_def c_def d_def B_def unat_hi_dword unat_lo_dword less_mult_imp_div_less)
  define ac ad bc bd where "ac = hi_dword x * hi_dword y" and "ad = hi_dword x * lo_dword y"
    and "bc = lo_dword x * hi_dword y" and "bd = lo_dword x * lo_dword y"
  have prods: "unat ac = a * c" "unat ad = a * d" "unat bc = b * c" "unat bd = b * d"
    using lt [THEN lt_square] lt
    unfolding ac_def ad_def bc_def bd_def a_def b_def c_def d_def BB
    by (simp_all add: unat_mult_exact)
  define s t where "s = a * d + b * c" and "t = b * d + s mod (B * B) mod B * B"
  have adbc: "unat (ad + bc) = s mod (B * B)"
    by (simp add: unat_word_ariths prods s_def BB)
  have ml: "s mod (B * B) mod B * B \<le> (B - 1) * B"
    by (rule mult_le_mono1) (simp add: B_def)
  have s_lt: "s < 2 * (B * B)" and t_lt: "t < 2 * (B * B)"
    using lt_square [OF lt(1,4)] lt_square [OF lt(2,3)] lt_square [OF lt(2,4)] ml
    by (simp_all add: s_def t_def B_def)
  have k1: "(if ad + bc < ad then 1 else 0) = s div (B * B)"
    using s_lt by (simp add: word_add_carry prods s_def BB carry_div)
  have sh: "unat (push_bit 32 (ad + bc)) = s mod (B * B) mod B * B"
    using mod_mult_mult2 [of "s mod (B * B)" B B] by (simp add: unat_push_bit adbc B_def)
  have plo: "unat (bd + push_bit 32 (ad + bc)) = t mod (B * B)"
    unfolding unat_word_ariths sh prods t_def BB by simp
  have k2: "(if bd + push_bit 32 (ad + bc) < bd then 1 else 0) = t div (B * B)"
    using t_lt by (simp add: word_add_carry prods sh t_def BB carry_div)
  define hi where "hi = a * c + s mod (B * B) div B + s div (B * B) * B + t div (B * B)"
  have split: "unat x * unat y = hi * (B * B) + t mod (B * B)"
    unfolding x y hi_def s_def t_def using lt by (rule schoolbook_split) (simp add: B_def)
  have "unat x * unat y < (B * B) * (B * B)"
    using lt_square [of "unat x" "B * B" "unat y"] unat_lt_u64 [of x] unat_lt_u64 [of y]
    by (simp add: B_def)
  then have hi_lt: "hi < B * B"
    unfolding split by (metis add_lessD1 mult_less_cancel2)
  have u2: "unat (drop_bit 32 (ad + bc)) = s mod (B * B) div B"
    unfolding unat_drop_bit adbc by (simp add: B_def)
  have u3: "unat (push_bit 32 (if ad + bc < ad then 1 else 0) :: u64) = s div (B * B) * B"
    unfolding k1 [symmetric] by (simp add: B_def)
  have u4: "unat (if bd + push_bit 32 (ad + bc) < bd then 1 else 0 :: u64) = t div (B * B)"
    unfolding k2 [symmetric] by simp
  have phi: "unat (ac + drop_bit 32 (ad + bc) + push_bit 32 (if ad + bc < ad then 1 else 0)
       + (if bd + push_bit 32 (ad + bc) < bd then 1 else 0)) = hi"
    using hi_lt BB by (subst unat_add4_exact) (simp_all only: u2 u3 u4 prods hi_def len64)
  show ?thesis
    using split phi plo by (simp add: mul128_def Let_def ac_def ad_def bc_def bd_def BB)
qed

text \<open>The condition of the \<open>assert\<close> at the end of \<open>mul128\<close> holds: adding the carries does not wrap.\<close>

lemma mul128_hi: "unat (snd (mul128 x y)) = unat x * unat y div 2 ^ 64"
  unfolding mul128_product [of x y, symmetric] using unat_lt_u64 by simp

lemma mul128_lo: "unat (fst (mul128 x y)) = unat x * unat y mod 2 ^ 64"
  unfolding mul128_product [of x y, symmetric] using unat_lt_u64 by simp

lemma mul128_assert: "hi_dword x * hi_dword y \<le> snd (mul128 x y)"
proof -
  let ?B = "4294967296 :: nat"
  have "unat x div ?B * ?B * (unat y div ?B * ?B) \<le> unat x * unat y"
    by (rule mult_le_mono) simp_all
  then have "unat x div ?B * (unat y div ?B) \<le> unat x * unat y div 2 ^ 64"
    by (simp add: less_eq_div_iff_mult_less_eq mult.assoc mult.left_commute)
  moreover have "unat x div ?B * (unat y div ?B) < ?B * ?B"
    using unat_lt_u64 [of x] unat_lt_u64 [of y]
    by (intro lt_square) (simp_all add: less_mult_imp_div_less)
  ultimately show ?thesis
    by (simp add: word_le_nat_alt mul128_hi unat_hi_dword unat_mult_exact)
qed

section \<open>Division\<close>

text \<open>\<open>div_with_reminder\<close> updates the remainder in place; a zero divisor traps (\<open>None\<close>).\<close>

definition div_with_reminder :: "u64 \<Rightarrow> u32 \<Rightarrow> u32 \<Rightarrow> (u64 \<times> u32) option" where
  "div_with_reminder dividend divisor remainder =
     (if divisor = 0 then None
      else let dividend = dividend OR push_bit 32 (ucast remainder)
           in Some (dividend div ucast divisor, ucast (dividend mod ucast divisor)))"

definition div128_32 :: "u64 \<Rightarrow> u64 \<Rightarrow> u32 \<Rightarrow> (u32 \<times> u64 \<times> u64) option" where
  "div128_32 dividend_hi dividend_lo divisor =
     (case div_with_reminder (hi_dword dividend_hi) divisor 0 of None \<Rightarrow> None
      | Some (q3, remainder) \<Rightarrow>
     (case div_with_reminder (lo_dword dividend_hi) divisor remainder of None \<Rightarrow> None
      | Some (q2, remainder) \<Rightarrow>
     (case div_with_reminder (hi_dword dividend_lo) divisor remainder of None \<Rightarrow> None
      | Some (q1, remainder) \<Rightarrow>
     (case div_with_reminder (lo_dword dividend_lo) divisor remainder of None \<Rightarrow> None
      | Some (q0, remainder) \<Rightarrow>
          Some (remainder, push_bit 32 q3 OR q2, push_bit 32 q1 OR q0)))))"

text \<open>
  \<open>div128_64\<close> divides \<open>boost::multiprecision::uint128_t\<close> values; \<open>divide_qr\<close> throws on a zero
  divisor (\<open>None\<close>).  The result is quotient high, quotient low, remainder high, remainder low.
\<close>

definition div128_64 :: "u64 \<Rightarrow> u64 \<Rightarrow> u64 \<Rightarrow> (u64 \<times> u64 \<times> u64 \<times> u64) option" where
  "div128_64 dividend_hi dividend_lo divisor =
     (let dividend = push_bit 64 (ucast dividend_hi) OR ucast dividend_lo :: u128
      in if divisor = 0 then None
         else let q = dividend div ucast divisor; r = dividend mod ucast divisor
              in Some (ucast (drop_bit 64 q AND 0xffffffffffffffff),
                       ucast (q AND 0xffffffffffffffff),
                       ucast (drop_bit 64 r AND 0xffffffffffffffff),
                       ucast (r AND 0xffffffffffffffff)))"

text \<open>One digit of the long division: the shifted remainder and the next digit do not overlap.\<close>

lemma div_with_reminder_step:
  assumes "divisor \<noteq> 0" "unat dividend < 4294967296" "unat remainder < unat divisor"
  defines "n \<equiv> unat remainder * 4294967296 + unat dividend"
  shows "\<exists>q r. div_with_reminder dividend divisor remainder = Some (q, r)
           \<and> n = unat divisor * unat q + unat r \<and> unat r < unat divisor \<and> unat q < 4294967296"
proof -
  let ?d = "dividend OR push_bit 32 (ucast remainder) :: u64"
  have D: "0 < unat divisor" using assms(1) by (simp add: unat_gt_0)
  have n: "unat ?d = n"
    using assms(2) unat_or_take_push [of dividend 32 "ucast remainder :: u64"]
      unat_lt_u32 [of remainder] by (simp add: n_def unat_ucast)
  have "n < unat divisor * 4294967296"
    using assms(2,3) unfolding n_def by (simp add: algebra_simps)
  then have q: "n div unat divisor < 4294967296"
    using D by (simp add: div_less_iff_less_mult mult.commute)
  have r: "n mod unat divisor < 4294967296"
    using D mod_less_divisor [of "unat divisor" n] unat_lt_u32 [of divisor] by linarith
  have up: "unat (ucast divisor :: u64) = unat divisor" by (simp add: unat_ucast_up)
  show ?thesis
    using assms(1) D q r
    by (auto simp: div_with_reminder_def Let_def n unat_div unat_mod up unat_ucast [of "_ mod _"])
qed

lemma long_division_4:
  fixes D B :: nat
  assumes "d3 = D * q3 + r3" "r3 * B + d2 = D * q2 + r2" "r2 * B + d1 = D * q1 + r1"
    and "r1 * B + d0 = D * q0 + r0"
  shows "(d3 * B + d2) * (B * B) + (d1 * B + d0) =
           D * ((q3 * B + q2) * (B * B) + (q1 * B + q0)) + r0"
proof -
  have "(d3 * B + d2) * (B * B) + (d1 * B + d0) =
      (D * q3 * B + (r3 * B + d2)) * (B * B) + (d1 * B + d0)"
    by (simp add: assms(1) algebra_simps)
  also have "\<dots> = (D * q3 * B + D * q2) * (B * B) + (r2 * B + d1) * B + d0"
    by (simp only: assms(2)) (simp add: algebra_simps)
  also have "\<dots> = (D * q3 * B + D * q2) * (B * B) + D * q1 * B + (r1 * B + d0)"
    by (simp only: assms(3)) (simp add: algebra_simps)
  finally show ?thesis by (simp only: assms(4)) (simp add: algebra_simps)
qed

lemma unat_push32_or:
  "unat a < 4294967296 \<Longrightarrow> unat b < 4294967296 \<Longrightarrow>
     unat (push_bit 32 a OR b :: u64) = unat a * 4294967296 + unat b"
  using unat_or_take_push [of b 32 a] by (simp add: or.commute)

lemma unat_dwords: "unat x = unat (hi_dword x) * 4294967296 + unat (lo_dword x)"
  by (simp add: unat_hi_dword unat_lo_dword)

lemma dword_lt: "unat (hi_dword x) < 4294967296" "unat (lo_dword x) < 4294967296"
  using unat_lt_u64 [of x] by (simp_all add: unat_hi_dword unat_lo_dword less_mult_imp_div_less)

lemma div128_32_spec:
  assumes nz: "divisor \<noteq> 0"
  shows "\<exists>r qh ql. div128_32 hi lo divisor = Some (r, qh, ql)
    \<and> unat qh * 2 ^ 64 + unat ql = (unat hi * 2 ^ 64 + unat lo) div unat divisor
    \<and> unat r = (unat hi * 2 ^ 64 + unat lo) mod unat divisor"
proof -
  have D: "unat (0 :: u32) < unat divisor" using nz by (simp add: unat_gt_0)
  obtain q3 r3 where s3: "div_with_reminder (hi_dword hi) divisor 0 = Some (q3, r3)"
      "unat (hi_dword hi) = unat divisor * unat q3 + unat r3"
      "unat r3 < unat divisor" "unat q3 < 4294967296"
    using div_with_reminder_step [OF nz dword_lt(1) [of hi] D] by auto
  obtain q2 r2 where s2: "div_with_reminder (lo_dword hi) divisor r3 = Some (q2, r2)"
      "unat r3 * 4294967296 + unat (lo_dword hi) = unat divisor * unat q2 + unat r2"
      "unat r2 < unat divisor" "unat q2 < 4294967296"
    using div_with_reminder_step [OF nz dword_lt(2) [of hi] s3(3)] by auto
  obtain q1 r1 where s1: "div_with_reminder (hi_dword lo) divisor r2 = Some (q1, r1)"
      "unat r2 * 4294967296 + unat (hi_dword lo) = unat divisor * unat q1 + unat r1"
      "unat r1 < unat divisor" "unat q1 < 4294967296"
    using div_with_reminder_step [OF nz dword_lt(1) [of lo] s2(3)] by auto
  obtain q0 r0 where s0: "div_with_reminder (lo_dword lo) divisor r1 = Some (q0, r0)"
      "unat r1 * 4294967296 + unat (lo_dword lo) = unat divisor * unat q0 + unat r0"
      "unat r0 < unat divisor" "unat q0 < 4294967296"
    using div_with_reminder_step [OF nz dword_lt(2) [of lo] s1(3)] by auto
  define Q where "Q = unat (push_bit 32 q3 OR q2) * 2 ^ 64 + unat (push_bit 32 q1 OR q0)"
  have "unat hi * 2 ^ 64 + unat lo = unat divisor * Q + unat r0"
    using long_division_4 [OF s3(2) s2(2) s1(2) s0(2)] s3(4) s2(4) s1(4) s0(4)
    by (simp add: Q_def unat_push32_or unat_dwords [of hi] unat_dwords [of lo])
  then have "Q = (unat hi * 2 ^ 64 + unat lo) div unat divisor"
    and "unat r0 = (unat hi * 2 ^ 64 + unat lo) mod unat divisor"
    using s0(3) by simp_all
  then show ?thesis
    using s3(1) s2(1) s1(1) s0(1) by (simp add: div128_32_def Q_def)
qed

lemma div128_64_spec:
  assumes "divisor \<noteq> 0"
  shows "\<exists>qh ql rl. div128_64 hi lo divisor = Some (qh, ql, 0, rl)
    \<and> unat qh * 2 ^ 64 + unat ql = (unat hi * 2 ^ 64 + unat lo) div unat divisor
    \<and> unat rl = (unat hi * 2 ^ 64 + unat lo) mod unat divisor"
proof -
  let ?N = "unat hi * 2 ^ 64 + unat lo"
  let ?d = "push_bit 64 (ucast hi) OR ucast lo :: u128"
  have "unat (ucast lo :: u128) = unat lo" "unat (ucast hi :: u128) = unat hi"
    using unat_lt_u64 [of lo] unat_lt_u64 [of hi] by (simp_all add: unat_ucast)
  then have d: "unat ?d = ?N"
    using unat_or_take_push [of "ucast lo :: u128" 64 "ucast hi"] unat_lt_u64 [of lo] unat_lt_u64 [of hi]
    by (simp add: or.commute)
  have m: "x AND 0xffffffffffffffff = take_bit 64 x" for x :: u128
    by (simp add: take_bit_eq_mask mask_eq_exp_minus_1)
  have div: "unat (?d div ucast divisor) = ?N div unat divisor"
    and mod: "unat (?d mod ucast divisor) = ?N mod unat divisor"
    using unat_lt_u64 [of divisor] by (simp_all add: unat_div unat_mod d unat_ucast)
  have r: "?N mod unat divisor < 2 ^ 64"
    using less_trans [OF mod_less_divisor unat_lt_u64 [of divisor], of ?N] assms
    by (simp add: unat_gt_0)
  have q: "?N div unat divisor < 2 ^ 128"
    by (rule le_less_trans [OF div_le_dividend])
      (use unat_lt_u64 [of hi] unat_lt_u64 [of lo] in simp)
  let ?q = "?d div ucast divisor" and ?r = "?d mod ucast divisor"
  have qh: "unat (ucast (drop_bit 64 ?q AND 0xffffffffffffffff) :: u64) = ?N div unat divisor div 2 ^ 64"
    using q unfolding m by (simp add: unat_ucast unat_take_bit unat_drop_bit div less_mult_imp_div_less)
  have ql: "unat (ucast (?q AND 0xffffffffffffffff) :: u64) = ?N div unat divisor mod 2 ^ 64"
    unfolding m by (simp add: unat_ucast unat_take_bit div)
  have rh: "ucast (drop_bit 64 ?r AND 0xffffffffffffffff) = (0 :: u64)"
    using r unfolding m by (simp add: word_unat_eq_iff unat_ucast unat_take_bit unat_drop_bit mod)
  have rl: "unat (ucast (?r AND 0xffffffffffffffff) :: u64) = ?N mod unat divisor"
    using r unfolding m by (simp add: unat_ucast unat_take_bit mod)
  show ?thesis
    unfolding div128_64_def Let_def using assms qh ql rh rl by simp
qed

section \<open>Clamped arithmetic\<close>

definition add64clamp :: "u64 \<Rightarrow> u64 \<Rightarrow> u64" where
  "add64clamp v add = (let maxval = - 1 in if v > maxval - add then maxval else v + add)"

definition sub64clamp :: "u64 \<Rightarrow> u64 \<Rightarrow> u64" where
  "sub64clamp v sub = (if v < sub then 0 else v - sub)"

lemma unat_add64clamp: "unat (add64clamp v a) = min (unat v + unat a) (2 ^ 64 - 1)"
proof -
  have m: "unat (- 1 - a) = 2 ^ 64 - 1 - unat a"
    using unat_lt_u64 [of a] by (simp add: unat_sub_if' unsigned_minus_1_eq_mask mask_eq_exp_minus_1)
  show ?thesis
    using unat_lt_u64 [of a] unat_lt_u64 [of v]
    by (auto simp: add64clamp_def Let_def word_less_nat_alt m unat_plus_if' min_def
        unsigned_minus_1_eq_mask mask_eq_exp_minus_1)
qed

lemma unat_sub64clamp: "unat (sub64clamp v s) = unat v - unat s"
  by (auto simp: sub64clamp_def word_less_nat_alt unat_sub_if')

section \<open>Properties\<close>

text \<open>C10: Multiplication followed by long division gives the multiplicand back with remainder 0: the
  128-bit product of \<open>mul128\<close>, divided by the 32-bit multiplier with \<open>div128_32\<close> or by the 64-bit
  one with \<open>div128_64\<close>, loses no bit in any of the carries.\<close>

theorem mul_then_div:
  assumes "d \<noteq> 0" "e \<noteq> 0"
  shows "div128_32 (snd (mul128 x (ucast d))) (fst (mul128 x (ucast d))) d = Some (0, 0, x)
    \<and> div128_64 (snd (mul128 x e)) (fst (mul128 x e)) e = Some (0, x, 0, 0)"
proof -
  have d: "unat (ucast d :: u64) = unat d" "0 < unat d" "0 < unat e"
    using assms by (auto simp: unat_ucast_up unat_gt_0)
  have split: "unat qh = 0 \<and> unat ql = unat x" if "unat qh * 2 ^ 64 + unat ql = unat x" for qh ql :: u64
    using that unat_lt_u64 [of x] by (cases "unat qh") auto
  obtain r qh ql where a: "div128_32 (snd (mul128 x (ucast d))) (fst (mul128 x (ucast d))) d = Some (r, qh, ql)"
      "unat qh * 2 ^ 64 + unat ql = unat x" "unat r = 0"
    using div128_32_spec [OF assms(1), of "snd (mul128 x (ucast d))" "fst (mul128 x (ucast d))"]
    unfolding mul128_product d(1) using d(2) by auto
  then have "div128_32 (snd (mul128 x (ucast d))) (fst (mul128 x (ucast d))) d = Some (0, 0, x)"
    using split [OF a(2)] by (simp add: word_unat_eq_iff)
  moreover obtain rl qh ql where b: "div128_64 (snd (mul128 x e)) (fst (mul128 x e)) e = Some (qh, ql, 0, rl)"
      "unat qh * 2 ^ 64 + unat ql = unat x" "unat rl = 0"
    using div128_64_spec [OF assms(2), of "snd (mul128 x e)" "fst (mul128 x e)"]
    unfolding mul128_product using d(3) by auto
  then have "div128_64 (snd (mul128 x e)) (fst (mul128 x e)) e = Some (0, x, 0, 0)"
    using split [OF b(2)] by (simp add: word_unat_eq_iff)
  ultimately show ?thesis by blast
qed

theorem mul_then_div_witness:
  "div128_32 (snd (mul128 0xFFFFFFFFFFFFFFFF (ucast (20 :: u32)))) (fst (mul128 0xFFFFFFFFFFFFFFFF (ucast (20 :: u32)))) 20
     = Some (0, 0, 0xFFFFFFFFFFFFFFFF)
   \<and> div128_64 (snd (mul128 0xFFFFFFFFFFFFFFFF 300000)) (fst (mul128 0xFFFFFFFFFFFFFFFF 300000)) 300000
     = Some (0, 0xFFFFFFFFFFFFFFFF, 0, 0)"
  using mul_then_div [of 20 300000 "0xFFFFFFFFFFFFFFFF"] by simp

end
