(* ===== verification/Difficulty.thy ===== *)
theory Difficulty
  imports Int_Util
begin

text \<open>
  \<open>src/cryptonote_basic/difficulty.cpp\<close>: the proof-of-work test of a hash against a difficulty
  and the retargeting rule.  A \<open>crypto::hash\<close> is its 32 bytes; \<open>difficulty_type\<close> is the 128-bit
  \<open>boost::multiprecision::uint128_t\<close>.  A function that indexes vectors returns \<open>None\<close> where the
  code would read past the end of one.
\<close>

type_synonym difficulty_type = u128

section \<open>Multiplication\<close>

definition mul :: "u64 \<Rightarrow> u64 \<Rightarrow> u64 \<times> u64" where
  "mul a b = mul128 a b"

text \<open>The version for targets without \<open>__int128\<close>; the result is \<open>(low, high)\<close>.\<close>

definition mul_portable :: "u64 \<Rightarrow> u64 \<Rightarrow> u64 \<times> u64" where
  "mul_portable a b =
     (let aLow = a AND 0xFFFFFFFF;
          aHigh = drop_bit 32 a;
          bLow = b AND 0xFFFFFFFF;
          bHigh = drop_bit 32 b;
          res = aLow * bLow;
          lowRes1 = res AND 0xFFFFFFFF;
          carry = drop_bit 32 res;
          res = aHigh * bLow + carry;
          highResHigh1 = drop_bit 32 res;
          highResLow1 = res AND 0xFFFFFFFF;
          res = aLow * bHigh;
          lowRes2 = res AND 0xFFFFFFFF;
          carry = drop_bit 32 res;
          res = aHigh * bHigh + carry;
          highResHigh2 = drop_bit 32 res;
          highResLow2 = res AND 0xFFFFFFFF;
          r = highResLow1 + lowRes2;
          carry = drop_bit 32 r;
          low = push_bit 32 r OR lowRes1;
          r = highResHigh1 + highResLow2 + carry;
          d3 = r AND 0xFFFFFFFF;
          carry = drop_bit 32 r;
          r = highResHigh2 + carry;
          high = d3 OR push_bit 32 r
      in (low, high))"

section \<open>The hash test\<close>

definition cadd :: "u64 \<Rightarrow> u64 \<Rightarrow> bool" where
  "cadd a b \<longleftrightarrow> a + b < a"

definition cadc :: "u64 \<Rightarrow> u64 \<Rightarrow> bool \<Rightarrow> bool" where
  "cadc a b c \<longleftrightarrow> a + b < a \<or> (c \<and> a + b = - 1)"

definition load_u64_from_hash :: "bytes \<Rightarrow> nat \<Rightarrow> u64" where
  "load_u64_from_hash hash index = of_nat (le_nat (take 8 (drop (index * 8) hash)))"

definition check_hash_64 :: "bytes \<Rightarrow> u64 \<Rightarrow> bool" where
  "check_hash_64 hash difficulty =
     (let (top, high) = mul (load_u64_from_hash hash 3) difficulty
      in if high \<noteq> 0 then False
         else let (low, cur) = mul (load_u64_from_hash hash 0) difficulty;
                  (low, high) = mul (load_u64_from_hash hash 1) difficulty;
                  carry = cadd cur low;
                  cur = high;
                  (low, high) = mul (load_u64_from_hash hash 2) difficulty;
                  carry = cadc cur low carry;
                  carry = cadc high top carry
              in \<not> carry)"

definition max64bit :: difficulty_type where
  "max64bit = 2 ^ 64 - 1"

definition max128bit :: u256 where
  "max128bit = 2 ^ 128 - 1"

definition max256bit :: u512 where
  "max256bit = 2 ^ 256 - 1"

text \<open>\<open>FORCE_FULL_128_BITS\<close> is defined, so the loop takes all four words and there is no fast check.\<close>

definition check_hash_128 :: "bytes \<Rightarrow> difficulty_type \<Rightarrow> bool" where
  "check_hash_128 hash difficulty =
     (let hashVal = fold (\<lambda>i hashVal. push_bit 64 hashVal OR ucast (load_u64_from_hash hash (3 - i)))
                      [0..<4] (0 :: u512)
      in hashVal * ucast difficulty \<le> max256bit)"

definition check_hash :: "bytes \<Rightarrow> difficulty_type \<Rightarrow> bool" where
  "check_hash hash difficulty =
     (if difficulty \<le> max64bit then check_hash_64 hash (ucast difficulty)
      else check_hash_128 hash difficulty)"

section \<open>Retargeting\<close>

definition DIFFICULTY_WINDOW :: nat where "DIFFICULTY_WINDOW = 720"
definition DIFFICULTY_CUT :: nat where "DIFFICULTY_CUT = 60"

text \<open>The outermost timestamps are cut: \<open>cut_begin\<close> and \<open>cut_end\<close> for a window of \<open>n\<close> blocks.\<close>

definition difficulty_cut :: "nat \<Rightarrow> nat \<times> nat" where
  "difficulty_cut n =
     (if n \<le> DIFFICULTY_WINDOW - 2 * DIFFICULTY_CUT then (0, n)
      else let cut_begin = (n - (DIFFICULTY_WINDOW - 2 * DIFFICULTY_CUT) + 1) div 2
           in (cut_begin, cut_begin + (DIFFICULTY_WINDOW - 2 * DIFFICULTY_CUT)))"

definition next_difficulty_64 :: "u64 list \<Rightarrow> u64 list \<Rightarrow> u64 \<Rightarrow> u64 option" where
  "next_difficulty_64 timestamps cumulative_difficulties target_seconds =
     (let (timestamps, cumulative_difficulties) =
            (if length timestamps > DIFFICULTY_WINDOW
             then (vec_resize DIFFICULTY_WINDOW 0 timestamps,
                   vec_resize DIFFICULTY_WINDOW 0 cumulative_difficulties)
             else (timestamps, cumulative_difficulties));
          n = length timestamps
      in if n \<le> 1 then Some 1
         else let timestamps = sort timestamps;
                  (cut_begin, cut_end) = difficulty_cut n
              in case (vec_at timestamps (cut_end - 1), vec_at timestamps cut_begin,
                       vec_at cumulative_difficulties (cut_end - 1),
                       vec_at cumulative_difficulties cut_begin) of
                   (Some t_end, Some t_begin, Some d_end, Some d_begin) \<Rightarrow>
                     let time_span = t_end - t_begin;
                         time_span = (if time_span = 0 then 1 else time_span);
                         total_work = d_end - d_begin;
                         (low, high) = mul total_work target_seconds
                     in if high \<noteq> 0 \<or> low + time_span - 1 < low then Some 0
                        else Some ((low + time_span - 1) div time_span)
                 | _ \<Rightarrow> None)"

definition next_difficulty :: "u64 list \<Rightarrow> difficulty_type list \<Rightarrow> u64 \<Rightarrow> difficulty_type option" where
  "next_difficulty timestamps cumulative_difficulties target_seconds =
     (let (timestamps, cumulative_difficulties) =
            (if length timestamps > DIFFICULTY_WINDOW
             then (vec_resize DIFFICULTY_WINDOW 0 timestamps,
                   vec_resize DIFFICULTY_WINDOW 0 cumulative_difficulties)
             else (timestamps, cumulative_difficulties));
          n = length timestamps
      in if n \<le> 1 then Some 1
         else let timestamps = sort timestamps;
                  (cut_begin, cut_end) = difficulty_cut n
              in case (vec_at timestamps (cut_end - 1), vec_at timestamps cut_begin,
                       vec_at cumulative_difficulties (cut_end - 1),
                       vec_at cumulative_difficulties cut_begin) of
                   (Some t_end, Some t_begin, Some d_end, Some d_begin) \<Rightarrow>
                     let time_span = t_end - t_begin;
                         time_span = (if time_span = 0 then 1 else time_span);
                         total_work = d_end - d_begin;
                         res = ((ucast total_work :: u256) * ucast target_seconds
                                 + ucast time_span - 1) div ucast time_span
                     in if res > max128bit then Some 0 else Some (ucast res)
                 | _ \<Rightarrow> None)"

section \<open>Hexadecimal printing\<close>

definition hex_chars :: string where
  "hex_chars = ''0123456789abcdef''"

function hex_digits :: "difficulty_type \<Rightarrow> string" where
  "hex_digits v = (if v > 0 then hex_chars ! unat (v AND 0xf) # hex_digits (drop_bit 4 v) else [])"
  by pat_completeness auto
termination
proof (relation "measure unat", simp)
  fix v :: difficulty_type
  assume "0 < v"
  then show "(drop_bit 4 v, v) \<in> measure unat"
    unfolding in_measure unat_drop_bit by (simp add: word_less_nat_alt)
qed

definition hex :: "difficulty_type \<Rightarrow> string" where
  "hex v = (let s = hex_digits v; s = (if s = [] then s @ ''0'' else s) in ''0x'' @ rev s)"

declare hex_digits.simps [simp del]

section \<open>Correctness of the hash test\<close>

lemma max64_numeral: "unat max64bit = 18446744073709551615"
  by (simp add: max64bit_def)

lemma and_mask32: "x AND 0xFFFFFFFF = take_bit 32 x" for x :: u64
  by (simp add: take_bit_eq_mask mask_eq_exp_minus_1)

lemma cadd_iff: "cadd a b \<longleftrightarrow> 2 ^ 64 \<le> unat a + unat b"
  by (simp add: cadd_def word_add_carry)

lemma cadc_iff: "cadc a b c \<longleftrightarrow> 2 ^ 64 \<le> unat a + unat b + of_bool c"
proof -
  have "a + b = - 1 \<longleftrightarrow> unat (a + b) = 18446744073709551615"
    by (simp add: word_unat_eq_iff unsigned_minus_1_eq_mask mask_eq_exp_minus_1)
  then show ?thesis
    using unat_lt_u64 [of a] unat_lt_u64 [of b]
    by (auto simp: cadc_def word_add_carry unat_plus_if' of_bool_def split: if_splits)
qed

text \<open>
  Four 64-bit digits times a 64-bit factor fit in 256 bits exactly when the top high word is
  zero and the carry chain ends without a carry.
\<close>

lemma digit_step:
  fixes s P :: nat
  assumes "s < 2 * P"
  shows "s = of_bool (P \<le> s) * P + s mod P"
proof (cases "P \<le> s")
  case True
  with assms have "s mod P = s - P" by (simp add: le_mod_geq)
  with True show ?thesis by simp
qed simp

lemma digit_bound:
  fixes l Q x P :: nat
  assumes "l < Q" "x < P"
  shows "l + Q * x < Q * P"
proof -
  have "l + Q * x < Q * Suc x" using assms(1) by simp
  also have "\<dots> \<le> Q * P" using assms(2) by (intro mult_le_mono2) simp
  finally show ?thesis .
qed

lemma carry_chain:
  fixes P l0 h0 l1 h1 l2 h2 l3 h3 :: nat
  assumes lt: "l0 < P" "h0 < P" "l1 < P" "h1 < P" "l2 < P" "h2 < P" "l3 < P" "h3 < P"
  defines "c1 \<equiv> P \<le> h0 + l1"
  defines "c2 \<equiv> P \<le> h1 + l2 + of_bool c1"
  defines "c3 \<equiv> P \<le> h2 + l3 + of_bool c2"
  shows "(h0 * P + l0) + P * (h1 * P + l1) + P * P * (h2 * P + l2) + P * P * P * (h3 * P + l3)
           < P * P * P * P \<longleftrightarrow> h3 = 0 \<and> \<not> c3"
proof -
  define x1 x2 x3 where "x1 = (h0 + l1) mod P" and "x2 = (h1 + l2 + of_bool c1) mod P"
    and "x3 = (h2 + l3 + of_bool c2) mod P"
  have P: "0 < P" using lt by simp
  have x: "x1 < P" "x2 < P" "x3 < P" using P by (simp_all add: x1_def x2_def x3_def)
  define b1 b2 b3 :: nat where "b1 = of_bool c1" and "b2 = of_bool c2" and "b3 = of_bool c3"
  have b: "b1 \<le> 1" "b2 \<le> 1" by (simp_all add: b1_def b2_def)
  have e1: "h0 + l1 = b1 * P + x1"
    unfolding b1_def c1_def x1_def using lt by (intro digit_step) linarith
  have e2: "h1 + l2 + b1 = b2 * P + x2"
    unfolding b2_def c2_def x2_def b1_def [symmetric] using lt b by (intro digit_step) linarith
  have e3: "h2 + l3 + b2 = b3 * P + x3"
    unfolding b3_def c3_def x3_def b2_def [symmetric] using lt b by (intro digit_step) linarith
  let ?low = "l0 + P * x1 + P * P * x2 + P * P * P * x3"
  have "(h0 * P + l0) + P * (h1 * P + l1) + P * P * (h2 * P + l2) + P * P * P * (h3 * P + l3) =
      l0 + P * (h0 + l1) + P * P * (h1 + l2) + P * P * P * (h2 + l3) + P * P * P * P * h3"
    by (simp add: algebra_simps)
  also have "\<dots> = l0 + P * x1 + P * P * (h1 + l2 + b1) + P * P * P * (h2 + l3) + P * P * P * P * h3"
    by (simp only: e1) (simp add: algebra_simps)
  also have "\<dots> = l0 + P * x1 + P * P * x2 + P * P * P * (h2 + l3 + b2) + P * P * P * P * h3"
    by (simp only: e2) (simp add: algebra_simps)
  also have "\<dots> = ?low + P * P * P * P * (b3 + h3)"
    by (simp only: e3) (simp add: algebra_simps)
  finally have total: "(h0 * P + l0) + P * (h1 * P + l1) + P * P * (h2 * P + l2)
      + P * P * P * (h3 * P + l3) = ?low + P * P * P * P * (b3 + h3)" .
  have "l0 + P * x1 < P * P" by (rule digit_bound [OF lt(1) x(1)])
  then have "l0 + P * x1 + P * P * x2 < P * P * P" using x(2) by (rule digit_bound)
  then have "?low < P * P * P * P" using x(3) by (rule digit_bound)
  then have "?low + P * P * P * P * n < P * P * P * P \<longleftrightarrow> n = 0" for n
    by (cases n) simp_all
  then show ?thesis unfolding total by (simp add: b3_def of_bool_def)
qed

lemma unat_load_u64:
  assumes "length h = 32" "i < 4"
  shows "unat (load_u64_from_hash h i) = le_nat (take 8 (drop (i * 8) h))"
proof -
  have "length (take 8 (drop (i * 8) h)) = 8" using assms by auto
  then have "le_nat (take 8 (drop (i * 8) h)) < 2 ^ 64"
    using le_nat_less [of "take 8 (drop (i * 8) h)"] by simp
  then show ?thesis by (simp add: load_u64_from_hash_def unat_of_nat_exact)
qed

lemma hash_words:
  assumes "length h = 32"
  shows "le_nat h = unat (load_u64_from_hash h 0) + 2 ^ 64 * unat (load_u64_from_hash h 1)
    + 2 ^ 64 * 2 ^ 64 * unat (load_u64_from_hash h 2)
    + 2 ^ 64 * 2 ^ 64 * 2 ^ 64 * unat (load_u64_from_hash h 3)"
proof -
  have "le_nat h = le_nat (take 8 h) + 256 ^ 8 * le_nat (drop 8 h)"
    using le_nat_split [of h 8] assms by simp
  moreover have "le_nat (drop 8 h) = le_nat (take 8 (drop 8 h)) + 256 ^ 8 * le_nat (drop 16 h)"
    using le_nat_split [of "drop 8 h" 8] assms by simp
  moreover have "le_nat (drop 16 h) = le_nat (take 8 (drop 16 h)) + 256 ^ 8 * le_nat (drop 24 h)"
    using le_nat_split [of "drop 16 h" 8] assms by simp
  moreover have "take 8 (drop 24 h) = drop 24 h" using assms by simp
  ultimately show ?thesis using assms by (simp add: unat_load_u64)
qed

lemma check_hash_64_iff:
  assumes "length h = 32"
  shows "check_hash_64 h d \<longleftrightarrow> le_nat h * unat d < 2 ^ 256"
proof -
  let ?P = "2 ^ 64 :: nat"
  let ?w = "\<lambda>i. unat (load_u64_from_hash h i)"
  let ?l = "\<lambda>i. unat (fst (mul128 (load_u64_from_hash h i) d))"
  let ?h = "\<lambda>i. unat (snd (mul128 (load_u64_from_hash h i) d))"
  have m: "?h i * ?P + ?l i = ?w i * unat d" for i by (rule mul128_product)
  have "check_hash_64 h d \<longleftrightarrow> ?h 3 = 0 \<and>
      \<not> ?P \<le> ?h 2 + ?l 3 + of_bool (?P \<le> ?h 1 + ?l 2 + of_bool (?P \<le> ?h 0 + ?l 1))"
    by (simp add: check_hash_64_def mul_def case_prod_beta Let_def cadd_iff cadc_iff unat_eq_0)
  also have "\<dots> \<longleftrightarrow> (?h 0 * ?P + ?l 0) + ?P * (?h 1 * ?P + ?l 1) + ?P * ?P * (?h 2 * ?P + ?l 2)
      + ?P * ?P * ?P * (?h 3 * ?P + ?l 3) < ?P * ?P * ?P * ?P"
    by (rule carry_chain [symmetric]) (simp_all add: unat_lt_u64)
  also have "(?h 0 * ?P + ?l 0) + ?P * (?h 1 * ?P + ?l 1) + ?P * ?P * (?h 2 * ?P + ?l 2)
      + ?P * ?P * ?P * (?h 3 * ?P + ?l 3) = le_nat h * unat d"
    unfolding m hash_words [OF assms] by (simp add: algebra_simps)
  finally show ?thesis by simp
qed

lemma unat_shift_in:
  assumes "unat v < 2 ^ 256"
  shows "unat (push_bit 64 v OR ucast (w :: u64) :: u512) = unat v * 2 ^ 64 + unat w"
proof -
  have w: "unat (ucast w :: u512) = unat w" by (simp add: unat_ucast_up)
  have "unat v * 2 ^ 64 < 2 ^ 512" using assms by simp
  then show ?thesis
    using unat_or_take_push [of "ucast w :: u512" 64 v] unat_lt_u64 [of w] w
    by (simp add: or.commute)
qed

lemma check_hash_128_iff:
  assumes "length h = 32"
  shows "check_hash_128 h d \<longleftrightarrow> le_nat h * unat d < 2 ^ 256"
proof -
  let ?w = "\<lambda>i. load_u64_from_hash h i"
  let ?s = "\<lambda>w v. push_bit 64 v OR ucast (w :: u64) :: u512"
  define x3 where "x3 = ?s (?w 3) 0"
  define x2 where "x2 = ?s (?w 2) x3"
  define x1 where "x1 = ?s (?w 1) x2"
  define x0 where "x0 = ?s (?w 0) x1"
  have b: "unat (?w i) < 18446744073709551616" for i by (rule unat_lt_u64)
  have v3: "unat x3 = unat (?w 3)" by (simp add: x3_def unat_ucast_up)
  have v2: "unat x2 = unat (?w 3) * 2 ^ 64 + unat (?w 2)"
    unfolding x2_def using b [of 3] by (subst unat_shift_in) (simp_all add: v3)
  have v1: "unat x1 = (unat (?w 3) * 2 ^ 64 + unat (?w 2)) * 2 ^ 64 + unat (?w 1)"
    unfolding x1_def using b [of 3] b [of 2] by (subst unat_shift_in) (simp_all add: v2)
  have v0: "unat x0 =
      ((unat (?w 3) * 2 ^ 64 + unat (?w 2)) * 2 ^ 64 + unat (?w 1)) * 2 ^ 64 + unat (?w 0)"
    unfolding x0_def using b [of 3] b [of 2] b [of 1] by (subst unat_shift_in) (simp_all add: v1)
  have v: "unat x0 = le_nat h" unfolding v0 hash_words [OF assms] by simp
  have d: "unat (ucast d :: u512) = unat d" by (simp add: unat_ucast_up)
  have "le_nat h * unat d < 2 ^ 256 * 2 ^ 128"
    using le_nat_less [of h] assms unsigned_less [of d] by (intro mult_strict_mono) simp_all
  then have "unat (x0 * ucast d) = le_nat h * unat d"
    using v d by (simp add: unat_mult_exact)
  moreover have "check_hash_128 h d \<longleftrightarrow> x0 * ucast d \<le> max256bit"
    by (simp add: check_hash_128_def x0_def x1_def x2_def x3_def upt_rec)
  ultimately show ?thesis by (simp add: word_le_nat_alt max256bit_def less_Suc_eq_le [symmetric])
qed

lemma check_hash_iff:
  assumes "length h = 32"
  shows "check_hash h d \<longleftrightarrow> le_nat h * unat d < 2 ^ 256"
proof (cases "d \<le> max64bit")
  case True
  then have "unat (ucast d :: u64) = unat d"
    by (simp add: word_le_nat_alt max64_numeral unat_ucast)
  with True show ?thesis by (simp add: check_hash_def check_hash_64_iff assms)
next
  case False
  then show ?thesis by (simp add: check_hash_def check_hash_128_iff assms)
qed

section \<open>The portable multiplication\<close>

lemma portable_digits:
  fixes B :: nat
  assumes "aL * bL = c1 * B + l1" "aH * bL + c1 = h1 * B + m1" "aL * bH = c3 * B + l2"
    and "aH * bH + c3 = h2 * B + m2" "m1 + l2 = k1 * B + n1" "h1 + m2 + k1 = k2 * B + n2"
  shows "(aH * B + aL) * (bH * B + bL) = ((h2 + k2) * B + n2) * (B * B) + (n1 * B + l1)"
  using assms by algebra

lemma mul128_unique:
  assumes "unat hi * 2 ^ 64 + unat lo = unat a * unat b"
  shows "mul128 a b = (lo, hi)"
proof -
  have "unat hi = unat (snd (mul128 a b))" "unat lo = unat (fst (mul128 a b))"
    unfolding mul128_hi mul128_lo assms [symmetric] using unat_lt_u64 [of lo] by simp_all
  then show ?thesis by (simp add: prod_eq_iff word_unat_eq_iff)
qed

lemma mul_portable_eq: "mul_portable a b = mul128 a b"
proof -
  define B :: nat where "B = 4294967296"
  define aH aL bH bL where "aH = unat (hi_dword a)" and "aL = unat (lo_dword a)"
    and "bH = unat (hi_dword b)" and "bL = unat (lo_dword b)"
  define p1 p3 where "p1 = lo_dword a * lo_dword b" and "p3 = lo_dword a * hi_dword b"
  define p2 p4 where "p2 = hi_dword a * lo_dword b + hi_dword p1"
    and "p4 = hi_dword a * hi_dword b + hi_dword p3"
  define r1 where "r1 = lo_dword p2 + lo_dword p3"
  define r2 where "r2 = hi_dword p2 + lo_dword p4 + hi_dword r1"
  define r3 where "r3 = hi_dword p4 + hi_dword r2"
  have lt: "aH < B" "aL < B" "bH < B" "bL < B"
    by (simp_all add: aH_def aL_def bH_def bL_def B_def dword_lt)
  have port: "mul_portable a b = (push_bit 32 r1 OR lo_dword p1, lo_dword r2 OR push_bit 32 r3)"
    by (simp add: mul_portable_def Let_def hi_dword_def [symmetric] lo_dword_def [symmetric]
        p1_def p2_def p3_def p4_def r1_def r2_def r3_def)
  have u1: "unat p1 = aL * bL" and u3: "unat p3 = aL * bH"
    using lt_square [OF lt(2,4)] lt_square [OF lt(2,3)]
    by (simp_all add: p1_def p3_def aL_def bL_def bH_def B_def unat_mult_exact)
  have mac: "x * y + z < B * B" if "x < B" "y < B" "z < B" for x y z :: nat
    using digit_bound [OF that(3,1)] that(1,2)
    by (metis add.commute le_less_trans add_le_mono1 mult.commute mult_le_mono2 nat_less_le)
  have hiB: "unat (hi_dword w) < B" "unat (lo_dword w) < B" for w
    by (simp_all add: B_def dword_lt)
  have u2: "unat p2 = aH * bL + unat (hi_dword p1)" and u4: "unat p4 = aH * bH + unat (hi_dword p3)"
    using mac [OF lt(1,4) hiB(1) [of p1]] mac [OF lt(1,3) hiB(1) [of p3]]
      lt_square [OF lt(1,4)] lt_square [OF lt(1,3)]
    by (simp_all add: p2_def p4_def aH_def bL_def bH_def B_def unat_mult_exact unat_add_exact)
  have u5: "unat r1 = unat (lo_dword p2) + unat (lo_dword p3)"
    and u6: "unat r2 = unat (hi_dword p2) + unat (lo_dword p4) + unat (hi_dword r1)"
    and u7: "unat r3 = unat (hi_dword p4) + unat (hi_dword r2)"
    using hiB [of p2] hiB [of p3] hiB [of p4] hiB [of r1] hiB [of r2]
    by (simp_all add: r1_def r2_def r3_def B_def unat_add_exact)
  have d: "unat w = unat (hi_dword w) * B + unat (lo_dword w)" for w
    unfolding B_def by (rule unat_dwords)
  note digits = portable_digits [of aL bL "unat (hi_dword p1)" B "unat (lo_dword p1)" aH
      "unat (hi_dword p2)" "unat (lo_dword p2)" bH "unat (hi_dword p3)" "unat (lo_dword p3)"
      "unat (hi_dword p4)" "unat (lo_dword p4)" "unat (hi_dword r1)" "unat (lo_dword r1)"
      "unat (hi_dword r2)" "unat (lo_dword r2)"]
  have prod: "unat a * unat b = (unat r3 * B + unat (lo_dword r2)) * (B * B)
      + (unat (lo_dword r1) * B + unat (lo_dword p1))"
    unfolding d [of a] d [of b] u7 aH_def [symmetric] aL_def [symmetric] bH_def [symmetric] bL_def [symmetric]
    by (rule digits) (simp_all only: u1 [symmetric] u2 [symmetric] u3 [symmetric]
        u4 [symmetric] u5 [symmetric] u6 [symmetric] d [symmetric])
  have "unat r3 * (B * B * B) \<le> unat a * unat b" unfolding prod by (simp add: algebra_simps)
  also have "\<dots> < B * (B * B * B)"
    using lt_square [OF unat_lt_u64 unat_lt_u64, of a b] by (simp add: B_def)
  finally have r3: "unat r3 < B" by simp
  have shift: "unat w * 2 ^ 32 mod 2 ^ 64 = unat (lo_dword w) * B" for w :: u64
    using mod_mult_mult2 [of "unat w" "2 ^ 32" "2 ^ 32"] by (simp add: unat_lo_dword B_def)
  have "unat (push_bit 32 r1 OR lo_dword p1) = unat (lo_dword r1) * B + unat (lo_dword p1)"
    and "unat (lo_dword r2 OR push_bit 32 r3) = unat r3 * B + unat (lo_dword r2)"
    using unat_or_take_push [of "lo_dword p1" 32 r1] unat_or_take_push [of "lo_dword r2" 32 r3]
      shift [of r1] shift [of r3] hiB [of p1] hiB [of r2] r3
    by (simp_all add: or.commute B_def unat_lo_dword)
  with prod show ?thesis unfolding port
    by (intro mul128_unique [symmetric]) (simp add: B_def)
qed

section \<open>The retargeting rule\<close>

lemma difficulty_cut_bounds:
  assumes "2 \<le> n" "n \<le> DIFFICULTY_WINDOW"
  shows "fst (difficulty_cut n) + 2 \<le> snd (difficulty_cut n)" "snd (difficulty_cut n) \<le> n"
  using assms by (auto simp: difficulty_cut_def DIFFICULTY_WINDOW_def DIFFICULTY_CUT_def Let_def)

text \<open>
  What the rule computes, on natural numbers.  Of a window with more than 600 entries the outermost are left out,
  so that 600 remain: the half of the surplus at the end, rounded down, and the others at the front.  The rule takes the span of the
  remaining sorted timestamps, the work done over the remaining blocks, and their quotient rounded up.
\<close>

definition kept :: "'a list \<Rightarrow> 'a list" where
  "kept xs = (let surplus = length xs - 600 in drop (surplus - surplus div 2) (take (length xs - surplus div 2) xs))"

definition window_span :: "nat list \<Rightarrow> nat" where
  "window_span ts = max 1 (last (kept (sort ts)) - hd (kept (sort ts)))"

definition window_work :: "nat list \<Rightarrow> nat" where
  "window_work cds = last (kept cds) - hd (kept cds)"

lemma kept_ends:
  assumes "2 \<le> length xs"
  shows "hd (kept xs) = xs ! fst (difficulty_cut (length xs))" "last (kept xs) = xs ! (snd (difficulty_cut (length xs)) - 1)"
proof -
  define s where "s = length xs - 600"
  define b e where "b = s - s div 2" and "e = length xs - s div 2"
  have be: "b < e" "e \<le> length xs" using assms by (auto simp: b_def e_def s_def)
  have k: "kept xs = drop b (take e xs)" by (simp add: kept_def Let_def b_def e_def s_def)
  have "b = (s + 1) div 2" unfolding b_def by presburger
  moreover have "e = (if length xs \<le> 600 then length xs else b + 600)" unfolding b_def e_def s_def by auto
  ultimately have c: "difficulty_cut (length xs) = (b, e)"
    by (auto simp: difficulty_cut_def DIFFICULTY_WINDOW_def DIFFICULTY_CUT_def Let_def s_def)
  have "take e xs \<noteq> []" "drop b (take e xs) \<noteq> []" using be by auto
  then show "hd (kept xs) = xs ! fst (difficulty_cut (length xs))" "last (kept xs) = xs ! (snd (difficulty_cut (length xs)) - 1)"
    using be by (simp_all add: k c hd_drop_conv_nth last_conv_nth)
qed

lemma window_span_cut: "2 \<le> length ts \<Longrightarrow> window_span ts =
    (let (b, e) = difficulty_cut (length ts) in max 1 (sort ts ! (e - 1) - sort ts ! b))"
  using kept_ends [of "sort ts"] by (simp add: window_span_def case_prod_beta)

lemma window_work_cut: "2 \<le> length cds \<Longrightarrow> window_work cds = (let (b, e) = difficulty_cut (length cds) in cds ! (e - 1) - cds ! b)"
  using kept_ends [of cds] by (simp add: window_work_def case_prod_beta)

definition retarget_numerator :: "nat list \<Rightarrow> nat list \<Rightarrow> nat \<Rightarrow> nat" where
  "retarget_numerator ts cds target = window_work cds * target + window_span ts - 1"

lemma window_span_pos: "0 < window_span ts"
  by (simp add: window_span_def)

lemma unat_diff_sorted:
  "sorted xs \<Longrightarrow> i \<le> j \<Longrightarrow> j < length xs \<Longrightarrow>
     unat (xs ! j - xs ! i :: 'a::len word) = unat (xs ! j) - unat (xs ! i)"
  by (auto simp: sorted_iff_nth_mono word_le_nat_alt unat_sub_if')

lemma window_take:
  fixes ts :: "u64 list" and cds :: "'b::len word list"
  assumes len: "length ts = length cds" "1 < length ts" and sorted: "sorted cds"
  defines "ts' \<equiv> take DIFFICULTY_WINDOW ts" and "cds' \<equiv> take DIFFICULTY_WINDOW cds"
  defines "b \<equiv> fst (difficulty_cut (length ts'))" and "e \<equiv> snd (difficulty_cut (length ts'))"
  shows "e - 1 < length ts'" "b < length ts'" "e - 1 < length cds'" "b < length cds'"
    and "unat (if sort ts' ! (e - 1) - sort ts' ! b = 0 then 1 else sort ts' ! (e - 1) - sort ts' ! b)
           = window_span (map unat ts')"
    and "unat (cds' ! (e - 1) - cds' ! b) = window_work (map unat cds')"
proof -
  have n: "2 \<le> length ts'" "length ts' \<le> DIFFICULTY_WINDOW" "length cds' = length ts'"
    using len by (auto simp: ts'_def cds'_def DIFFICULTY_WINDOW_def)
  note be = difficulty_cut_bounds [OF n(1,2), folded b_def e_def]
  show i: "e - 1 < length ts'" "b < length ts'" "e - 1 < length cds'" "b < length cds'"
    using be n by auto
  have s: "unat (sort ts' ! (e - 1) - sort ts' ! b) = unat (sort ts' ! (e - 1)) - unat (sort ts' ! b)"
    by (rule unat_diff_sorted) (use be i in auto)
  show "unat (if sort ts' ! (e - 1) - sort ts' ! b = 0 then 1 else sort ts' ! (e - 1) - sort ts' ! b)
           = window_span (map unat ts')"
    unfolding unat_at_least_1 s
    using i n by (simp add: window_span_cut sort_map_unat case_prod_beta Let_def
        b_def [symmetric] e_def [symmetric])
  have "sorted cds'" unfolding cds'_def by (rule sorted_wrt_take [OF sorted])
  then have "unat (cds' ! (e - 1) - cds' ! b) = unat (cds' ! (e - 1)) - unat (cds' ! b)"
    by (rule unat_diff_sorted) (use be i in auto)
  then show "unat (cds' ! (e - 1) - cds' ! b) = window_work (map unat cds')"
    using i n by (simp add: window_work_cut case_prod_beta Let_def b_def [symmetric] e_def [symmetric])
qed

lemma window_resize:
  assumes "length ts = length cds"
  shows "(if length ts > DIFFICULTY_WINDOW
             then (vec_resize DIFFICULTY_WINDOW 0 ts, vec_resize DIFFICULTY_WINDOW 0 cds)
             else (ts, cds)) = (take DIFFICULTY_WINDOW ts, take DIFFICULTY_WINDOW cds)"
  using assms by (simp add: vec_resize_take)

lemma next_difficulty_refines:
  fixes tgt :: u64
  assumes len: "length ts = length cds" "1 < length ts" and sorted: "sorted cds"
  defines "N \<equiv> retarget_numerator (map unat (take DIFFICULTY_WINDOW ts))
                 (map unat (take DIFFICULTY_WINDOW cds)) (unat tgt)"
    and "span \<equiv> window_span (map unat (take DIFFICULTY_WINDOW ts))"
  shows "\<exists>d. next_difficulty ts cds tgt = Some d
           \<and> unat d = (if N div span < 2 ^ 128 then N div span else 0)"
proof -
  note w = window_take [OF assms(1-3)]
  have short: "\<not> min (length ts) DIFFICULTY_WINDOW \<le> 1" using len by (simp add: DIFFICULTY_WINDOW_def)
  let ?ts = "take DIFFICULTY_WINDOW ts" and ?cds = "take DIFFICULTY_WINDOW cds"
  let ?b = "fst (difficulty_cut (length ?ts))" and ?e = "snd (difficulty_cut (length ?ts))"
  let ?diff = "sort ?ts ! (?e - 1) - sort ?ts ! ?b"
  define ws where "ws = (if ?diff = 0 then 1 else ?diff)"
  define ww where "ww = ?cds ! (?e - 1) - ?cds ! ?b"
  have ws: "unat ws = span" unfolding ws_def span_def by (rule w(5))
  have ww: "unat ww = window_work (map unat ?cds)" unfolding ww_def by (rule w(6))
  define res :: u256 where "res = (ucast ww * ucast tgt + ucast ws - 1) div ucast ws"
  have run: "next_difficulty ts cds tgt = (if res > max128bit then Some 0 else Some (ucast res))"
    unfolding next_difficulty_def window_resize [OF len(1)] res_def ws_def ww_def
    using w(1-4) short by (simp add: Let_def case_prod_beta)
  have ws0: "ws \<noteq> 0" by (simp add: ws_def)
  have u: "unat (ucast ww :: u256) = unat ww" "unat (ucast tgt :: u256) = unat tgt"
    "unat (ucast ws :: u256) = unat ws" by (simp_all add: unat_ucast_up)
  have bound: "unat ww * unat tgt < 2 ^ 128 * 2 ^ 64"
    using unsigned_less [of ww] unsigned_less [of tgt] by (intro mult_strict_mono) simp_all
  have prod: "unat (ucast ww * ucast tgt :: u256) = unat ww * unat tgt"
    using bound by (simp add: unat_mult_exact u)
  have "unat (ucast ww * ucast tgt + ucast ws - 1 :: u256) = N"
    using bound unat_lt_u64 [of ws] ws0
    by (subst unat_add_sub_1) (simp_all add: prod u N_def retarget_numerator_def ww ws span_def word_unat_eq_iff)
  then have "unat res = N div span" by (simp add: res_def unat_div u ws)
  then show ?thesis unfolding run
    by (simp add: word_less_nat_alt max128bit_def unat_ucast) 
qed

text \<open>The 64-bit rule is the same quotient, and reports zero as soon as its numerator needs 65 bits.\<close>

lemma next_difficulty_64_refines:
  fixes tgt :: u64
  assumes len: "length ts = length cds" "1 < length ts" and sorted: "sorted cds"
  defines "N \<equiv> retarget_numerator (map unat (take DIFFICULTY_WINDOW ts))
                 (map unat (take DIFFICULTY_WINDOW cds)) (unat tgt)"
    and "span \<equiv> window_span (map unat (take DIFFICULTY_WINDOW ts))"
  shows "\<exists>d. next_difficulty_64 ts cds tgt = Some d
           \<and> unat d = (if N < 2 ^ 64 then N div span else 0)"
proof -
  note w = window_take [OF assms(1-3)]
  have short: "\<not> min (length ts) DIFFICULTY_WINDOW \<le> 1" using len by (simp add: DIFFICULTY_WINDOW_def)
  let ?ts = "take DIFFICULTY_WINDOW ts" and ?cds = "take DIFFICULTY_WINDOW cds"
  let ?b = "fst (difficulty_cut (length ?ts))" and ?e = "snd (difficulty_cut (length ?ts))"
  let ?diff = "sort ?ts ! (?e - 1) - sort ?ts ! ?b"
  define ws where "ws = (if ?diff = 0 then 1 else ?diff)"
  define ww where "ww = ?cds ! (?e - 1) - ?cds ! ?b"
  have ws: "unat ws = span" unfolding ws_def span_def by (rule w(5))
  have ww: "unat ww = window_work (map unat ?cds)" unfolding ww_def by (rule w(6))
  define lo hi where "lo = fst (mul128 ww tgt)" and "hi = snd (mul128 ww tgt)"
  have run: "next_difficulty_64 ts cds tgt =
      (if hi \<noteq> 0 \<or> lo + ws - 1 < lo then Some 0 else Some ((lo + ws - 1) div ws))"
    unfolding next_difficulty_64_def window_resize [OF len(1)] lo_def hi_def ws_def ww_def
    using w(1-4) short by (simp add: Let_def case_prod_beta mul_def)
  have ws0: "ws \<noteq> 0" by (simp add: ws_def)
  then have ws1: "unat (ws - 1) = unat ws - 1" "1 \<le> unat ws"
    by (simp_all add: unat_minus_one Suc_le_eq unat_gt_0)
  have N: "N = unat hi * 2 ^ 64 + unat lo + (unat ws - 1)"
    unfolding N_def retarget_numerator_def hi_def lo_def mul128_product ww ws
    using window_span_pos [of "map unat ?ts"] by (simp add: span_def)
  have carry: "lo + ws - 1 < lo \<longleftrightarrow> 2 ^ 64 \<le> unat lo + (unat ws - 1)"
    using word_add_carry [of lo "ws - 1"] ws1 by (simp add: add_diff_eq)
  show ?thesis
  proof (cases "N < 2 ^ 64")
    case True
    then have hi: "hi = 0" "unat lo + (unat ws - 1) < 2 ^ 64"
      unfolding N by (auto simp: word_unat_eq_iff)
    then have "unat (lo + ws - 1) = N"
      using unat_add_sub_1 [OF ws0, of lo] ws1(2) by (simp add: N)
    with True hi carry run ws show ?thesis by (simp add: unat_div)
  next
    case False
    then have "hi \<noteq> 0 \<or> lo + ws - 1 < lo" unfolding carry N by (auto simp: word_unat_eq_iff)
    with False run show ?thesis by simp
  qed
qed

lemma next_difficulty_64_agrees:
  assumes len: "length ts = length cds" "1 < length ts" and sorted: "sorted cds"
    and d: "next_difficulty_64 ts cds tgt = Some d" "d \<noteq> 0"
  shows "next_difficulty ts (map ucast cds) tgt = Some (ucast d)"
proof -
  let ?N = "retarget_numerator (map unat (take DIFFICULTY_WINDOW ts))
      (map unat (take DIFFICULTY_WINDOW cds)) (unat tgt)"
  let ?span = "window_span (map unat (take DIFFICULTY_WINDOW ts))"
  have d64: "unat d = ?N div ?span"
    using next_difficulty_64_refines [OF len sorted, of tgt] d by (auto simp: word_unat_eq_iff split: if_splits)
  have up: "unat (ucast x :: difficulty_type) = unat x" for x :: u64 by (simp add: unat_ucast_up)
  have "sorted (map ucast cds :: difficulty_type list)"
    using sorted by (simp add: sorted_iff_nth_mono word_le_nat_alt up)
  then obtain d' where d': "next_difficulty ts (map ucast cds) tgt = Some d'"
      "unat d' = (if ?N div ?span < 2 ^ 128 then ?N div ?span else 0)"
    using next_difficulty_refines [of ts "map ucast cds" tgt] len by (auto simp: take_map up comp_def)
  have "?N div ?span < 2 ^ 128" using d64 unat_lt_u64 [of d] by simp
  then have "d' = ucast d" using d'(2) d64 by (simp add: word_unat_eq_iff up)
  then show ?thesis using d'(1) by simp
qed

section \<open>Hexadecimal printing reads back\<close>

definition hex_value :: "char \<Rightarrow> nat" where
  "hex_value c = (if of_char c \<le> (57 :: nat) then of_char c - 48 else of_char c - 87)"

definition hex_read :: "string \<Rightarrow> nat" where
  "hex_read s = foldl (\<lambda>n c. 16 * n + hex_value c) 0 (drop 2 s)"

lemma hex_value_chars: "n < 16 \<Longrightarrow> hex_value (hex_chars ! n) = n"
proof -
  have "\<forall>n \<in> set [0..<16]. hex_value (hex_chars ! n) = n" by code_simp
  then show "n < 16 \<Longrightarrow> hex_value (hex_chars ! n) = n" by simp
qed

lemma hex_digits_value: "foldr (\<lambda>c n. 16 * n + hex_value c) (hex_digits v) 0 = unat v"
proof (induction v rule: hex_digits.induct)
  case (1 v)
  have m: "unat (v AND 0xf) = unat v mod 16"
    using unat_take_bit [of 4 v] by (simp add: take_bit_eq_mask mask_eq_exp_minus_1)
  show ?case
  proof (cases "v > 0")
    case True
    then have "foldr (\<lambda>c n. 16 * n + hex_value c) (hex_digits v) 0 =
        16 * unat (drop_bit 4 v) + hex_value (hex_chars ! unat (v AND 0xf))"
      using 1 by (subst hex_digits.simps) simp
    also have "\<dots> = unat v" unfolding unat_drop_bit m by (simp add: hex_value_chars)
    finally show ?thesis .
  next
    case False
    then show ?thesis by (subst hex_digits.simps) (simp add: word_less_nat_alt)
  qed
qed

lemma hex_reads_back: "hex_read (hex v) = unat v"
proof (cases "hex_digits v = []")
  case True
  then have "unat v = 0" using hex_digits_value [of v] by simp
  with True show ?thesis by (simp add: hex_def hex_read_def hex_value_def)
next
  case False
  then show ?thesis
    using hex_digits_value [of v] by (simp add: hex_def hex_read_def Let_def foldl_conv_foldr)
qed

lemma hex_digits_chars: "set (hex_digits v) \<subseteq> set hex_chars"
proof (induction v rule: hex_digits.induct)
  case (1 v)
  have "unat (v AND 0xf) < 16" using unat_take_bit [of 4 v] by (simp add: take_bit_eq_mask mask_eq_exp_minus_1)
  then have "hex_chars ! unat (v AND 0xf) \<in> set hex_chars" by (intro nth_mem) (simp add: hex_chars_def)
  then show ?case using 1 by (subst hex_digits.simps) auto
qed

lemma hex_digits_last: "v \<noteq> 0 \<Longrightarrow> hex_digits v \<noteq> [] \<and> last (hex_digits v) \<noteq> CHR ''0''"
proof (induction v rule: hex_digits.induct)
  case (1 v)
  have v: "v > 0" using 1 by (simp add: word_neq_0_conv)
  have m: "unat (v AND 0xf) = unat v mod 16"
    using unat_take_bit [of 4 v] by (simp add: take_bit_eq_mask mask_eq_exp_minus_1)
  show ?case
  proof (cases "drop_bit 4 v = 0")
    case True
    then have "unat v div 16 = 0" using unat_drop_bit [of 4 v] by simp
    then have u: "unat v < 16" by (simp add: div_eq_0_iff)
    have "unat v \<noteq> 0" using v by (simp add: word_less_nat_alt)
    then have "hex_value (hex_chars ! unat (v AND 0xf)) \<noteq> hex_value (CHR ''0'')"
      unfolding m using u by (simp add: hex_value_chars) (simp add: hex_value_def)
    then show ?thesis using v True by (subst (1 2) hex_digits.simps) (auto simp: hex_digits.simps [of 0])
  next
    case False
    then show ?thesis using 1(1) [OF v] v by (subst (1 2) hex_digits.simps) auto
  qed
qed

lemma hex_canonical:
  "\<exists>ds. hex v = ''0x'' @ ds \<and> set ds \<subseteq> set hex_chars \<and> (if v = 0 then ds = ''0'' else ds \<noteq> [] \<and> hd ds \<noteq> CHR ''0'')"
proof (cases "v = 0")
  case True
  then show ?thesis by (simp add: hex_def hex_digits.simps [of 0] hex_chars_def)
next
  case False
  then show ?thesis using hex_digits_last [OF False] hex_digits_chars [of v] by (auto simp: hex_def Let_def hd_rev)
qed

section \<open>Properties\<close>

text \<open>C3: A proof-of-work hash passes \<open>check_hash\<close> exactly when the hash, read as a 256-bit little-endian
  number, times the difficulty does not exceed \<open>2^256 - 1\<close>; so both the 64-bit path with its
  carry chain and the multi-precision path decide the same predicate, for every difficulty.\<close>

theorem check_hash_correct:
  "length h = 32 \<Longrightarrow> check_hash h d \<longleftrightarrow> le_nat h * unat d < 2 ^ 256"
  by (rule check_hash_iff)

theorem check_hash_correct_witness:
  "check_hash (replicate 31 0 @ [1]) 256 \<longleftrightarrow> le_nat (replicate 31 0 @ [1]) * unat (256 :: u128) < 2 ^ 256"
  by (rule check_hash_correct) simp

text \<open>The portable 64x64-bit multiplication used where the compiler has no 128-bit integers gives the
  same low and high words as \<open>mul128\<close>, for all operands.\<close>

theorem mul_portable_is_mul: "mul_portable a b = mul a b"
  by (simp add: mul_def mul_portable_eq)

text \<open>C2: Retargeting.  For at least two blocks with non-decreasing cumulative difficulties, of which the first 720 count, the next
  difficulty is the work of the kept window times the target, divided by the time span of the sorted and kept timestamps and
  rounded up (0 when it does not fit 128 bits).  Of more than 600 entries, 600 are kept, without the half of the surplus at either end, the
  odd one at the front.  No read of the vectors is out of range and no subtraction or division wraps.  For fewer than two blocks the difficulty is 1.\<close>

theorem next_difficulty_correct:
  assumes "length ts = length cds" "sorted cds"
  shows "\<exists>d. next_difficulty ts cds tgt = Some d \<and> unat d =
    (if length ts \<le> 1 then 1 else let N = retarget_numerator (map unat (take DIFFICULTY_WINDOW ts))
                 (map unat (take DIFFICULTY_WINDOW cds)) (unat tgt) div
             window_span (map unat (take DIFFICULTY_WINDOW ts))
     in if N < 2 ^ 128 then N else 0)"
proof (cases "length ts \<le> 1")
  case True
  then have "next_difficulty ts cds tgt = Some 1"
    using assms(1) by (simp add: next_difficulty_def DIFFICULTY_WINDOW_def Let_def)
  then show ?thesis using True by simp
next
  case False
  then show ?thesis unfolding Let_def using next_difficulty_refines [OF assms(1) _ assms(2), of tgt] by simp
qed

theorem next_difficulty_correct_witness:
  "\<exists>d. next_difficulty [100, 240, 340] [1000, 2000, 3500] 120 = Some d \<and> unat d =
    (if length [100, 240, 340 :: u64] \<le> 1 then 1 else let N = retarget_numerator (map unat (take DIFFICULTY_WINDOW [100, 240, 340 :: u64]))
                 (map unat (take DIFFICULTY_WINDOW [1000, 2000, 3500 :: u128])) (unat (120 :: u64)) div
             window_span (map unat (take DIFFICULTY_WINDOW [100, 240, 340 :: u64]))
     in if N < 2 ^ 128 then N else 0)"
  by (rule next_difficulty_correct) simp_all

text \<open>C9: The historical 64-bit rule agrees with the 128-bit rule whenever it does not report
  overflow (the value 0), and it does report overflow when the numerator of the division does not
  fit 64 bits.\<close>

theorem next_difficulty_64_correct:
  assumes "length ts = length cds" "1 < length ts" "sorted cds"
  shows "\<exists>d. next_difficulty_64 ts cds tgt = Some d
    \<and> (d \<noteq> 0 \<longrightarrow> next_difficulty ts (map ucast cds) tgt = Some (ucast d))
    \<and> (2 ^ 64 \<le> retarget_numerator (map unat (take DIFFICULTY_WINDOW ts))
                 (map unat (take DIFFICULTY_WINDOW cds)) (unat tgt) \<longrightarrow> d = 0)"
proof -
  obtain d where d: "next_difficulty_64 ts cds tgt = Some d"
      "unat d = (if retarget_numerator (map unat (take DIFFICULTY_WINDOW ts))
                 (map unat (take DIFFICULTY_WINDOW cds)) (unat tgt) < 2 ^ 64
         then retarget_numerator (map unat (take DIFFICULTY_WINDOW ts))
                 (map unat (take DIFFICULTY_WINDOW cds)) (unat tgt) div
               window_span (map unat (take DIFFICULTY_WINDOW ts)) else 0)"
    using next_difficulty_64_refines [OF assms] by blast
  then show ?thesis
    using next_difficulty_64_agrees [OF assms d(1)] by (auto simp: unat_eq_0)
qed

theorem next_difficulty_64_correct_witness:
  "\<exists>d. next_difficulty_64 [100, 240, 340] [1000, 2000, 3500] 120 = Some d
    \<and> (d \<noteq> 0 \<longrightarrow> next_difficulty [100, 240, 340] (map ucast [1000, 2000, 3500 :: u64]) 120 = Some (ucast d))
    \<and> (2 ^ 64 \<le> retarget_numerator (map unat (take DIFFICULTY_WINDOW [100, 240, 340 :: u64]))
         (map unat (take DIFFICULTY_WINDOW [1000, 2000, 3500 :: u64])) (unat (120 :: u64)) \<longrightarrow> d = 0)"
  by (rule next_difficulty_64_correct) simp_all

text \<open>C11: The hexadecimal rendering of a difficulty is its canonical numeral: after the prefix \<open>0x\<close> come lower-case
  hexadecimal digits, at least one, the first of them not 0 unless the difficulty is 0, which prints as \<open>0x0\<close>; and read in base 16 they give the
  difficulty back.\<close>

theorem hex_roundtrip:
  "(\<exists>ds. hex v = ''0x'' @ ds \<and> set ds \<subseteq> set ''0123456789abcdef'' \<and> (if v = 0 then ds = ''0'' else ds \<noteq> [] \<and> hd ds \<noteq> CHR ''0'')) \<and>
   hex_read (hex v) = unat v"
  using hex_canonical [of v] by (simp only: hex_reads_back hex_chars_def simp_thms)

end
