(* ===== verification/Chain_Db.thy ===== *)
theory Chain_Db
  imports Prelude_Monero
begin

text \<open>
  The part of \<open>BlockchainDB\<close> (\<open>src/blockchain_db\<close>, LMDB implementation in
  \<open>src/blockchain_db/lmdb/db_lmdb.cpp\<close>) that the consensus components call: the blocks by height
  and the hard-fork version recorded for each height.  The tables are a list and a map; a read
  that throws (\<open>BLOCK_DNE\<close>, \<open>DB_ERROR\<close>) has no value.  Blocks are their headers, parsed.
\<close>

record block_header =
  major_version :: u8
  minor_version :: u8
  timestamp :: u64
  prev_id :: bytes
  nonce :: u32

record chain_db =
  db_blocks :: "block_header list"
  db_hf_versions :: "u64 \<Rightarrow> u8 option"

definition db_height :: "chain_db \<Rightarrow> u64" where
  "db_height db = of_nat (length (db_blocks db))"

definition get_block_from_height :: "chain_db \<Rightarrow> u64 \<Rightarrow> block_header option" where
  "get_block_from_height db h = vec_at (db_blocks db) (unat h)"

definition set_hard_fork_version :: "u64 \<Rightarrow> u8 \<Rightarrow> chain_db \<Rightarrow> chain_db" where
  "set_hard_fork_version h v db = db\<lparr>db_hf_versions := (db_hf_versions db)(h \<mapsto> v)\<rparr>"

definition get_hard_fork_version :: "chain_db \<Rightarrow> u64 \<Rightarrow> u8 option" where
  "get_hard_fork_version db h = db_hf_versions db h"

text \<open>
  What the hard-fork logic relies on: a version read back is the last one written for that
  height, and recording versions leaves the blocks alone.
\<close>

locale hf_version_store =
  fixes hgt :: "'db \<Rightarrow> u64"
    and blk :: "'db \<Rightarrow> u64 \<Rightarrow> 'b option"
    and put :: "u64 \<Rightarrow> u8 \<Rightarrow> 'db \<Rightarrow> 'db"
    and get :: "'db \<Rightarrow> u64 \<Rightarrow> u8 option"
  assumes get_put: "get (put h v db) h' = (if h' = h then Some v else get db h')"
    and hgt_put: "hgt (put h v db) = hgt db"
    and blk_put: "blk (put h v db) h' = blk db h'"
begin

lemma get_puts:
  "distinct (map fst hvs) \<Longrightarrow>
     get (fold (\<lambda>(h, v). put h v) hvs db) h = (case map_of hvs h of Some v \<Rightarrow> Some v | None \<Rightarrow> get db h)"
proof (induction hvs arbitrary: db)
  case (Cons a hvs)
  have "map_of hvs (fst a) = None"
    using Cons.prems by (simp add: map_of_eq_None_iff)
  then show ?case
    using Cons by (auto simp: case_prod_beta get_put split: option.splits)
qed simp

lemma hgt_puts: "hgt (fold (\<lambda>(h, v). put h v) hvs db) = hgt db"
  by (induction hvs arbitrary: db) (auto simp: case_prod_beta hgt_put)

lemma blk_puts: "blk (fold (\<lambda>(h, v). put h v) hvs db) h = blk db h"
  by (induction hvs arbitrary: db) (auto simp: case_prod_beta blk_put)

end

interpretation lmdb: hf_version_store db_height get_block_from_height set_hard_fork_version get_hard_fork_version
  by unfold_locales
    (simp_all add: get_hard_fork_version_def set_hard_fork_version_def db_height_def get_block_from_height_def)

end
