(* ===== verification/Hard_Fork.thy ===== *)
theory Hard_Fork
  imports Chain_Db
begin

text \<open>
  \<open>src/cryptonote_basic/hardfork.cpp\<close>: the hard-fork schedule and the voting window.  The
  object's fields are the record \<open>HardFork\<close>; \<open>last_versions\<close>, an array indexed by a \<open>uint8_t\<close>,
  is a function on \<open>u8\<close>.  The object's reference to the database is an explicit argument, and an
  operation that writes it returns it.  An operation has no value (\<open>None\<close>) where the code throws,
  reads outside a vector, or does not return.  Locks are not modelled: every public operation
  holds the object's lock for its whole duration.
\<close>

record hardfork_t =
  hf_version :: u8
  hf_height :: u64
  hf_threshold :: u8
  hf_time :: int

datatype hf_state = LikelyForked | UpdateNeeded | Ready

record HardFork =
  forked_time :: int
  update_time :: int
  window_size :: u64
  default_threshold_percent :: u8
  original_version :: u8
  original_version_till_height :: u64
  heights :: "hardfork_t list"
  versions :: "u8 list"
  last_versions :: "u8 \<Rightarrow> u32"
  current_fork_index :: nat

section \<open>Schedule\<close>

definition get_block_vote :: "block_header \<Rightarrow> u8" where
  "get_block_vote b = (if minor_version b = 0 then 1 else minor_version b)"

definition get_block_version :: "block_header \<Rightarrow> u8" where
  "get_block_version b = major_version b"

text \<open>The constructor leaves the counters uninitialised; \<open>junk\<close> is what the memory held.\<close>

definition new_HardFork ::
  "(u8 \<Rightarrow> u32) \<Rightarrow> u8 \<Rightarrow> u64 \<Rightarrow> int \<Rightarrow> int \<Rightarrow> u64 \<Rightarrow> u8 \<Rightarrow> HardFork option" where
  "new_HardFork junk orig till forked update win thr =
     (if win = 0 then None
      else if thr > 100 then None
      else Some \<lparr>forked_time = forked, update_time = update, window_size = win,
                 default_threshold_percent = thr, original_version = orig,
                 original_version_till_height = till, heights = [], versions = [],
                 last_versions = junk, current_fork_index = 0\<rparr>)"

definition add_fork :: "u8 \<Rightarrow> u64 \<Rightarrow> u8 \<Rightarrow> int \<Rightarrow> HardFork \<Rightarrow> bool \<times> HardFork" where
  "add_fork version height threshold time hf =
     (if version = 0 then (False, hf)
      else if heights hf \<noteq> [] \<and> version \<le> hf_version (last (heights hf)) then (False, hf)
      else if heights hf \<noteq> [] \<and> height \<le> hf_height (last (heights hf)) then (False, hf)
      else if heights hf \<noteq> [] \<and> time \<le> hf_time (last (heights hf)) then (False, hf)
      else if threshold > 100 then (False, hf)
      else (True, hf\<lparr>heights := heights hf @
              [\<lparr>hf_version = version, hf_height = height, hf_threshold = threshold, hf_time = time\<rparr>]\<rparr>))"

definition add_fork_default :: "u8 \<Rightarrow> u64 \<Rightarrow> int \<Rightarrow> HardFork \<Rightarrow> bool \<times> HardFork" where
  "add_fork_default version height time hf = add_fork version height (default_threshold_percent hf) time hf"

definition get_effective_version :: "HardFork \<Rightarrow> u8 \<Rightarrow> u8" where
  "get_effective_version hf voting_version =
     (if heights hf \<noteq> [] then
        let max_version = hf_version (last (heights hf))
        in if voting_version > max_version then max_version else voting_version
      else voting_version)"

section \<open>Voting\<close>

text \<open>The loop of \<open>get_voted_fork_index\<close>, over the indices from the last fork down.\<close>

fun voted_loop :: "HardFork \<Rightarrow> u64 \<Rightarrow> nat list \<Rightarrow> u32 \<Rightarrow> nat" where
  "voted_loop hf height [] accumulated_votes = current_fork_index hf"
| "voted_loop hf height (n # ns) accumulated_votes =
     (let v = hf_version (heights hf ! n);
          accumulated_votes = accumulated_votes + last_versions hf v;
          threshold = ucast ((window_size hf * ucast (hf_threshold (heights hf ! n)) + 99) div 100)
      in if height \<ge> hf_height (heights hf ! n) \<and> accumulated_votes \<ge> threshold then n
         else voted_loop hf height ns accumulated_votes)"

definition get_voted_fork_index :: "HardFork \<Rightarrow> u64 \<Rightarrow> nat" where
  "get_voted_fork_index hf height = voted_loop hf height (rev [0..<length (heights hf)]) 0"

text \<open>The index is stored in a \<open>uint8_t\<close> before it is compared and taken over.\<close>

definition take_voted :: "u64 \<Rightarrow> HardFork \<Rightarrow> HardFork" where
  "take_voted height hf =
     (let voted = unat (of_nat (get_voted_fork_index hf height) :: u8)
      in if voted > current_fork_index hf then hf\<lparr>current_fork_index := voted\<rparr> else hf)"

definition do_check :: "HardFork \<Rightarrow> u8 \<Rightarrow> u8 \<Rightarrow> bool option" where
  "do_check hf block_version voting_version = do {
     f \<leftarrow> vec_at (heights hf) (current_fork_index hf);
     Some (block_version = hf_version f \<and> voting_version \<ge> hf_version f) }"

definition check :: "HardFork \<Rightarrow> block_header \<Rightarrow> bool option" where
  "check hf b = do_check hf (get_block_version b) (get_block_vote b)"

definition do_check_for_height :: "HardFork \<Rightarrow> u8 \<Rightarrow> u8 \<Rightarrow> u64 \<Rightarrow> bool option" where
  "do_check_for_height hf block_version voting_version height = do {
     f \<leftarrow> vec_at (heights hf) (get_voted_fork_index hf height);
     Some (block_version = hf_version f \<and> voting_version \<ge> hf_version f) }"

definition check_for_height :: "HardFork \<Rightarrow> block_header \<Rightarrow> u64 \<Rightarrow> bool option" where
  "check_for_height hf b height = do_check_for_height hf (get_block_version b) (get_block_vote b) height"

definition dec_version :: "u8 \<Rightarrow> HardFork \<Rightarrow> HardFork" where
  "dec_version v hf = hf\<lparr>last_versions := (last_versions hf)(v := last_versions hf v - 1)\<rparr>"

definition inc_version :: "u8 \<Rightarrow> HardFork \<Rightarrow> HardFork" where
  "inc_version v hf = hf\<lparr>last_versions := (last_versions hf)(v := last_versions hf v + 1)\<rparr>"

text \<open>\<open>while (versions.size() >= window_size)\<close> drop the oldest vote.\<close>

function drop_old :: "HardFork \<Rightarrow> HardFork" where
  "drop_old hf =
     (if of_nat (length (versions hf)) \<ge> window_size hf \<and> versions hf \<noteq> [] then
        drop_old ((dec_version (hd (versions hf)) hf)\<lparr>versions := tl (versions hf)\<rparr>)
      else hf)"
  by pat_completeness auto
termination
  by (relation "measure (\<lambda>hf. length (versions hf))") (auto simp: dec_version_def)

declare drop_old.simps [simp del]

definition push_vote :: "u8 \<Rightarrow> HardFork \<Rightarrow> HardFork" where
  "push_vote v hf = (inc_version v hf)\<lparr>versions := versions hf @ [v]\<rparr>"

definition add :: "u8 \<Rightarrow> u8 \<Rightarrow> u64 \<Rightarrow> HardFork \<times> chain_db \<Rightarrow> (bool \<times> HardFork \<times> chain_db) option" where
  "add block_version voting_version height = (\<lambda>(hf, db). do {
     ok \<leftarrow> do_check hf block_version voting_version;
     if \<not> ok then Some (False, hf, db)
     else do {
       f \<leftarrow> vec_at (heights hf) (current_fork_index hf);
       let db = set_hard_fork_version height (hf_version f) db;
       let voting_version = get_effective_version hf voting_version;
       let hf = push_vote voting_version (drop_old hf);
       Some (True, take_voted (height + 1) hf, db) } })"

definition add_block :: "block_header \<Rightarrow> u64 \<Rightarrow> HardFork \<times> chain_db \<Rightarrow> (bool \<times> HardFork \<times> chain_db) option" where
  "add_block b height = add (get_block_version b) (get_block_vote b) height"

section \<open>Rebuilding the window\<close>

definition clear_votes :: "HardFork \<Rightarrow> HardFork" where
  "clear_votes hf = hf\<lparr>versions := [], last_versions := (\<lambda>_. 0)\<rparr>"

text \<open>Reading the votes of the blocks at the given heights into the window.\<close>

definition scan_votes :: "chain_db \<Rightarrow> nat list \<Rightarrow> HardFork \<Rightarrow> HardFork option" where
  "scan_votes db hs hf = ofold (\<lambda>h hf. do {
     b \<leftarrow> get_block_from_height db (of_nat h);
     Some (push_vote (get_effective_version hf (get_block_vote b)) hf) }) hs hf"

text \<open>\<open>while (current_fork_index > 0 && heights[current_fork_index].version > start_version) --current_fork_index\<close>\<close>

fun lower_index :: "hardfork_t list \<Rightarrow> u8 \<Rightarrow> nat \<Rightarrow> nat option" where
  "lower_index fs start_version 0 = Some 0"
| "lower_index fs start_version (Suc n) = do {
     f \<leftarrow> vec_at fs (Suc n);
     if hf_version f > start_version then lower_index fs start_version n else Some (Suc n) }"

definition replay_block :: "nat \<Rightarrow> HardFork \<times> chain_db \<Rightarrow> (HardFork \<times> chain_db) option" where
  "replay_block h = (\<lambda>(hf, db). do {
     b \<leftarrow> get_block_from_height db (of_nat h);
     (_, s) \<leftarrow> add_block b (of_nat h) (hf, db);
     Some s })"

definition reorganize_from_block_height ::
  "u64 \<Rightarrow> HardFork \<times> chain_db \<Rightarrow> (bool \<times> HardFork \<times> chain_db) option" where
  "reorganize_from_block_height height = (\<lambda>(hf, db).
     if height \<ge> db_height db then Some (False, hf, db)
     else do {
       let hf = clear_votes hf;
       let rescan_height = (if height \<ge> window_size hf - 1 then height - (window_size hf - 1) else 0);
       start_version \<leftarrow> (if height = 0 then Some (original_version hf) else get_hard_fork_version db height);
       i \<leftarrow> lower_index (heights hf) start_version (current_fork_index hf);
       hf \<leftarrow> scan_votes db [unat rescan_height..<Suc (unat height)] (hf\<lparr>current_fork_index := i\<rparr>);
       let hf = take_voted (height + 1) hf;
       let bc_height = db_height db;
       (hf, db) \<leftarrow> ofold replay_block [Suc (unat height)..<unat bc_height] (hf, db);
       Some (True, hf, db) })"

definition reorganize_from_chain_height ::
  "u64 \<Rightarrow> HardFork \<times> chain_db \<Rightarrow> (bool \<times> HardFork \<times> chain_db) option" where
  "reorganize_from_chain_height height s =
     (if height = 0 then Some (False, s) else reorganize_from_block_height (height - 1) s)"

text \<open>\<open>while (i + 1 < heights.size() && heights[i].version != lastv) ++i\<close>, started at the first fork.\<close>

fun find_version :: "hardfork_t list \<Rightarrow> u8 \<Rightarrow> nat" where
  "find_version (f # g # fs) lastv = (if hf_version f \<noteq> lastv then Suc (find_version (g # fs) lastv) else 0)"
| "find_version fs lastv = 0"

definition rescan_from_block_height :: "u64 \<Rightarrow> HardFork \<times> chain_db \<Rightarrow> (bool \<times> HardFork) option" where
  "rescan_from_block_height height = (\<lambda>(hf, db).
     if height \<ge> db_height db then Some (False, hf)
     else do {
       hf \<leftarrow> scan_votes db [unat height..<unat (db_height db)] (clear_votes hf);
       lastv \<leftarrow> get_hard_fork_version db (db_height db - 1);
       let hf = hf\<lparr>current_fork_index := find_version (heights hf) lastv\<rparr>;
       Some (True, take_voted (db_height db) hf) })"

definition rescan_from_chain_height :: "u64 \<Rightarrow> HardFork \<times> chain_db \<Rightarrow> (bool \<times> HardFork) option" where
  "rescan_from_chain_height height s =
     (if height = 0 then Some (False, fst s) else rescan_from_block_height (height - 1) s)"

definition init :: "HardFork \<times> chain_db \<Rightarrow> HardFork option" where
  "init = (\<lambda>(hf, db). do {
     let hf = (if heights hf = [] then hf\<lparr>heights :=
                 [\<lparr>hf_version = original_version hf, hf_height = 0, hf_threshold = 0, hf_time = 0\<rparr>]\<rparr> else hf);
     let hf = (clear_votes hf)\<lparr>current_fork_index := 0\<rparr>;
     let height = db_height db;
     let height = (if height > window_size hf then height - (window_size hf - 1) else 1);
     (_, hf) \<leftarrow> rescan_from_chain_height height (hf, db);
     Some hf })"

text \<open>
  \<open>on_block_popped\<close>: the loop counts an unsigned \<open>height\<close> down to \<open>new_chain_height\<close>, so with an
  empty chain its condition never fails; \<open>back()\<close> and \<open>pop_back()\<close> of an empty deque are undefined.
\<close>

partial_function (option) pop_loop :: "chain_db \<Rightarrow> u64 \<Rightarrow> u64 \<Rightarrow> HardFork \<Rightarrow> HardFork option" where
  "pop_loop db new_chain_height height hf =
     (if height \<ge> new_chain_height then
        (if versions hf = [] then None
         else do {
           let hf = (dec_version (last (versions hf)) hf)\<lparr>versions := butlast (versions hf)\<rparr>;
           version \<leftarrow> get_hard_fork_version db height;
           let hf = (inc_version version hf)\<lparr>versions := version # versions hf\<rparr>;
           pop_loop db new_chain_height (height - 1) hf })
      else Some hf)"

text \<open>\<open>for (i = heights.size() - 1; i > 0; --i) if (new_chain_height >= heights[i].height) break;\<close>\<close>

fun index_for_height :: "hardfork_t list \<Rightarrow> u64 \<Rightarrow> nat \<Rightarrow> nat" where
  "index_for_height fs h 0 = 0"
| "index_for_height fs h (Suc n) = (if h \<ge> hf_height (fs ! Suc n) then Suc n else index_for_height fs h n)"

definition on_block_popped :: "u64 \<Rightarrow> HardFork \<times> chain_db \<Rightarrow> HardFork option" where
  "on_block_popped nblocks = (\<lambda>(hf, db).
     if \<not> nblocks > 0 then None
     else do {
       let new_chain_height = db_height db;
       let old_chain_height = new_chain_height + nblocks;
       hf \<leftarrow> pop_loop db new_chain_height (old_chain_height - 1) hf;
       if heights hf = [] then None
       else Some (hf\<lparr>current_fork_index :=
         index_for_height (heights hf) new_chain_height (length (heights hf) - 1)\<rparr>) })"

section \<open>Queries\<close>

definition hf_get_block_version :: "HardFork \<Rightarrow> chain_db \<Rightarrow> u64 \<Rightarrow> u8 option" where
  "hf_get_block_version hf db height =
     (if height \<le> original_version_till_height hf then Some (original_version hf)
      else map_option get_block_version (get_block_from_height db height))"

definition get_state :: "HardFork \<Rightarrow> int \<Rightarrow> hf_state" where
  "get_state hf t =
     (if length (heights hf) \<le> 1 then Ready
      else let t_last_fork = hf_time (last (heights hf))
           in if t \<ge> t_last_fork + forked_time hf then LikelyForked
              else if t \<ge> t_last_fork + update_time hf then UpdateNeeded
              else Ready)"

definition get_current_version :: "HardFork \<Rightarrow> u8 option" where
  "get_current_version hf = map_option hf_version (vec_at (heights hf) (current_fork_index hf))"

definition hf_get :: "HardFork \<Rightarrow> chain_db \<Rightarrow> u64 \<Rightarrow> u8 option" where
  "hf_get hf db height =
     (if height > db_height db then Some 255
      else if height = db_height db then get_current_version hf
      else get_hard_fork_version db height)"

definition get_ideal_version :: "HardFork \<Rightarrow> u8 option" where
  "get_ideal_version hf = (if heights hf = [] then None else Some (hf_version (last (heights hf))))"

fun ideal_loop :: "hardfork_t list \<Rightarrow> u8 \<Rightarrow> u64 \<Rightarrow> nat \<Rightarrow> u8" where
  "ideal_loop fs orig h 0 = orig"
| "ideal_loop fs orig h (Suc n) =
     (if h \<ge> hf_height (fs ! Suc n) then hf_version (fs ! Suc n) else ideal_loop fs orig h n)"

definition get_ideal_version_at :: "HardFork \<Rightarrow> u64 \<Rightarrow> u8 option" where
  "get_ideal_version_at hf height =
     (if heights hf = [] then None
      else Some (ideal_loop (heights hf) (original_version hf) height (length (heights hf) - 1)))"

fun earliest_loop :: "hardfork_t list \<Rightarrow> u8 \<Rightarrow> u64 \<Rightarrow> u64" where
  "earliest_loop [] version height = height"
| "earliest_loop (f # fs) version height =
     (if hf_version f \<ge> version then earliest_loop fs version (hf_height f) else height)"

definition get_earliest_ideal_height_for_version :: "HardFork \<Rightarrow> u8 \<Rightarrow> u64" where
  "get_earliest_ideal_height_for_version hf version = earliest_loop (rev (heights hf)) version (- 1)"

text \<open>The reverse iteration of \<open>get_next_version\<close>; \<open>later\<close> is the entry just after \<open>f\<close>.\<close>

fun next_loop :: "hardfork_t list \<Rightarrow> hardfork_t option \<Rightarrow> u8 \<Rightarrow> u64 \<Rightarrow> u8" where
  "next_loop [] later orig height = orig"
| "next_loop (f # fs) later orig height =
     (if height \<ge> hf_height f then hf_version (case later of None \<Rightarrow> f | Some g \<Rightarrow> g)
      else next_loop fs (Some f) orig height)"

definition get_next_version :: "HardFork \<Rightarrow> chain_db \<Rightarrow> u8" where
  "get_next_version hf db = next_loop (rev (heights hf)) None (original_version hf) (db_height db)"

text \<open>Result: enabled, window, votes, threshold, earliest height, voting.\<close>

definition get_voting_info :: "HardFork \<Rightarrow> u8 \<Rightarrow> (bool \<times> u32 \<times> u32 \<times> u32 \<times> u64 \<times> u8) option" where
  "get_voting_info hf version = do {
     f \<leftarrow> vec_at (heights hf) (current_fork_index hf);
     let enabled = (hf_version f \<ge> version);
     let window = of_nat (length (versions hf));
     let votes = fold (\<lambda>n votes. votes + last_versions hf (of_nat n)) [unat version..<256] 0;
     let threshold = (window * ucast (hf_threshold f) + 99) div 100;
     let earliest_height = get_earliest_ideal_height_for_version hf version;
     Some (enabled, window, votes, threshold, earliest_height, hf_version (last (heights hf))) }"

section \<open>The invariant\<close>

definition fork_before :: "hardfork_t \<Rightarrow> hardfork_t \<Rightarrow> bool" where
  "fork_before f g \<longleftrightarrow> hf_version f < hf_version g \<and> hf_height f < hf_height g \<and> hf_time f < hf_time g"

definition schedule_ok :: "hardfork_t list \<Rightarrow> bool" where
  "schedule_ok fs \<longleftrightarrow> sorted_wrt fork_before fs \<and> list_all (\<lambda>f. hf_threshold f \<le> 100) fs"

definition window_ok :: "HardFork \<Rightarrow> bool" where
  "window_ok hf \<longleftrightarrow> (\<forall>v. last_versions hf v = of_nat (count_list (versions hf) v))"

definition hf_inv :: "HardFork \<Rightarrow> bool" where
  "hf_inv hf \<longleftrightarrow> schedule_ok (heights hf) \<and> current_fork_index hf < length (heights hf)
     \<and> 0 < window_size hf \<and> window_ok hf \<and> length (versions hf) \<le> unat (window_size hf)"

lemma fork_before_trans: "transp fork_before"
  by (auto simp: transp_def fork_before_def)

lemma schedule_ok_snoc:
  "schedule_ok (fs @ [f]) \<longleftrightarrow>
     schedule_ok fs \<and> hf_threshold f \<le> 100 \<and> (fs \<noteq> [] \<longrightarrow> fork_before (last fs) f)"
proof -
  have "\<forall>g \<in> set fs. fork_before g f" if "sorted_wrt fork_before fs" "fork_before (last fs) f"
  proof
    fix g assume "g \<in> set fs"
    then obtain xs ys where "fs = xs @ g # ys" by (auto simp: in_set_conv_decomp)
    then have "g = last fs \<or> fork_before g (last fs)"
      using that(1) by (cases ys rule: rev_cases) (auto simp: sorted_wrt_append)
    then show "fork_before g f" using that(2) fork_before_trans by (auto dest: transpD)
  qed
  then show ?thesis
    by (cases "fs = []") (auto simp: schedule_ok_def sorted_wrt_append)
qed

text \<open>Versions strictly increase and are bytes, so an index always fits the \<open>uint8_t\<close> it passes through.\<close>

lemma schedule_length:
  assumes "schedule_ok fs"
  shows "length fs \<le> 256"
proof -
  have "sorted_wrt (<) (map hf_version fs)"
    using assms by (auto simp: schedule_ok_def sorted_wrt_map fork_before_def elim: sorted_wrt_mono_rel [rotated])
  then have "distinct (map hf_version fs)" by (simp add: strict_sorted_iff)
  then have "length fs = card (set (map hf_version fs))" by (metis distinct_card length_map)
  also have "\<dots> \<le> card (UNIV :: u8 set)" by (intro card_mono) simp_all
  finally show ?thesis by (simp add: card_word)
qed

lemma schedule_distinct: "schedule_ok fs \<Longrightarrow> distinct (map hf_version fs)"
proof -
  assume "schedule_ok fs"
  then have "sorted_wrt (<) (map hf_version fs)"
    by (auto simp: schedule_ok_def sorted_wrt_map fork_before_def elim: sorted_wrt_mono_rel [rotated])
  then show ?thesis by (simp add: strict_sorted_iff)
qed

lemma voted_loop_cases:
  "voted_loop hf h ns a = current_fork_index hf \<or>
   voted_loop hf h ns a \<in> set ns \<and> hf_height (heights hf ! voted_loop hf h ns a) \<le> h"
  by (induction ns arbitrary: a) (auto simp: Let_def)

lemma get_voted_fork_index_less:
  "current_fork_index hf < length (heights hf) \<Longrightarrow> get_voted_fork_index hf h < length (heights hf)"
  using voted_loop_cases [of hf h "rev [0..<length (heights hf)]" 0]
  by (auto simp: get_voted_fork_index_def)

lemma take_voted_index:
  assumes "schedule_ok (heights hf)" "current_fork_index hf < length (heights hf)"
  shows "current_fork_index (take_voted h hf) = max (current_fork_index hf) (get_voted_fork_index hf h)"
proof -
  have "get_voted_fork_index hf h < 256"
    using get_voted_fork_index_less [OF assms(2)] schedule_length [OF assms(1)] by (meson less_le_trans)
  then show ?thesis by (auto simp: take_voted_def Let_def unat_of_nat max_def)
qed

lemma take_voted_simps [simp]:
  "heights (take_voted h hf) = heights hf" "versions (take_voted h hf) = versions hf"
  "last_versions (take_voted h hf) = last_versions hf" "window_size (take_voted h hf) = window_size hf"
  "original_version (take_voted h hf) = original_version hf"
  by (simp_all add: take_voted_def Let_def)

lemma inc_dec_simps [simp]:
  "heights (inc_version v hf) = heights hf" "versions (inc_version v hf) = versions hf"
  "window_size (inc_version v hf) = window_size hf" "current_fork_index (inc_version v hf) = current_fork_index hf"
  "heights (dec_version v hf) = heights hf" "versions (dec_version v hf) = versions hf"
  "window_size (dec_version v hf) = window_size hf" "current_fork_index (dec_version v hf) = current_fork_index hf"
  by (simp_all add: inc_version_def dec_version_def)

lemma push_vote_simps [simp]:
  "heights (push_vote v hf) = heights hf" "versions (push_vote v hf) = versions hf @ [v]"
  "window_size (push_vote v hf) = window_size hf" "current_fork_index (push_vote v hf) = current_fork_index hf"
  by (simp_all add: push_vote_def)

lemma push_vote_window: "window_ok hf \<Longrightarrow> window_ok (push_vote v hf)"
  by (auto simp: window_ok_def push_vote_def inc_version_def)

lemma drop_front_window:
  "window_ok hf \<Longrightarrow> versions hf = v # vs \<Longrightarrow> window_ok ((dec_version v hf)\<lparr>versions := vs\<rparr>)"
  by (auto simp: window_ok_def dec_version_def)

text \<open>The dropping loop cuts the window to one less than its size and touches nothing else.\<close>

lemma drop_old_spec:
  assumes "window_ok hf" "0 < window_size hf" "length (versions hf) < 2 ^ 64"
  shows "window_ok (drop_old hf) \<and> heights (drop_old hf) = heights hf
    \<and> window_size (drop_old hf) = window_size hf
    \<and> current_fork_index (drop_old hf) = current_fork_index hf
    \<and> versions (drop_old hf) =
        drop (length (versions hf) - (unat (window_size hf) - 1)) (versions hf)"
  using assms
proof (induction hf rule: drop_old.induct)
  case (1 hf)
  have len: "of_nat (length (versions hf)) \<ge> window_size hf \<longleftrightarrow> unat (window_size hf) \<le> length (versions hf)"
    using "1.prems"(3) by (simp add: word_le_nat_alt unat_of_nat)
  have w: "0 < unat (window_size hf)" using "1.prems"(2) by (simp add: unat_gt_0)
  show ?case
  proof (cases "unat (window_size hf) \<le> length (versions hf)")
    case True
    with w obtain v vs where vs: "versions hf = v # vs" by (cases "versions hf") auto
    let ?hf = "(dec_version v hf)\<lparr>versions := vs\<rparr>"
    have "drop_old hf = drop_old ?hf"
      using True vs len by (subst drop_old.simps) simp
    moreover have "window_ok ?hf" using drop_front_window [OF "1.prems"(1) vs] .
    moreover have "drop (length vs - (unat (window_size hf) - 1)) vs =
        drop (length (v # vs) - (unat (window_size hf) - 1)) (v # vs)"
      using True vs w by (simp add: Suc_diff_le)
    ultimately show ?thesis
      using "1.IH" "1.prems" True vs len by simp
  next
    case False
    then have "drop_old hf = hf" using len by (subst drop_old.simps) simp
    with "1.prems" False show ?thesis by simp
  qed
qed

section \<open>Adding a block\<close>

lemma window_size_pos: "hf_inv hf \<Longrightarrow> 0 < unat (window_size hf)"
  by (auto simp: hf_inv_def unat_gt_0)

lemma versions_short: "hf_inv hf \<Longrightarrow> length (versions hf) < 2 ^ 64"
  using unat_lt_u64 [of "window_size hf"] by (simp add: hf_inv_def)

lemma do_check_inv:
  "hf_inv hf \<Longrightarrow> do_check hf bv vv =
     Some (bv = hf_version (heights hf ! current_fork_index hf) \<and> hf_version (heights hf ! current_fork_index hf) \<le> vv)"
  by (simp add: do_check_def hf_inv_def)

lemma add_rejects:
  "hf_inv hf \<Longrightarrow> do_check hf bv vv = Some False \<Longrightarrow> add bv vv h (hf, db) = Some (False, hf, db)"
  by (simp add: add_def)

definition slid_window :: "HardFork \<Rightarrow> u8 \<Rightarrow> u8 list" where
  "slid_window hf v =
     drop (Suc (length (versions hf)) - unat (window_size hf)) (versions hf @ [v])"

lemma add_accepts:
  assumes inv: "hf_inv hf" and ok: "do_check hf bv vv = Some True"
  shows "\<exists>hf' db'. add bv vv h (hf, db) = Some (True, hf', db') \<and> hf_inv hf'
    \<and> db' = set_hard_fork_version h (hf_version (heights hf ! current_fork_index hf)) db
    \<and> heights hf' = heights hf \<and> window_size hf' = window_size hf
    \<and> versions hf' = slid_window hf (get_effective_version hf vv)
    \<and> current_fork_index hf \<le> current_fork_index hf'
    \<and> (current_fork_index hf < current_fork_index hf' \<longrightarrow>
         hf_height (heights hf ! current_fork_index hf') \<le> h + 1)"
proof -
  let ?v = "get_effective_version hf vv"
  let ?w = "unat (window_size hf)"
  note d = drop_old_spec [of hf]
  have pre: "window_ok hf" "0 < window_size hf" "length (versions hf) < 2 ^ 64"
    "schedule_ok (heights hf)" "current_fork_index hf < length (heights hf)"
    "length (versions hf) \<le> ?w" "0 < ?w"
    using inv versions_short window_size_pos by (auto simp: hf_inv_def)
  define hf1 where "hf1 = push_vote ?v (drop_old hf)"
  define hf2 where "hf2 = take_voted (h + 1) hf1"
  have h1: "window_ok hf1" "heights hf1 = heights hf" "window_size hf1 = window_size hf"
    "current_fork_index hf1 = current_fork_index hf"
    "versions hf1 = slid_window hf ?v"
    using d [OF pre(1-3)] pre(6,7)
    by (auto simp: hf1_def push_vote_window slid_window_def Suc_diff_le)
  have i2: "current_fork_index hf2 = max (current_fork_index hf) (get_voted_fork_index hf1 (h + 1))"
    unfolding hf2_def using h1 pre by (simp add: take_voted_index)
  have "length (slid_window hf ?v) \<le> ?w" using pre by (auto simp: slid_window_def)
  then have inv2: "hf_inv hf2"
    using h1 pre i2 get_voted_fork_index_less [of hf1 "h + 1"]
    by (auto simp: hf_inv_def hf2_def window_ok_def)
  have act: "hf_height (heights hf ! current_fork_index hf2) \<le> h + 1"
    if "current_fork_index hf < current_fork_index hf2"
    using that voted_loop_cases [of hf1 "h + 1" "rev [0..<length (heights hf1)]" 0] h1
    by (auto simp: i2 max_def get_voted_fork_index_def split: if_splits)
  have "add bv vv h (hf, db) =
      Some (True, hf2, set_hard_fork_version h (hf_version (heights hf ! current_fork_index hf)) db)"
    using ok pre by (simp add: add_def hf1_def hf2_def)
  then show ?thesis using inv2 h1 i2 act by (auto simp: hf2_def)
qed

lemma add_total:
  assumes "hf_inv hf"
  shows "\<exists>ok hf' db'. add bv vv h (hf, db) = Some (ok, hf', db') \<and> hf_inv hf'
    \<and> heights hf' = heights hf \<and> current_fork_index hf \<le> current_fork_index hf'"
proof (cases "do_check hf bv vv = Some True")
  case True
  then show ?thesis using add_accepts [OF assms True, of h db] by blast
next
  case False
  then have "do_check hf bv vv = Some False" using do_check_inv [OF assms] by auto
  then show ?thesis using add_rejects [OF assms] assms by auto
qed

section \<open>The vote\<close>

text \<open>
  A fork is activated when its height is reached and the window holds enough votes for it or
  for a later fork; the vote selects the latest such fork.
\<close>

definition votes_from :: "HardFork \<Rightarrow> nat \<Rightarrow> nat" where
  "votes_from hf n = length (filter (\<lambda>v. v \<in> set (map hf_version (drop n (heights hf)))) (versions hf))"

definition activates :: "HardFork \<Rightarrow> u64 \<Rightarrow> nat \<Rightarrow> bool" where
  "activates hf h n \<longleftrightarrow> hf_height (heights hf ! n) \<le> h
     \<and> unat (window_size hf) * unat (hf_threshold (heights hf ! n)) \<le> 100 * votes_from hf n"

definition voted_fork :: "HardFork \<Rightarrow> u64 \<Rightarrow> nat" where
  "voted_fork hf h = (let ns = filter (activates hf h) [0..<length (heights hf)]
                      in if ns = [] then current_fork_index hf else last ns)"

lemma votes_from_step:
  assumes "schedule_ok (heights hf)" "n < length (heights hf)"
  shows "votes_from hf n = count_list (versions hf) (hf_version (heights hf ! n)) + votes_from hf (Suc n)"
proof -
  let ?v = "hf_version (heights hf ! n)" and ?S = "set (map hf_version (drop (Suc n) (heights hf)))"
  have d: "drop n (heights hf) = heights hf ! n # drop (Suc n) (heights hf)"
    using assms(2) by (simp add: Cons_nth_drop_Suc)
  have "distinct (map hf_version (drop n (heights hf)))"
    using schedule_distinct [OF assms(1)] by (metis distinct_drop drop_map)
  then have notin: "?v \<notin> ?S" unfolding d by simp
  have "length (filter (\<lambda>v. v \<in> insert ?v ?S) vs) = count_list vs ?v + length (filter (\<lambda>v. v \<in> ?S) vs)" for vs
    using notin by (induction vs) auto
  then show ?thesis unfolding votes_from_def d by simp
qed

lemma threshold_ceil:
  fixes w :: u64
  assumes "unat w < 2 ^ 32" "t \<le> 100"
  shows "unat (ucast ((w * ucast (t :: u8) + 99) div 100) :: u32) = (unat w * unat t + 99) div 100"
proof -
  have t: "unat t \<le> 100" using assms(2) by (simp add: word_le_nat_alt)
  have "unat w * unat t \<le> 2 ^ 32 * 100" using assms(1) t by (intro mult_le_mono) auto
  then have m: "unat (w * ucast t + 99) = unat w * unat t + 99"
    by (simp add: unat_add_exact unat_mult_exact unat_ucast_up)
  have "unat w * unat t + 99 \<le> unat w * 100 + 99" using t by simp
  then have "(unat w * unat t + 99) div 100 \<le> (unat w * 100 + 99) div 100" by (rule div_le_mono)
  then have "(unat w * unat t + 99) div 100 < 2 ^ 32" using assms(1) by simp
  then show ?thesis by (simp add: unat_ucast unat_div m)
qed

lemma voted_loop_spec:
  assumes inv: "hf_inv hf" and win: "unat (window_size hf) < 2 ^ 32"
    and k: "k \<le> length (heights hf)" and a: "unat a = votes_from hf k"
  shows "voted_loop hf h (rev [0..<k]) a =
    (let ns = filter (activates hf h) [0..<k] in if ns = [] then current_fork_index hf else last ns)"
  using k a
proof (induction k arbitrary: a)
  case (Suc k)
  let ?f = "heights hf ! k"
  let ?a = "a + last_versions hf (hf_version ?f)"
  have sch: "schedule_ok (heights hf)" and lt: "k < length (heights hf)"
    using inv Suc.prems by (auto simp: hf_inv_def)
  have thr: "hf_threshold ?f \<le> 100"
    using sch lt by (simp add: schedule_ok_def list_all_length)
  have short: "length (versions hf) < 2 ^ 32" using inv win by (auto simp: hf_inv_def)
  have le: "votes_from hf n \<le> length (versions hf)" for n by (simp add: votes_from_def)
  have cnt: "unat (last_versions hf (hf_version ?f)) = count_list (versions hf) (hf_version ?f)"
    using inv short count_le_length [of "versions hf" "hf_version ?f"]
    by (simp add: hf_inv_def window_ok_def unat_of_nat)
  have a': "unat ?a = votes_from hf k"
    using votes_from_step [OF sch lt] Suc.prems(2) cnt le [of k] short
    by (simp add: unat_add_exact)
  have "voted_loop hf h (rev [0..<Suc k]) a =
      (if activates hf h k then k else voted_loop hf h (rev [0..<k]) ?a)"
    using a' threshold_ceil [OF win thr]
    by (auto simp: Let_def activates_def word_le_nat_alt [of "ucast _"])
  also have "\<dots> = (let ns = filter (activates hf h) [0..<Suc k]
      in if ns = [] then current_fork_index hf else last ns)"
    using Suc.IH [OF _ a'] Suc.prems(1) by (simp add: Let_def)
  finally show ?case .
qed simp

lemma get_voted_fork_index_spec:
  assumes "hf_inv hf" "unat (window_size hf) < 2 ^ 32"
  shows "get_voted_fork_index hf h = voted_fork hf h"
  unfolding get_voted_fork_index_def voted_fork_def
  by (rule voted_loop_spec [OF assms]) (simp_all add: votes_from_def)

section \<open>The window and the chain\<close>

text \<open>
  The window is synchronised with the chain when it holds the effective votes of the last
  \<open>window_size\<close> blocks, oldest first.
\<close>

definition chain_votes :: "HardFork \<Rightarrow> block_header list \<Rightarrow> u8 list" where
  "chain_votes hf bs = map (\<lambda>b. get_effective_version hf (get_block_vote b)) bs"

definition window_synced :: "HardFork \<Rightarrow> block_header list \<Rightarrow> bool" where
  "window_synced hf bs \<longleftrightarrow> versions hf = chain_votes hf (drop (length bs - unat (window_size hf)) bs)"

lemma get_effective_version_cong:
  "heights hf = heights hf' \<Longrightarrow> get_effective_version hf = get_effective_version hf'"
  by (rule ext) (simp add: get_effective_version_def)

lemma scan_votes_spec:
  assumes "\<forall>h \<in> set hs. h < length (db_blocks db)" "length (db_blocks db) < 2 ^ 64" "window_ok hf"
  shows "\<exists>hf'. scan_votes db hs hf = Some hf' \<and> window_ok hf' \<and> heights hf' = heights hf
    \<and> window_size hf' = window_size hf \<and> current_fork_index hf' = current_fork_index hf
    \<and> versions hf' = versions hf @ map (\<lambda>h. get_effective_version hf (get_block_vote (db_blocks db ! h))) hs"
  using assms
proof (induction hs arbitrary: hf)
  case (Cons h hs)
  let ?hf = "push_vote (get_effective_version hf (get_block_vote (db_blocks db ! h))) hf"
  have b: "get_block_from_height db (of_nat h) = Some (db_blocks db ! h)"
    using Cons.prems(1,2) by (simp add: get_block_from_height_def unat_of_nat)
  have e: "get_effective_version ?hf = get_effective_version hf"
    by (rule get_effective_version_cong) simp
  have "scan_votes db (h # hs) hf = scan_votes db hs ?hf"
    by (simp add: scan_votes_def b)
  moreover have "window_ok ?hf" using Cons.prems(3) by (rule push_vote_window)
  ultimately show ?case
    using Cons.IH [of ?hf] Cons.prems(1,2) by (auto simp: e)
qed (simp add: scan_votes_def)

lemma map_nth_drop:
  "n \<le> length xs \<Longrightarrow> map (\<lambda>h. f (xs ! h)) [n..<length xs] = map f (drop n xs)"
  by (rule nth_equalityI) simp_all

lemma clear_votes_simps [simp]:
  "window_ok (clear_votes hf)" "versions (clear_votes hf) = []" "heights (clear_votes hf) = heights hf"
  "window_size (clear_votes hf) = window_size hf" "current_fork_index (clear_votes hf) = current_fork_index hf"
  "original_version (clear_votes hf) = original_version hf"
  by (simp_all add: clear_votes_def window_ok_def)

lemma find_version_less: "fs \<noteq> [] \<Longrightarrow> find_version fs v < length fs"
  by (induction fs v rule: find_version.induct) auto

lemma take_voted_inv:
  assumes "schedule_ok (heights hf)" "current_fork_index hf < length (heights hf)" "0 < window_size hf"
    and "window_ok hf" "length (versions hf) \<le> unat (window_size hf)"
  shows "hf_inv (take_voted h hf)"
  using assms get_voted_fork_index_less [OF assms(2), of h]
  by (auto simp: hf_inv_def window_ok_def take_voted_index)

lemma rescan_spec:
  assumes sch: "schedule_ok (heights hf)" "heights hf \<noteq> []" and win: "0 < window_size hf"
    and len: "length (db_blocks db) < 2 ^ 64"
    and h: "unat h < length (db_blocks db)" "length (db_blocks db) - unat h \<le> unat (window_size hf)"
    and top: "get_hard_fork_version db (db_height db - 1) = Some lastv"
  shows "\<exists>hf'. rescan_from_block_height h (hf, db) = Some (True, hf') \<and> hf_inv hf'
    \<and> heights hf' = heights hf \<and> window_size hf' = window_size hf
    \<and> versions hf' = chain_votes hf (drop (unat h) (db_blocks db))"
proof -
  let ?n = "length (db_blocks db)"
  have n: "unat (db_height db) = ?n" using len by (simp add: db_height_def unat_of_nat)
  have lt: "\<not> h \<ge> db_height db" using h(1) n by (simp add: word_le_nat_alt)
  obtain hf1 where hf1: "scan_votes db [unat h..<?n] (clear_votes hf) = Some hf1" "window_ok hf1"
      "heights hf1 = heights hf" "window_size hf1 = window_size hf"
      "versions hf1 = map (\<lambda>h. get_effective_version hf (get_block_vote (db_blocks db ! h))) [unat h..<?n]"
    using scan_votes_spec [of "[unat h..<?n]" db "clear_votes hf"] len
      get_effective_version_cong [of "clear_votes hf" hf] by auto
  have vs: "versions hf1 = chain_votes hf (drop (unat h) (db_blocks db))"
    using map_nth_drop [of "unat h" "db_blocks db" "\<lambda>b. get_effective_version hf (get_block_vote b)"] h(1)
    by (simp add: hf1(5) chain_votes_def)
  let ?hf2 = "hf1\<lparr>current_fork_index := find_version (heights hf1) lastv\<rparr>"
  have "hf_inv (take_voted (db_height db) ?hf2)"
    using sch win hf1 find_version_less [OF sch(2), of lastv] h(2)
    by (intro take_voted_inv) (auto simp: window_ok_def)
  then show ?thesis
    using hf1(1,3,4) vs top lt n by (auto simp: rescan_from_block_height_def)
qed

lemma init_spec:
  assumes "schedule_ok (heights hf)" "0 < window_size hf" and len: "length (db_blocks db) < 2 ^ 64"
    and top: "db_blocks db \<noteq> [] \<longrightarrow> get_hard_fork_version db (db_height db - 1) \<noteq> None"
  shows "\<exists>hf'. init (hf, db) = Some hf' \<and> hf_inv hf' \<and> window_synced hf' (db_blocks db)"
proof -
  define hf0 where "hf0 = (if heights hf = [] then hf\<lparr>heights :=
      [\<lparr>hf_version = original_version hf, hf_height = 0, hf_threshold = 0, hf_time = 0\<rparr>]\<rparr> else hf)"
  define hf1 where "hf1 = (clear_votes hf0)\<lparr>current_fork_index := 0\<rparr>"
  define hs where "hs = (if db_height db > window_size hf1 then db_height db - (window_size hf1 - 1) else 1)"
  let ?n = "length (db_blocks db)" and ?w = "unat (window_size hf1)"
  have h1: "schedule_ok (heights hf1)" "heights hf1 \<noteq> []" "0 < window_size hf1" "versions hf1 = []"
    "current_fork_index hf1 = 0" "window_ok hf1"
    using assms(1,2)
    by (auto simp: hf1_def hf0_def schedule_ok_def window_ok_def clear_votes_def)
  have n: "unat (db_height db) = ?n" using len by (simp add: db_height_def unat_of_nat)
  have w: "0 < ?w" using h1(3) by (auto simp: unat_gt_0)
  have hs1: "unat (hs - 1) = ?n - ?w"
  proof (cases "db_height db > window_size hf1")
    case True
    then have "hs - 1 = db_height db - window_size hf1" by (simp add: hs_def)
    with True n show ?thesis by (simp add: unat_sub word_less_nat_alt word_le_nat_alt)
  next
    case False
    with n show ?thesis by (simp add: hs_def word_less_nat_alt)
  qed
  have hs0: "hs \<noteq> 0"
  proof
    assume "hs = 0"
    then have "unat (hs - 1) = 18446744073709551615" by simp
    then show False using hs1 w len by simp
  qed
  have "init (hf, db) = do { (_, hf') \<leftarrow> rescan_from_chain_height hs (hf1, db); Some hf' }"
    by (simp only: init_def prod.case Let_def hf0_def hf1_def hs_def)
  then have run: "init (hf, db) = map_option snd (rescan_from_block_height (hs - 1) (hf1, db))"
    using hs0 by (cases "rescan_from_block_height (hs - 1) (hf1, db)")
      (auto simp: rescan_from_chain_height_def)
  show ?thesis
  proof (cases "db_blocks db = []")
    case True
    then have "rescan_from_block_height (hs - 1) (hf1, db) = Some (False, hf1)"
      by (simp add: rescan_from_block_height_def db_height_def)
    then show ?thesis using run h1 True by (simp add: hf_inv_def window_synced_def chain_votes_def)
  next
    case False
    then obtain lastv where top: "get_hard_fork_version db (db_height db - 1) = Some lastv"
      using assms(4) by blast
    have "unat (hs - 1) < ?n" "?n - unat (hs - 1) \<le> ?w" using False hs1 w by auto
    then obtain hf' where hf': "rescan_from_block_height (hs - 1) (hf1, db) = Some (True, hf')" "hf_inv hf'"
        "heights hf' = heights hf1" "window_size hf' = window_size hf1"
        "versions hf' = chain_votes hf1 (drop (unat (hs - 1)) (db_blocks db))"
      using rescan_spec [OF h1(1-3) len _ _ top] by blast
    then have "window_synced hf' (db_blocks db)"
      using get_effective_version_cong [OF hf'(3)] by (simp add: window_synced_def hs1 chain_votes_def)
    then show ?thesis using run hf' by simp
  qed
qed

lemma add_block_synced:
  assumes inv: "hf_inv hf" and sync: "window_synced hf bs"
    and ok: "add_block b h (hf, db) = Some (True, hf', db')"
  shows "hf_inv hf' \<and> window_synced hf' (bs @ [b])"
proof -
  have chk: "do_check hf (get_block_version b) (get_block_vote b) = Some True"
    using ok inv do_check_inv [OF inv] by (auto simp: add_block_def add_def bind_eq_Some_conv split: if_splits)
  obtain hf'' db'' where a: "add_block b h (hf, db) = Some (True, hf'', db'')" "hf_inv hf''"
      "heights hf'' = heights hf" "window_size hf'' = window_size hf"
      "versions hf'' = slid_window hf (get_effective_version hf (get_block_vote b))"
    using add_accepts [OF inv chk, of h db] unfolding add_block_def by blast
  have [simp]: "hf'' = hf'" using a(1) ok by simp
  let ?w = "unat (window_size hf)"
  have w: "0 < ?w" using inv by (rule window_size_pos)
  have "slid_window hf v = drop (Suc (length bs) - ?w) (chain_votes hf bs @ [v])" for v
    using sync w by (cases "length bs \<le> ?w") (auto simp: slid_window_def window_synced_def chain_votes_def
        drop_map Suc_diff_le min_def)
  then have "versions hf' = chain_votes hf (drop (length (bs @ [b]) - ?w) (bs @ [b]))"
    using a(5) w by (simp add: chain_votes_def drop_map)
  then show ?thesis
    using a(2-4) get_effective_version_cong [OF a(3)] by (simp add: window_synced_def chain_votes_def)
qed

lemma lower_index_spec:
  assumes "i < length fs"
  shows "\<exists>j. lower_index fs v i = Some j \<and> j \<le> i"
  using assms by (induction i) (auto intro: le_SucI)

text \<open>
  A reorganisation rebuilds the window from the blocks up to the given height and replays the
  blocks above it.  The results of the replayed \<open>add\<close> calls are ignored by the code, so the window
  is that of the chain when each of them accepts its block.
\<close>

fun replay_accepts :: "block_header list \<Rightarrow> nat list \<Rightarrow> HardFork \<times> chain_db \<Rightarrow> bool" where
  "replay_accepts bs [] s = True"
| "replay_accepts bs (h # hs) s =
     (case add_block (bs ! h) (of_nat h) s of
        Some (ok, s') \<Rightarrow> ok \<and> replay_accepts bs hs s' | None \<Rightarrow> False)"

lemma add_block_db:
  assumes "hf_inv hf" "add_block b h (hf, db) = Some (ok, hf', db')"
  shows "db_blocks db' = db_blocks db"
  using assms(2) by (auto simp: add_block_def add_def bind_eq_Some_conv set_hard_fork_version_def split: if_splits)

lemma replay_spec:
  assumes "hf_inv hf" "window_synced hf (take m bs)" "m \<le> length bs" "length bs < 2 ^ 64" "db_blocks db = bs"
  shows "\<exists>hf' db'. ofold replay_block [m..<length bs] (hf, db) = Some (hf', db') \<and> hf_inv hf'
    \<and> db_blocks db' = bs
    \<and> (replay_accepts bs [m..<length bs] (hf, db) \<longrightarrow> window_synced hf' bs)"
proof -
  have "\<exists>hf' db'. ofold replay_block [m..<m + k] (hf, db) = Some (hf', db') \<and> hf_inv hf'
      \<and> db_blocks db' = bs
      \<and> (replay_accepts bs [m..<m + k] (hf, db) \<and> window_synced hf (take m bs) \<longrightarrow>
           window_synced hf' (take (m + k) bs))"
    if "m + k \<le> length bs" "hf_inv hf" "db_blocks db = bs" for m k hf db
    using that
  proof (induction k arbitrary: m hf db)
    case (Suc k)
    let ?b = "bs ! m"
    obtain ok hf1 db1 where a: "add_block ?b (of_nat m) (hf, db) = Some (ok, hf1, db1)" "hf_inv hf1"
      using add_total [OF Suc.prems(2)] unfolding add_block_def by blast
    have db1: "db_blocks db1 = bs" using add_block_db [OF Suc.prems(2) a(1)] Suc.prems(3) by simp
    have g: "get_block_from_height db (of_nat m) = Some ?b"
      using Suc.prems(1,3) assms(4) by (simp add: get_block_from_height_def unat_of_nat)
    have t: "take (Suc m) bs = take m bs @ [?b]"
      using Suc.prems(1) by (simp add: take_Suc_conv_app_nth)
    have up: "[m..<m + Suc k] = m # [Suc m..<Suc m + k]" by (simp add: upt_conv_Cons)
    obtain hf' db' where r: "ofold replay_block [Suc m..<Suc m + k] (hf1, db1) = Some (hf', db')"
        "hf_inv hf'" "db_blocks db' = bs"
        "replay_accepts bs [Suc m..<Suc m + k] (hf1, db1) \<and> window_synced hf1 (take (Suc m) bs) \<longrightarrow>
           window_synced hf' (take (Suc m + k) bs)"
      using Suc.IH [of "Suc m" hf1 db1] Suc.prems(1) a(2) db1 by auto
    have "window_synced hf1 (take (Suc m) bs)" if "ok" "window_synced hf (take m bs)"
      using add_block_synced [OF Suc.prems(2) that(2)] a(1) that(1) t by auto
    moreover have "replay_block m (hf, db) = Some (hf1, db1)" using a(1) g by (simp add: replay_block_def)
    ultimately show ?case
      using r a(1) unfolding up by (auto simp del: upt_Suc)
  qed auto
  from this [of m "length bs - m" hf db] show ?thesis using assms by auto
qed

lemma reorganize_spec:
  assumes inv: "hf_inv hf" and len: "length (db_blocks db) < 2 ^ 64" and h: "unat h < length (db_blocks db)"
    and rec: "get_hard_fork_version db h \<noteq> None"
  shows "\<exists>hf1 hf' db'. reorganize_from_block_height h (hf, db) = Some (True, hf', db')
    \<and> hf_inv hf' \<and> db_blocks db' = db_blocks db
    \<and> hf_inv hf1 \<and> window_synced hf1 (take (Suc (unat h)) (db_blocks db))
    \<and> ofold replay_block [Suc (unat h)..<length (db_blocks db)] (hf1, db) = Some (hf', db')
    \<and> (replay_accepts (db_blocks db) [Suc (unat h)..<length (db_blocks db)] (hf1, db) \<longrightarrow>
         window_synced hf' (db_blocks db))"
proof -
  let ?n = "length (db_blocks db)" and ?w = "unat (window_size hf)" and ?m = "Suc (unat h)"
  have n: "unat (db_height db) = ?n" using len by (simp add: db_height_def unat_of_nat)
  have w: "0 < ?w" using inv by (rule window_size_pos)
  then have w1: "unat (window_size hf - 1) = ?w - 1"
    by (intro unat_minus_one) auto
  define rh where "rh = (if h \<ge> window_size hf - 1 then h - (window_size hf - 1) else 0)"
  have rh: "unat rh = ?m - ?w"
  proof (cases "?w - 1 \<le> unat h")
    case True
    then have "rh = h - (window_size hf - 1)" "window_size hf - 1 \<le> h"
      by (simp_all add: rh_def word_le_nat_alt w1)
    then have "unat rh = unat h - (?w - 1)" using w1 by (simp add: unat_sub)
    with w show ?thesis by simp
  next
    case False
    then have "rh = 0" by (simp add: rh_def word_le_nat_alt w1)
    with False show ?thesis by simp
  qed
  obtain sv where sv: "(if h = 0 then Some (original_version hf) else get_hard_fork_version db h) = Some sv"
    using rec by (metis option.exhaust)
  obtain i where i: "lower_index (heights hf) sv (current_fork_index hf) = Some i" "i \<le> current_fork_index hf"
    using lower_index_spec [of "current_fork_index hf" "heights hf" sv] inv by (auto simp: hf_inv_def)
  let ?hf0 = "(clear_votes hf)\<lparr>current_fork_index := i\<rparr>"
  have w0: "window_ok ?hf0" by (simp add: window_ok_def clear_votes_def)
  obtain hf1 where hf1: "scan_votes db [?m - ?w..<?m] ?hf0 = Some hf1" "window_ok hf1"
      "heights hf1 = heights hf" "window_size hf1 = window_size hf" "current_fork_index hf1 = i"
      "versions hf1 = map (\<lambda>h. get_effective_version hf (get_block_vote (db_blocks db ! h))) [?m - ?w..<?m]"
    using scan_votes_spec [OF _ len w0, of "[?m - ?w..<?m]"] get_effective_version_cong [of ?hf0 hf] h
    by (auto simp: clear_votes_def simp del: upt_Suc)
  have vs: "versions hf1 = chain_votes hf (drop (?m - ?w) (take ?m (db_blocks db)))"
    using h unfolding hf1(6) chain_votes_def by (intro nth_equalityI) (auto simp del: upt_Suc)
  let ?hf2 = "take_voted (h + 1) hf1"
  have inv2: "hf_inv ?hf2" using inv hf1 i by (intro take_voted_inv) (auto simp: hf_inv_def)
  have sync2: "window_synced ?hf2 (take ?m (db_blocks db))"
    using vs hf1(3,4) get_effective_version_cong [of ?hf2 hf] h
    by (simp add: window_synced_def chain_votes_def min_absorb2)
  obtain hf' db' where r: "ofold replay_block [?m..<?n] (?hf2, db) = Some (hf', db')" "hf_inv hf'"
      "db_blocks db' = db_blocks db"
      "replay_accepts (db_blocks db) [?m..<?n] (?hf2, db) \<longrightarrow> window_synced hf' (db_blocks db)"
    using replay_spec [OF inv2 sync2 _ len refl] h by auto
  have "\<not> h \<ge> db_height db" using h n by (simp add: word_le_nat_alt)
  then have "reorganize_from_block_height h (hf, db) = Some (True, hf', db')"
    using sv i hf1(1) n rh r(1) unfolding rh_def
    by (simp add: reorganize_from_block_height_def Let_def split del: if_split cong: if_cong)
  then show ?thesis using r inv2 sync2 by blast
qed

section \<open>Popping blocks\<close>

lemma dec_last_window:
  "window_ok hf \<Longrightarrow> versions hf \<noteq> [] \<Longrightarrow>
     window_ok ((dec_version (last (versions hf)) hf)\<lparr>versions := butlast (versions hf)\<rparr>)"
  by (cases "versions hf" rule: rev_cases) (auto simp: window_ok_def dec_version_def)

lemma inc_front_window:
  "window_ok hf \<Longrightarrow> window_ok ((inc_version v hf)\<lparr>versions := v # versions hf\<rparr>)"
  by (auto simp: window_ok_def inc_version_def)

lemma pop_loop_returns:
  assumes "0 < new" "unat h + 1 = unat new + k" "window_ok hf" "versions hf \<noteq> []"
    and "\<forall>i. unat new \<le> unat i \<and> unat i \<le> unat h \<longrightarrow> get_hard_fork_version db i \<noteq> None"
  shows "\<exists>hf'. pop_loop db new h hf = Some hf' \<and> window_ok hf' \<and> heights hf' = heights hf
    \<and> window_size hf' = window_size hf \<and> length (versions hf') = length (versions hf)"
  using assms(2-5)
proof (induction k arbitrary: h hf)
  case 0
  then have "\<not> h \<ge> new" by (simp add: word_le_nat_alt)
  then show ?case using "0.prems" by (simp add: pop_loop.simps)
next
  case (Suc k)
  have ge: "h \<ge> new" using Suc.prems(1) by (simp add: word_le_nat_alt)
  have h0: "h \<noteq> 0" using ge assms(1) by auto
  have "unat new \<le> unat h \<and> unat h \<le> unat h" using ge by (simp add: word_le_nat_alt)
  then obtain v where v: "get_hard_fork_version db h = Some v"
    using Suc.prems(4) by blast
  let ?hf1 = "(dec_version (last (versions hf)) hf)\<lparr>versions := butlast (versions hf)\<rparr>"
  let ?hf2 = "(inc_version v ?hf1)\<lparr>versions := v # versions ?hf1\<rparr>"
  have w: "window_ok ?hf2"
    using inc_front_window [OF dec_last_window [OF Suc.prems(2,3)], of v] by simp
  have step: "pop_loop db new h hf = pop_loop db new (h - 1) ?hf2"
    using ge v Suc.prems(3) by (subst pop_loop.simps) (simp add: Let_def)
  have u: "unat (h - 1) + 1 = unat h" using h0 by (simp add: unat_minus_one unat_gt_0 Suc_leI)
  have "\<exists>hf'. pop_loop db new (h - 1) ?hf2 = Some hf' \<and> window_ok hf' \<and> heights hf' = heights ?hf2
    \<and> window_size hf' = window_size ?hf2 \<and> length (versions hf') = length (versions ?hf2)"
    by (rule Suc.IH) (use Suc.prems(1,4) u w in auto)
  then show ?case using step Suc.prems(3) by simp
qed

lemma index_for_height_le: "index_for_height fs h n \<le> n"
  by (induction n) auto

lemma index_for_height_spec:
  "index_for_height fs h n = (let ns = filter (\<lambda>i. hf_height (fs ! i) \<le> h) [1..<Suc n]
                              in if ns = [] then 0 else last ns)"
  by (induction n) (auto simp: Let_def)

lemma on_block_popped_returns:
  assumes inv: "hf_inv hf" and ne: "versions hf \<noteq> []" "db_blocks db \<noteq> []" and k: "0 < k"
    and len: "length (db_blocks db) + unat k < 2 ^ 64"
    and rec: "\<forall>i. length (db_blocks db) \<le> unat i \<and> unat i < length (db_blocks db) + unat k \<longrightarrow>
                get_hard_fork_version db i \<noteq> None"
  shows "\<exists>hf'. on_block_popped k (hf, db) = Some hf' \<and> hf_inv hf'
    \<and> length (versions hf') = length (versions hf)
    \<and> current_fork_index hf' =
        index_for_height (heights hf) (db_height db) (length (heights hf) - 1)"
proof -
  have n: "unat (db_height db) = length (db_blocks db)" using len by (simp add: db_height_def unat_of_nat)
  have pos: "0 < db_height db" using n ne(2) by (simp add: word_less_nat_alt)
  have k0: "k \<noteq> 0" "0 < unat k" using k by (auto simp: unat_gt_0)
  have top: "unat (db_height db + k - 1) + 1 = unat (db_height db) + unat k"
    using len n k0 by (subst unat_add_sub_1) auto
  have rec': "\<forall>i. unat (db_height db) \<le> unat i \<and> unat i \<le> unat (db_height db + k - 1) \<longrightarrow>
      get_hard_fork_version db i \<noteq> None"
    using rec n top by (metis Suc_eq_plus1 less_Suc_eq_le)
  obtain hf1 where hf1: "pop_loop db (db_height db) (db_height db + k - 1) hf = Some hf1" "window_ok hf1"
      "heights hf1 = heights hf" "window_size hf1 = window_size hf" "length (versions hf1) = length (versions hf)"
    using pop_loop_returns [OF pos top _ ne(1) rec'] inv unfolding hf_inv_def by blast
  have h: "heights hf \<noteq> []" using inv by (auto simp: hf_inv_def)
  then have "index_for_height (heights hf) (db_height db) (length (heights hf) - 1) < length (heights hf)"
    by (metis index_for_height_le One_nat_def Suc_pred le_imp_less_Suc length_greater_0_conv)
  then show ?thesis
    using hf1 h k inv by (simp add: on_block_popped_def Let_def hf_inv_def window_ok_def)
qed

section \<open>The schedule without voting\<close>

lemma last_filter_reached:
  "ideal_loop fs orig h n =
     (let ns = filter (\<lambda>i. hf_height (fs ! i) \<le> h) [1..<Suc n] in if ns = [] then orig else hf_version (fs ! last ns))"
  by (induction n) (auto simp: Let_def)

text \<open>With thresholds of 0 the loop takes the last fork reached, whatever the votes and the window are.\<close>

lemma voted_loop_zero:
  assumes zero: "\<forall>f \<in> set (heights hf). hf_threshold f = 0" and k: "k \<le> length (heights hf)"
  shows "voted_loop hf h (rev [0..<k]) a =
    (let ns = filter (\<lambda>i. hf_height (heights hf ! i) \<le> h) [0..<k] in if ns = [] then current_fork_index hf else last ns)"
  using k
proof (induction k arbitrary: a)
  case (Suc k)
  have "hf_threshold (heights hf ! k) = 0" using zero Suc.prems by simp
  then have "voted_loop hf h (rev [0..<Suc k]) a = (if hf_height (heights hf ! k) \<le> h then k
      else voted_loop hf h (rev [0..<k]) (a + last_versions hf (hf_version (heights hf ! k))))"
    by (simp add: Let_def)
  then show ?case using Suc by (simp add: Let_def)
qed simp

lemma ideal_is_voted:
  assumes ne: "heights hf \<noteq> []" and zero: "\<forall>f \<in> set (heights hf). hf_threshold f = 0"
    and first: "hf_height (hd (heights hf)) \<le> h" "original_version hf = hf_version (hd (heights hf))"
  shows "get_ideal_version_at hf h = Some (hf_version (heights hf ! get_voted_fork_index hf h))"
proof -
  let ?R = "\<lambda>i. hf_height (heights hf ! i) \<le> h" and ?n = "length (heights hf)"
  have n: "[0..<?n] = 0 # [1..<Suc (?n - 1)]" using ne by (simp add: upt_rec)
  have r0: "?R 0" using first(1) ne by (simp add: hd_conv_nth)
  have "get_voted_fork_index hf h = last (filter ?R [0..<?n])"
    using r0 n unfolding get_voted_fork_index_def voted_loop_zero [OF zero order_refl] by (simp add: Let_def)
  also have "\<dots> = (let ns = filter ?R [1..<Suc (?n - 1)] in if ns = [] then 0 else last ns)"
    using r0 unfolding n by (simp add: Let_def)
  finally show ?thesis
    using ne first(2) by (auto simp: get_ideal_version_at_def last_filter_reached Let_def hd_conv_nth)
qed

lemma ideal_before_first:
  assumes ne: "heights hf \<noteq> []" and zero: "\<forall>f \<in> set (heights hf). hf_threshold f = 0"
    and before: "\<forall>f \<in> set (heights hf). h < hf_height f"
  shows "get_ideal_version_at hf h = Some (original_version hf)" "get_voted_fork_index hf h = current_fork_index hf"
proof -
  have e: "filter (\<lambda>i. hf_height (heights hf ! i) \<le> h) [k..<length (heights hf)] = []" for k
  proof (unfold filter_empty_conv, intro ballI)
    fix x assume "x \<in> set [k..<length (heights hf)]"
    then have "heights hf ! x \<in> set (heights hf)" by simp
    then show "\<not> hf_height (heights hf ! x) \<le> h" using before by (auto simp: not_le)
  qed
  have "Suc (length (heights hf) - 1) = length (heights hf)" using ne by simp
  then show "get_ideal_version_at hf h = Some (original_version hf)"
    using ne e [of 1] unfolding get_ideal_version_at_def last_filter_reached by (simp only: Let_def if_False simp_thms) simp
  show "get_voted_fork_index hf h = current_fork_index hf"
    using e [of 0] unfolding get_voted_fork_index_def voted_loop_zero [OF zero order_refl] by (simp add: Let_def)
qed

section \<open>The networks' schedules\<close>

definition hardfork :: "u8 \<Rightarrow> u64 \<Rightarrow> u8 \<Rightarrow> int \<Rightarrow> hardfork_t" where
  "hardfork v h thr t = \<lparr>hf_version = v, hf_height = h, hf_threshold = thr, hf_time = t\<rparr>"

definition mainnet_hard_forks :: "hardfork_t list" where
  "mainnet_hard_forks =
     [hardfork 1 1 0 1341378000,
      hardfork 2 1009827 0 1442763710,
      hardfork 3 1141317 0 1458558528,
      hardfork 4 1220516 0 1483574400,
      hardfork 5 1288616 0 1489520158,
      hardfork 6 1400000 0 1503046577,
      hardfork 7 1546000 0 1521303150,
      hardfork 8 1685555 0 1535889547,
      hardfork 9 1686275 0 1535889548,
      hardfork 10 1788000 0 1549792439,
      hardfork 11 1788720 0 1550225678,
      hardfork 12 1978433 0 1571419280,
      hardfork 13 2210000 0 1598180817,
      hardfork 14 2210720 0 1598180818,
      hardfork 15 2688888 0 1656629117,
      hardfork 16 2689608 0 1656629118]"

definition testnet_hard_forks :: "hardfork_t list" where
  "testnet_hard_forks =
     [hardfork 1 1 0 1341378000,
      hardfork 2 624634 0 1445355000,
      hardfork 3 800500 0 1472415034,
      hardfork 4 801219 0 1472415035,
      hardfork 5 802660 0 (1472415036 + 86400*180),
      hardfork 6 971400 0 1501709789,
      hardfork 7 1057027 0 1512211236,
      hardfork 8 1057058 0 1533211200,
      hardfork 9 1057778 0 1533297600,
      hardfork 10 1154318 0 1550153694,
      hardfork 11 1155038 0 1550225678,
      hardfork 12 1308737 0 1569582000,
      hardfork 13 1543939 0 1599069376,
      hardfork 14 1544659 0 1599069377,
      hardfork 15 1982800 0 1652727000,
      hardfork 16 1983520 0 1652813400]"

definition stagenet_hard_forks :: "hardfork_t list" where
  "stagenet_hard_forks =
     [hardfork 1 1 0 1341378000,
      hardfork 2 32000 0 1521000000,
      hardfork 3 33000 0 1521120000,
      hardfork 4 34000 0 1521240000,
      hardfork 5 35000 0 1521360000,
      hardfork 6 36000 0 1521480000,
      hardfork 7 37000 0 1521600000,
      hardfork 8 176456 0 1537821770,
      hardfork 9 177176 0 1537821771,
      hardfork 10 269000 0 1550153694,
      hardfork 11 269720 0 1550225678,
      hardfork 12 454721 0 1571419280,
      hardfork 13 675405 0 1598180817,
      hardfork 14 676125 0 1598180818,
      hardfork 15 1151000 0 1656629117,
      hardfork 16 1151720 0 1656629118]"

text \<open>\<open>Blockchain::init\<close> adds a network's table to the fresh object, ignoring the results.\<close>

definition load_hard_forks :: "hardfork_t list \<Rightarrow> HardFork \<Rightarrow> HardFork" where
  "load_hard_forks table hf =
     fold (\<lambda>f hf. snd (add_fork (hf_version f) (hf_height f) (hf_threshold f) (hf_time f) hf)) table hf"

lemma add_fork_schedule:
  assumes "schedule_ok (heights hf @ [f])" "hf_version f \<noteq> 0"
  shows "add_fork (hf_version f) (hf_height f) (hf_threshold f) (hf_time f) hf =
    (True, hf\<lparr>heights := heights hf @ [f]\<rparr>)"
  using assms by (auto simp: schedule_ok_snoc add_fork_def fork_before_def not_le)

lemma add_fork_keeps_schedule:
  "schedule_ok (heights hf) \<Longrightarrow> add_fork v h thr t hf = (ok, hf') \<Longrightarrow> schedule_ok (heights hf')"
  by (cases "heights hf = []") (auto simp: schedule_ok_snoc [of "[]", simplified] add_fork_def schedule_ok_snoc fork_before_def split: if_splits)

lemma load_hard_forks_schedule:
  assumes "schedule_ok (heights hf @ table)" "\<forall>f \<in> set table. hf_version f \<noteq> 0"
  shows "load_hard_forks table hf = hf\<lparr>heights := heights hf @ table\<rparr>"
  using assms
proof (induction table arbitrary: hf)
  case (Cons f table)
  have "schedule_ok (heights hf @ [f])"
    using Cons.prems(1) by (auto simp: schedule_ok_def sorted_wrt_append)
  then have "load_hard_forks (f # table) hf = load_hard_forks table (hf\<lparr>heights := heights hf @ [f]\<rparr>)"
    using Cons.prems(2) by (simp add: load_hard_forks_def add_fork_schedule)
  then show ?case using Cons by simp
qed (simp add: load_hard_forks_def)

lemma networks_schedule_ok:
  "schedule_ok mainnet_hard_forks" "schedule_ok testnet_hard_forks" "schedule_ok stagenet_hard_forks"
  by (simp_all add: schedule_ok_def fork_before_def hardfork_def mainnet_hard_forks_def
      testnet_hard_forks_def stagenet_hard_forks_def)

section \<open>The object in the node\<close>

text \<open>
  The transitions the chain code drives: a block that passes \<open>check\<close> is stored and added, the top
  block is popped (never the genesis block), the window is rebuilt after a reorganisation.
  \<open>chain_inv\<close> holds in every state they reach, and in every such state each of them returns.
\<close>

definition store_block :: "block_header \<Rightarrow> chain_db \<Rightarrow> chain_db" where
  "store_block b db = db\<lparr>db_blocks := db_blocks db @ [b]\<rparr>"

definition remove_top :: "chain_db \<Rightarrow> chain_db" where
  "remove_top db = db\<lparr>db_blocks := butlast (db_blocks db)\<rparr>"

inductive hf_step :: "HardFork \<times> chain_db \<Rightarrow> HardFork \<times> chain_db \<Rightarrow> bool" where
  connect: "check hf b = Some True \<Longrightarrow> Suc (length (db_blocks db)) < 2 ^ 64 \<Longrightarrow>
    add_block b (db_height db) (hf, store_block b db) = Some (ok, s') \<Longrightarrow> hf_step (hf, db) s'"
| pop: "1 < length (db_blocks db) \<Longrightarrow> on_block_popped 1 (hf, remove_top db) = Some hf' \<Longrightarrow>
    hf_step (hf, db) (hf', remove_top db)"
| reorganize: "reorganize_from_chain_height h (hf, db) = Some (ok, s') \<Longrightarrow> hf_step (hf, db) s'"

inductive_cases hf_stepE: "hf_step s s'"

definition chain_inv :: "HardFork \<times> chain_db \<Rightarrow> bool" where
  "chain_inv = (\<lambda>(hf, db). hf_inv hf \<and> versions hf \<noteq> [] \<and> db_blocks db \<noteq> [] \<and> length (db_blocks db) < 2 ^ 64
     \<and> (\<forall>h. unat h < length (db_blocks db) \<longrightarrow> get_hard_fork_version db h \<noteq> None))"

lemma add_block_chain_inv:
  assumes "hf_inv hf" "versions hf \<noteq> []" "add_block b h (hf, db) = Some (ok, hf', db')"
  shows "hf_inv hf' \<and> versions hf' \<noteq> [] \<and> (\<forall>i. get_hard_fork_version db i \<noteq> None \<longrightarrow> get_hard_fork_version db' i \<noteq> None)
    \<and> (ok \<longrightarrow> get_hard_fork_version db' h \<noteq> None)"
proof (cases "do_check hf (get_block_version b) (get_block_vote b) = Some True")
  case True
  note a = add_accepts [OF assms(1) True, of h db]
  have "slid_window hf v \<noteq> []" for v
    using window_size_pos [OF assms(1)] by (auto simp: slid_window_def)
  with a assms(3) show ?thesis by (auto simp: add_block_def lmdb.get_put)
next
  case False
  then have "do_check hf (get_block_version b) (get_block_vote b) = Some False"
    using do_check_inv [OF assms(1)] by auto
  with assms show ?thesis by (auto simp: add_block_def add_rejects)
qed

lemma replay_block_chain_inv:
  assumes "chain_inv s" "replay_block h s = Some s'"
  shows "chain_inv s'"
proof -
  obtain hf db where s: "s = (hf, db)" by (cases s)
  obtain hf' db' where s': "s' = (hf', db')" by (cases s')
  have hf: "hf_inv hf" "versions hf \<noteq> []" using assms(1) s by (auto simp: chain_inv_def)
  obtain b ok where a: "add_block b (of_nat h) (hf, db) = Some (ok, hf', db')"
    using assms(2) by (auto simp: replay_block_def s s' bind_eq_Some_conv)
  from assms(1) s s' add_block_chain_inv [OF hf a] add_block_db [OF hf(1) a] show ?thesis
    by (auto simp: chain_inv_def)
qed

lemma connect_inv:
  assumes inv: "chain_inv (hf, db)" and len: "Suc (length (db_blocks db)) < 2 ^ 64"
    and chk: "check hf b = Some True"
  shows "\<exists>s'. add_block b (db_height db) (hf, store_block b db) = Some (True, s') \<and> chain_inv s'
    \<and> db_blocks (snd s') = db_blocks db @ [b]"
proof -
  have hf: "hf_inv hf" "versions hf \<noteq> []" using inv by (auto simp: chain_inv_def)
  obtain hf' db' where a: "add_block b (db_height db) (hf, store_block b db) = Some (True, hf', db')"
    using add_accepts [OF hf(1), of "get_block_version b" "get_block_vote b"] chk
    by (fastforce simp: check_def add_block_def)
  note i = add_block_chain_inv [OF hf a] and d = add_block_db [OF hf(1) a]
  have old: "get_hard_fork_version (store_block b db) h = get_hard_fork_version db h" for h
    by (simp add: get_hard_fork_version_def store_block_def)
  have "get_hard_fork_version db' h \<noteq> None" if "unat h < Suc (length (db_blocks db))" for h
  proof (cases "unat h = length (db_blocks db)")
    case True
    then have "h = db_height db" using len by (simp add: db_height_def word_unat_eq_iff unat_of_nat)
    then show ?thesis using i by simp
  next
    case False
    with that inv have "get_hard_fork_version db h \<noteq> None" by (simp add: chain_inv_def)
    then show ?thesis using i old by metis
  qed
  with i d a len show ?thesis by (auto simp: chain_inv_def store_block_def)
qed

lemma pop_inv:
  assumes inv: "chain_inv (hf, db)" and n: "1 < length (db_blocks db)"
  shows "\<exists>hf'. on_block_popped 1 (hf, remove_top db) = Some hf' \<and> chain_inv (hf', remove_top db)"
proof -
  have b: "db_blocks (remove_top db) = butlast (db_blocks db)" by (simp add: remove_top_def)
  have r: "get_hard_fork_version (remove_top db) = get_hard_fork_version db"
    by (rule ext) (simp add: get_hard_fork_version_def remove_top_def)
  have "butlast (db_blocks db) \<noteq> []" using n by (cases "db_blocks db") auto
  moreover have "\<exists>hf'. on_block_popped 1 (hf, remove_top db) = Some hf' \<and> hf_inv hf' \<and> versions hf' \<noteq> []"
    using on_block_popped_returns [of hf "remove_top db" 1] inv n b r calculation
    by (fastforce simp: chain_inv_def)
  ultimately show ?thesis using inv b r by (auto simp: chain_inv_def)
qed

lemma reorganize_inv:
  assumes inv: "chain_inv (hf, db)"
  shows "\<exists>ok s'. reorganize_from_chain_height h (hf, db) = Some (ok, s') \<and> chain_inv s'"
proof (cases "h = 0 \<or> h - 1 \<ge> db_height db")
  case True
  then show ?thesis using inv by (auto simp: reorganize_from_chain_height_def reorganize_from_block_height_def)
next
  case False
  have len: "length (db_blocks db) < 2 ^ 64" using inv by (simp add: chain_inv_def)
  have lt: "unat (h - 1) < length (db_blocks db)"
    using False len by (simp add: word_le_nat_alt db_height_def unat_of_nat)
  have pre: "hf_inv hf" "get_hard_fork_version db (h - 1) \<noteq> None" using inv lt by (auto simp: chain_inv_def)
  obtain hf1 hf' db' where r: "reorganize_from_block_height (h - 1) (hf, db) = Some (True, hf', db')"
      "hf_inv hf1" "window_synced hf1 (take (Suc (unat (h - 1))) (db_blocks db))"
      "ofold replay_block [Suc (unat (h - 1))..<length (db_blocks db)] (hf1, db) = Some (hf', db')"
    using reorganize_spec [OF pre(1) len lt pre(2)] by blast
  have "versions hf1 \<noteq> []"
    using r(3) lt window_size_pos [OF r(2)] by (auto simp: window_synced_def chain_votes_def min_def)
  then have "chain_inv (hf1, db)" using inv r(2) by (simp add: chain_inv_def)
  with r(4) have "chain_inv (hf', db')" by (rule ofold_invariant) (rule replay_block_chain_inv)
  with r(1) False show ?thesis by (auto simp: reorganize_from_chain_height_def)
qed

lemma hf_step_inv: "hf_step s s' \<Longrightarrow> chain_inv s \<Longrightarrow> chain_inv s'"
proof (induction rule: hf_step.induct)
  case (connect hf b db ok s')
  then show ?case using connect_inv by fastforce
next
  case (pop db hf hf')
  then show ?case using pop_inv by fastforce
next
  case (reorganize h hf db ok s')
  then show ?case using reorganize_inv [of hf db h] by auto
qed

lemma hf_reachable_inv: "hf_step\<^sup>*\<^sup>* s s' \<Longrightarrow> chain_inv s \<Longrightarrow> chain_inv s'"
  by (induction rule: rtranclp_induct) (auto intro: hf_step_inv)

lemma init_returns:
  assumes "schedule_ok (heights hf0)" "0 < window_size hf0" "db_blocks db \<noteq> []" "length (db_blocks db) < 2 ^ 64"
    and rec: "\<forall>h. unat h < length (db_blocks db) \<longrightarrow> get_hard_fork_version db h \<noteq> None"
  shows "\<exists>hf. init (hf0, db) = Some hf \<and> hf_inv hf \<and> window_synced hf (db_blocks db)"
proof -
  have n: "unat (db_height db) = length (db_blocks db)" using assms(4) by (simp add: db_height_def unat_of_nat)
  then have "unat (db_height db - 1) < length (db_blocks db)"
    using assms(3) by (subst unat_minus_one) (auto simp: word_unat_eq_iff)
  then show ?thesis using init_spec [OF assms(1,2,4)] rec by blast
qed

lemma init_chain_inv:
  assumes "schedule_ok (heights hf0)" "0 < window_size hf0" "db_blocks db \<noteq> []" "length (db_blocks db) < 2 ^ 64"
    and rec: "\<forall>h. unat h < length (db_blocks db) \<longrightarrow> get_hard_fork_version db h \<noteq> None"
    and run: "init (hf0, db) = Some hf"
  shows "chain_inv (hf, db) \<and> window_synced hf (db_blocks db)"
proof -
  have hf: "hf_inv hf" "window_synced hf (db_blocks db)"
    using init_returns [OF assms(1-5)] run by auto
  then have "versions hf \<noteq> []"
    using assms(3) window_size_pos [OF hf(1)] length_greater_0_conv [of "db_blocks db"]
    by (auto simp: window_synced_def chain_votes_def simp del: length_greater_0_conv)
  then show ?thesis using hf assms by (auto simp: chain_inv_def)
qed

text \<open>Connecting a sequence of blocks, each one checked, stored and added.\<close>

fun connect_all :: "block_header list \<Rightarrow> HardFork \<times> chain_db \<Rightarrow> (HardFork \<times> chain_db) option" where
  "connect_all [] s = Some s"
| "connect_all (b # bs) (hf, db) = do {
     ok \<leftarrow> check hf b;
     if \<not> ok then None
     else do { (_, s) \<leftarrow> add_block b (db_height db) (hf, store_block b db); connect_all bs s } }"

lemma connect_all_synced:
  assumes "connect_all bs (hf, db) = Some (hf', db')" "chain_inv (hf, db)" "window_synced hf (db_blocks db)"
    and "length (db_blocks db) + length bs < 2 ^ 64"
  shows "chain_inv (hf', db') \<and> db_blocks db' = db_blocks db @ bs \<and> window_synced hf' (db_blocks db')"
  using assms
proof (induction bs arbitrary: hf db)
  case (Cons b bs)
  have chk: "check hf b = Some True"
    using Cons.prems(1) by (auto simp: bind_eq_Some_conv split: if_splits)
  obtain hf1 db1 where a: "add_block b (db_height db) (hf, store_block b db) = Some (True, hf1, db1)"
      "chain_inv (hf1, db1)" "db_blocks db1 = db_blocks db @ [b]"
    using connect_inv [OF Cons.prems(2) _ chk] Cons.prems(4) by auto
  have "hf_inv hf" using Cons.prems(2) by (simp add: chain_inv_def)
  then have "window_synced hf1 (db_blocks db1)"
    using add_block_synced [OF _ Cons.prems(3) a(1)] a(3) by simp
  moreover have "connect_all bs (hf1, db1) = Some (hf', db')" using Cons.prems(1) a(1) chk by simp
  ultimately show ?case using Cons.IH [of hf1 db1] Cons.prems(4) a by auto
qed simp

text \<open>One popped block.\<close>

lemma pop_one:
  assumes inv: "chain_inv (hf, db)" and n: "1 < length (db_blocks db)"
  shows "\<exists>hf' v. on_block_popped 1 (hf, remove_top db) = Some hf' \<and> get_hard_fork_version db (db_height (remove_top db)) = Some v
    \<and> versions hf' = v # butlast (versions hf) \<and> window_ok hf' \<and> heights hf' = heights hf \<and> window_size hf' = window_size hf
    \<and> current_fork_index hf' = index_for_height (heights hf) (db_height (remove_top db)) (length (heights hf) - 1)"
proof -
  let ?db = "remove_top db" and ?h = "db_height (remove_top db)"
  have g: "get_hard_fork_version ?db = get_hard_fork_version db"
    by (rule ext) (simp add: get_hard_fork_version_def remove_top_def)
  have len: "length (db_blocks db) < 2 ^ 64" using inv by (simp add: chain_inv_def)
  have u: "unat ?h = length (db_blocks db) - 1" using len by (simp add: db_height_def remove_top_def unat_of_nat)
  then have pos: "0 < ?h" "?h \<noteq> 0" using n by (auto simp: word_less_nat_alt)
  obtain v where v: "get_hard_fork_version db ?h = Some v" using inv u n by (fastforce simp: chain_inv_def)
  have hf: "window_ok hf" "versions hf \<noteq> []" "heights hf \<noteq> []" using inv by (auto simp: chain_inv_def hf_inv_def)
  let ?hf1 = "(dec_version (last (versions hf)) hf)\<lparr>versions := butlast (versions hf)\<rparr>"
  let ?hf2 = "(inc_version v ?hf1)\<lparr>versions := v # versions ?hf1\<rparr>"
  have w: "window_ok ?hf2" using inc_front_window [OF dec_last_window [OF hf(1,2)], of v] by simp
  have lt: "\<not> ?h - 1 \<ge> ?h" using pos u n by (simp add: word_le_nat_alt unat_minus_one)
  have "pop_loop ?db ?h ?h hf = pop_loop ?db ?h (?h - 1) ?hf2"
    using v hf(2) g by (subst pop_loop.simps) (simp add: Let_def)
  also have "\<dots> = Some ?hf2" using lt by (subst pop_loop.simps) simp
  finally have p: "pop_loop ?db ?h ?h hf = Some ?hf2" .
  then have "on_block_popped 1 (hf, ?db) = Some (?hf2\<lparr>current_fork_index := index_for_height (heights hf) ?h (length (heights hf) - 1)\<rparr>)"
    using hf(3) by (simp add: on_block_popped_def Let_def)
  then show ?thesis using v w by (simp add: window_ok_def)
qed

lemma pop_synced_iff:
  assumes "window_synced hf bs" and hf': "versions hf' = v # butlast (versions hf)" "heights hf' = heights hf" "window_size hf' = window_size hf"
    and w: "0 < unat (window_size hf)" and n: "1 < length bs"
  shows "window_synced hf' (butlast bs) \<longleftrightarrow> unat (window_size hf) < length bs
    \<and> v = get_effective_version hf (get_block_vote (bs ! (length bs - 1 - unat (window_size hf))))"
proof -
  let ?w = "unat (window_size hf)" and ?L = "length bs" and ?f = "\<lambda>b. get_effective_version hf (get_block_vote b)"
  have c: "chain_votes hf' = map ?f"
    using get_effective_version_cong [OF hf'(2)] by (intro ext) (simp add: chain_votes_def)
  have vs: "versions hf = map ?f (drop (?L - ?w) bs)" using assms(1) by (simp add: window_synced_def chain_votes_def)
  have s: "window_synced hf' (butlast bs) \<longleftrightarrow> v # map ?f (butlast (drop (?L - ?w) bs)) = map ?f (drop (?L - 1 - ?w) (butlast bs))"
    unfolding window_synced_def c hf' vs by (simp add: map_butlast)
  show ?thesis
  proof (cases "?w < ?L")
    case True
    then have "drop (?L - 1 - ?w) bs = bs ! (?L - 1 - ?w) # drop (?L - ?w) bs"
      by (subst Cons_nth_drop_Suc [symmetric]) (simp_all add: Suc_diff_Suc)
    moreover have "drop (?L - ?w) bs \<noteq> []" using True w by simp
    ultimately have "drop (?L - 1 - ?w) (butlast bs) = bs ! (?L - 1 - ?w) # butlast (drop (?L - ?w) bs)"
      by (simp add: drop_butlast)
    then show ?thesis unfolding s using True by simp
  next
    case False
    then have "length (v # map ?f (butlast (drop (?L - ?w) bs))) \<noteq> length (map ?f (drop (?L - 1 - ?w) (butlast bs)))" using n by simp
    then show ?thesis unfolding s using False by metis
  qed
qed

section \<open>Properties\<close>

definition sample_block :: block_header where
  "sample_block = \<lparr>major_version = 1, minor_version = 1, timestamp = 1341378000, prev_id = [], nonce = 70\<rparr>"

definition sample_db :: chain_db where
  "sample_db = \<lparr>db_blocks = [sample_block], db_hf_versions = (\<lambda>_. None)(0 := Some 1)\<rparr>"

definition sample_hf :: HardFork where
  "sample_hf = \<lparr>forked_time = 31557600, update_time = 15778800, window_size = 2,
     default_threshold_percent = 80, original_version = 1, original_version_till_height = 0,
     heights = [hardfork 1 0 0 0, hardfork 2 10 80 1], versions = [], last_versions = (\<lambda>_. 0),
     current_fork_index = 0\<rparr>"

lemma sample_ok:
  "schedule_ok (heights sample_hf)" "0 < window_size sample_hf" "db_blocks sample_db \<noteq> []"
  "length (db_blocks sample_db) < 2 ^ 64"
  "\<forall>h. unat h < length (db_blocks sample_db) \<longrightarrow> get_hard_fork_version sample_db h \<noteq> None"
  by (auto simp: schedule_ok_def fork_before_def hardfork_def sample_hf_def sample_db_def
      get_hard_fork_version_def unat_eq_0)

text \<open>C1: The hard-fork object never gets stuck.  Initialised on a chain that has a version recorded for
  each of its blocks, and then driven through any interleaving of connected blocks, popped blocks
  and reorganisations, it keeps its invariant (ordered schedule, current index in range, counters
  equal to the votes in the window, window no longer than its size, a version recorded for each
  block), and in every state reached each of the three operations returns.\<close>

theorem hard_fork_never_stuck:
  assumes "schedule_ok (heights hf0)" "0 < window_size hf0" "db_blocks db0 \<noteq> []" "length (db_blocks db0) < 2 ^ 64"
    and "\<forall>h. unat h < length (db_blocks db0) \<longrightarrow> get_hard_fork_version db0 h \<noteq> None"
  shows "\<exists>hf1. init (hf0, db0) = Some hf1 \<and> (\<forall>hf db. hf_step\<^sup>*\<^sup>* (hf1, db0) (hf, db) \<longrightarrow>
    chain_inv (hf, db)
    \<and> (\<forall>b. check hf b = Some True \<and> Suc (length (db_blocks db)) < 2 ^ 64 \<longrightarrow>
         (\<exists>s. add_block b (db_height db) (hf, store_block b db) = Some (True, s)))
    \<and> (1 < length (db_blocks db) \<longrightarrow> (\<exists>hf'. on_block_popped 1 (hf, remove_top db) = Some hf'))
    \<and> (\<forall>h. \<exists>ok s. reorganize_from_chain_height h (hf, db) = Some (ok, s)))"
proof -
  obtain hf1 where hf1: "init (hf0, db0) = Some hf1" using init_returns [OF assms] by blast
  have "chain_inv (hf, db)" if "hf_step\<^sup>*\<^sup>* (hf1, db0) (hf, db)" for hf db
    using hf_reachable_inv [OF that] init_chain_inv [OF assms hf1] by blast
  then show ?thesis using hf1 connect_inv pop_inv reorganize_inv by blast
qed

theorem hard_fork_never_stuck_witness:
  "\<exists>hf1. init (sample_hf, sample_db) = Some hf1 \<and> (\<forall>hf db. hf_step\<^sup>*\<^sup>* (hf1, sample_db) (hf, db) \<longrightarrow>
    chain_inv (hf, db)
    \<and> (\<forall>b. check hf b = Some True \<and> Suc (length (db_blocks db)) < 2 ^ 64 \<longrightarrow>
         (\<exists>s. add_block b (db_height db) (hf, store_block b db) = Some (True, s)))
    \<and> (1 < length (db_blocks db) \<longrightarrow> (\<exists>hf'. on_block_popped 1 (hf, remove_top db) = Some hf'))
    \<and> (\<forall>h. \<exists>ok s. reorganize_from_chain_height h (hf, db) = Some (ok, s)))"
  by (rule hard_fork_never_stuck [OF sample_ok])

text \<open>C4: The vote.  For every window of fewer than \<open>2^32\<close> blocks, the optimised downward loop with its running 32-bit vote total and
  its rounded-up integer threshold selects the last fork whose height is reached and for which at least \<open>threshold\<close> percent of the
  window size votes for that fork or a later one; with no such fork the current one stays.\<close>

theorem vote_correct:
  "hf_inv hf \<Longrightarrow> unat (window_size hf) < 2 ^ 32 \<Longrightarrow> get_voted_fork_index hf h = voted_fork hf h"
  by (rule get_voted_fork_index_spec)

theorem vote_correct_witness:
  "get_voted_fork_index (sample_hf\<lparr>versions := [2, 2], last_versions := (\<lambda>_. 0)(2 := 2)\<rparr>) 12 =
     voted_fork (sample_hf\<lparr>versions := [2, 2], last_versions := (\<lambda>_. 0)(2 := 2)\<rparr>) 12"
  using sample_ok(1) by (intro vote_correct) (auto simp: hf_inv_def sample_hf_def window_ok_def)

text \<open>The bound on the window is needed: the threshold of 100 percent of \<open>2^32\<close> blocks is cut to 32 bits, and the fork is
  selected without any vote.\<close>

theorem vote_threshold_truncated:
  "hf_inv (sample_hf\<lparr>window_size := 2 ^ 32, heights := [hardfork 1 0 0 0, hardfork 2 10 100 1]\<rparr>) \<and>
   get_voted_fork_index (sample_hf\<lparr>window_size := 2 ^ 32, heights := [hardfork 1 0 0 0, hardfork 2 10 100 1]\<rparr>) 12 = 1 \<and>
   voted_fork (sample_hf\<lparr>window_size := 2 ^ 32, heights := [hardfork 1 0 0 0, hardfork 2 10 100 1]\<rparr>) 12 = 0"
  by (auto simp: hf_inv_def schedule_ok_def fork_before_def hardfork_def window_ok_def sample_hf_def get_voted_fork_index_def
      voted_fork_def activates_def votes_from_def Let_def word_less_nat_alt word_le_nat_alt upt_rec)

text \<open>C5: The window is the chain's.  After initialisation and any sequence of connected blocks, the
  voting window holds exactly the effective votes of the last \<open>window_size\<close> blocks of the chain,
  oldest first, and the per-version counters are those of the window.\<close>

theorem window_tracks_chain:
  assumes "schedule_ok (heights hf0)" "0 < window_size hf0" "db_blocks db0 \<noteq> []" "length (db_blocks db0) < 2 ^ 64"
    and "\<forall>h. unat h < length (db_blocks db0) \<longrightarrow> get_hard_fork_version db0 h \<noteq> None"
  shows "\<exists>hf1. init (hf0, db0) = Some hf1 \<and> (\<forall>bs hf db.
      connect_all bs (hf1, db0) = Some (hf, db) \<and> length (db_blocks db0) + length bs < 2 ^ 64 \<longrightarrow>
      db_blocks db = db_blocks db0 @ bs
      \<and> versions hf = chain_votes hf (drop (length (db_blocks db) - unat (window_size hf)) (db_blocks db))
      \<and> (\<forall>v. last_versions hf v = of_nat (count_list (versions hf) v)))"
proof -
  obtain hf1 where hf1: "init (hf0, db0) = Some hf1" using init_returns [OF assms] by blast
  have "db_blocks db = db_blocks db0 @ bs \<and> window_synced hf (db_blocks db) \<and> window_ok hf"
    if "connect_all bs (hf1, db0) = Some (hf, db)" "length (db_blocks db0) + length bs < 2 ^ 64" for bs hf db
    using connect_all_synced [OF that(1) _ _ that(2)] init_chain_inv [OF assms hf1]
    by (auto simp: chain_inv_def hf_inv_def)
  then show ?thesis using hf1 unfolding window_synced_def window_ok_def by blast
qed

theorem window_tracks_chain_witness:
  "\<exists>hf1. init (sample_hf, sample_db) = Some hf1 \<and> (\<forall>bs hf db.
      connect_all bs (hf1, sample_db) = Some (hf, db) \<and> length (db_blocks sample_db) + length bs < 2 ^ 64 \<longrightarrow>
      db_blocks db = db_blocks sample_db @ bs
      \<and> versions hf = chain_votes hf (drop (length (db_blocks db) - unat (window_size hf)) (db_blocks db))
      \<and> (\<forall>v. last_versions hf v = of_nat (count_list (versions hf) v)))"
  by (rule window_tracks_chain [OF sample_ok])

text \<open>C6: A reorganisation to a stored height succeeds, leaves the blocks alone, keeps the invariant and
  rebuilds the window from the blocks up to that height; if every block above it is accepted when
  replayed, the window is that of the whole chain.\<close>

theorem reorganize_correct:
  assumes "hf_inv hf" "length (db_blocks db) < 2 ^ 64" "unat h < length (db_blocks db)"
    and "get_hard_fork_version db h \<noteq> None"
  shows "\<exists>hf1 hf' db'. reorganize_from_block_height h (hf, db) = Some (True, hf', db')
    \<and> hf_inv hf' \<and> db_blocks db' = db_blocks db
    \<and> window_synced hf1 (take (Suc (unat h)) (db_blocks db))
    \<and> ofold replay_block [Suc (unat h)..<length (db_blocks db)] (hf1, db) = Some (hf', db')
    \<and> (replay_accepts (db_blocks db) [Suc (unat h)..<length (db_blocks db)] (hf1, db) \<longrightarrow>
         window_synced hf' (db_blocks db))"
  using reorganize_spec [OF assms] by blast

theorem reorganize_correct_witness:
  "\<exists>hf1 hf' db'. reorganize_from_block_height 0 (sample_hf, sample_db) = Some (True, hf', db')
    \<and> hf_inv hf' \<and> db_blocks db' = db_blocks sample_db
    \<and> window_synced hf1 (take (Suc (unat (0 :: u64))) (db_blocks sample_db))
    \<and> ofold replay_block [Suc (unat (0 :: u64))..<length (db_blocks sample_db)] (hf1, sample_db) = Some (hf', db')
    \<and> (replay_accepts (db_blocks sample_db) [Suc (unat (0 :: u64))..<length (db_blocks sample_db)] (hf1, sample_db) \<longrightarrow>
         window_synced hf' (db_blocks sample_db))"
  using sample_ok by (intro reorganize_correct) (auto simp: hf_inv_def sample_hf_def window_ok_def)

text \<open>C7: The three public networks.  Each network's table is loaded in full (no entry is refused), and since all its
  thresholds are 0 the version that voting selects at any height from 1 on is the scheduled (\<open>ideal\<close>) version of that height, whatever
  the miners vote and whatever the window is.  At height 0, below the first entry of the tables, the schedule gives the original
  version and voting leaves the current fork.\<close>

theorem networks_follow_schedule:
  assumes "table \<in> {mainnet_hard_forks, testnet_hard_forks, stagenet_hard_forks}"
    and "new_HardFork junk 1 till forked update win thr = Some hf0"
  shows "heights (load_hard_forks table hf0) = table
    \<and> (\<forall>hf h. heights hf = table \<and> original_version hf = 1 \<longrightarrow>
         (if h = 0 then get_ideal_version_at hf h = Some 1 \<and> get_voted_fork_index hf h = current_fork_index hf
          else get_ideal_version_at hf h = Some (hf_version (heights hf ! get_voted_fork_index hf h))))"
proof -
  have t: "schedule_ok table" "\<forall>f \<in> set table. hf_version f \<noteq> 0" "\<forall>f \<in> set table. hf_threshold f = 0" "table \<noteq> []"
    "hf_height (hd table) = 1" "hf_version (hd table) = 1" "\<forall>f \<in> set table. 0 < hf_height f"
    using assms(1) networks_schedule_ok
    by (auto simp: mainnet_hard_forks_def testnet_hard_forks_def stagenet_hard_forks_def hardfork_def)
  moreover have "heights hf0 = []" using assms(2) by (auto simp: new_HardFork_def split: if_splits)
  ultimately have "heights (load_hard_forks table hf0) = table" by (simp add: load_hard_forks_schedule)
  moreover have "if h = 0 then get_ideal_version_at hf h = Some 1 \<and> get_voted_fork_index hf h = current_fork_index hf
      else get_ideal_version_at hf h = Some (hf_version (heights hf ! get_voted_fork_index hf h))"
    if "heights hf = table" "original_version hf = 1" for hf h
  proof (cases "h = 0")
    case True
    then show ?thesis using ideal_before_first [of hf 0] t that by simp
  next
    case False
    then have "1 \<le> h" by (simp add: word_le_nat_alt Suc_le_eq unat_gt_0)
    then show ?thesis using ideal_is_voted [of hf h] t that False by simp
  qed
  ultimately show ?thesis by blast
qed

theorem networks_follow_schedule_witness:
  "heights (load_hard_forks mainnet_hard_forks (the (new_HardFork (\<lambda>_. 7) 1 1009826 31557600 15778800 10080 80)))
      = mainnet_hard_forks
    \<and> get_ideal_version_at (sample_hf\<lparr>heights := mainnet_hard_forks\<rparr>) 1009827 =
        Some (hf_version (mainnet_hard_forks ! get_voted_fork_index (sample_hf\<lparr>heights := mainnet_hard_forks\<rparr>) 1009827))"
proof -
  let ?hf = "sample_hf\<lparr>heights := mainnet_hard_forks\<rparr>"
  have "heights ?hf = mainnet_hard_forks \<and> original_version ?hf = 1" by (simp add: sample_hf_def)
  moreover have "(1009827 :: u64) \<noteq> 0" by simp
  moreover have "new_HardFork (\<lambda>_. 7) 1 1009826 31557600 15778800 10080 80 =
      Some (the (new_HardFork (\<lambda>_. 7) 1 1009826 31557600 15778800 10080 80))" by (simp add: new_HardFork_def)
  ultimately show ?thesis
    using networks_follow_schedule [of mainnet_hard_forks "\<lambda>_. 7" 1009826 31557600 15778800 10080 80
        "the (new_HardFork (\<lambda>_. 7) 1 1009826 31557600 15778800 10080 80)"] by (metis insertI1)
qed

text \<open>
  A chain of three version-1 blocks voting for version 2, with a window of two blocks.
\<close>

definition voting_block :: block_header where
  "voting_block = sample_block\<lparr>minor_version := 2\<rparr>"

definition voting_db :: chain_db where
  "voting_db = \<lparr>db_blocks = [voting_block, voting_block, voting_block], db_hf_versions = (\<lambda>_. Some 1)\<rparr>"

definition voting_hf :: HardFork where
  "voting_hf = sample_hf\<lparr>versions := [2, 2], last_versions := (\<lambda>_. 0)(2 := 2)\<rparr>"

text \<open>C8: Popping a block does not restore the window.  In every state of the invariant, \<open>on_block_popped\<close> drops the newest vote, puts the
  recorded hard-fork version of the popped height in front of the window, keeps the counters those of the window and sets the
  current fork to the last one whose height is reached.  So from a window that is the chain's it leaves the window of the remaining chain
  exactly when the chain is longer than the window and that recorded version happens to be the effective vote of the block that re-enters the
  window.  It need not be: in the witness three blocks of version 1 vote for version 2.\<close>

theorem pop_desynchronises_window:
  assumes "chain_inv (hf, db)" "1 < length (db_blocks db)"
  shows "\<exists>hf' v. on_block_popped 1 (hf, remove_top db) = Some hf'
    \<and> get_hard_fork_version db (of_nat (length (db_blocks db) - 1)) = Some v
    \<and> versions hf' = v # butlast (versions hf)
    \<and> (\<forall>u. last_versions hf' u = of_nat (count_list (versions hf') u))
    \<and> current_fork_index hf' = (let ns = filter (\<lambda>i. hf_height (heights hf ! i) \<le> of_nat (length (db_blocks db) - 1)) [1..<length (heights hf)]
         in if ns = [] then 0 else last ns)
    \<and> (window_synced hf (db_blocks db) \<longrightarrow> (window_synced hf' (db_blocks (remove_top db)) \<longleftrightarrow>
         unat (window_size hf) < length (db_blocks db)
         \<and> v = get_effective_version hf (get_block_vote (db_blocks db ! (length (db_blocks db) - 1 - unat (window_size hf))))))"
proof -
  obtain hf' v where p: "on_block_popped 1 (hf, remove_top db) = Some hf'" "get_hard_fork_version db (db_height (remove_top db)) = Some v"
      "versions hf' = v # butlast (versions hf)" "window_ok hf'" "heights hf' = heights hf" "window_size hf' = window_size hf"
      "current_fork_index hf' = index_for_height (heights hf) (db_height (remove_top db)) (length (heights hf) - 1)"
    using pop_one [OF assms] by blast
  have h: "db_height (remove_top db) = of_nat (length (db_blocks db) - 1)" by (simp add: db_height_def remove_top_def)
  have inv: "hf_inv hf" using assms(1) by (simp add: chain_inv_def)
  have "Suc (length (heights hf) - 1) = length (heights hf)" using inv by (auto simp: hf_inv_def)
  then have i: "current_fork_index hf' = (let ns = filter (\<lambda>i. hf_height (heights hf ! i) \<le> of_nat (length (db_blocks db) - 1)) [1..<length (heights hf)]
         in if ns = [] then 0 else last ns)"
    unfolding p(7) index_for_height_spec h by (simp only:)
  have "window_synced hf (db_blocks db) \<longrightarrow> (window_synced hf' (db_blocks (remove_top db)) \<longleftrightarrow>
         unat (window_size hf) < length (db_blocks db)
         \<and> v = get_effective_version hf (get_block_vote (db_blocks db ! (length (db_blocks db) - 1 - unat (window_size hf)))))"
    using pop_synced_iff [OF _ p(3,5,6) window_size_pos [OF inv] assms(2)] by (simp add: remove_top_def)
  then show ?thesis using p(1-4) i h by (intro exI [of _ hf'] exI [of _ v]) (simp add: window_ok_def)
qed

theorem pop_desynchronises_window_witness:
  "chain_inv (voting_hf, voting_db) \<and> window_synced voting_hf (db_blocks voting_db)
   \<and> (\<exists>hf. on_block_popped 1 (voting_hf, remove_top voting_db) = Some hf
         \<and> versions hf = [1, 2] \<and> \<not> window_synced hf (db_blocks (remove_top voting_db)))"
proof -
  have i: "chain_inv (voting_hf, voting_db)"
    using sample_ok(1) by (auto simp: chain_inv_def hf_inv_def window_ok_def voting_hf_def sample_hf_def
        voting_db_def get_hard_fork_version_def)
  have s: "window_synced voting_hf (db_blocks voting_db)"
    by (simp add: window_synced_def chain_votes_def voting_hf_def sample_hf_def voting_db_def voting_block_def
        get_effective_version_def get_block_vote_def hardfork_def)
  have "1 < length (db_blocks voting_db)" by (simp add: voting_db_def)
  from pop_desynchronises_window [OF i this] s obtain hf v where p: "on_block_popped 1 (voting_hf, remove_top voting_db) = Some hf"
      "get_hard_fork_version voting_db (of_nat (length (db_blocks voting_db) - 1)) = Some v" "versions hf = v # butlast (versions voting_hf)"
      "window_synced hf (db_blocks (remove_top voting_db)) \<longrightarrow> v = get_effective_version voting_hf
         (get_block_vote (db_blocks voting_db ! (length (db_blocks voting_db) - 1 - unat (window_size voting_hf))))" by blast
  have "v = 1" using p(2) by (simp add: voting_db_def get_hard_fork_version_def)
  moreover have "get_effective_version voting_hf
         (get_block_vote (db_blocks voting_db ! (length (db_blocks voting_db) - 1 - unat (window_size voting_hf)))) = 2"
    by (simp add: voting_hf_def sample_hf_def voting_db_def voting_block_def get_effective_version_def get_block_vote_def hardfork_def)
  ultimately show ?thesis using i s p by (intro conjI exI [of _ hf]) (auto simp: voting_hf_def)
qed

end
