(* ===== verification/Block_Reward.thy ===== *)
theory Block_Reward
  imports Int_Util
begin

text \<open>
  Emission (\<open>src/cryptonote_basic/cryptonote_basic_impl.cpp\<close>): the block reward with its penalty for
  large blocks, and the running total of generated coins kept by \<open>handle_block_to_main_chain\<close> in
  \<open>src/cryptonote_core/blockchain.cpp\<close>.
\<close>

definition MONEY_SUPPLY :: u64 where "MONEY_SUPPLY = - 1"
definition EMISSION_SPEED_FACTOR_PER_MINUTE :: nat where "EMISSION_SPEED_FACTOR_PER_MINUTE = 20"
definition FINAL_SUBSIDY_PER_MINUTE :: u64 where "FINAL_SUBSIDY_PER_MINUTE = 300000000000"
definition DIFFICULTY_TARGET_V1 :: nat where "DIFFICULTY_TARGET_V1 = 60"
definition DIFFICULTY_TARGET_V2 :: nat where "DIFFICULTY_TARGET_V2 = 120"
definition CRYPTONOTE_BLOCK_GRANTED_FULL_REWARD_ZONE_V1 :: u64 where "CRYPTONOTE_BLOCK_GRANTED_FULL_REWARD_ZONE_V1 = 20000"
definition CRYPTONOTE_BLOCK_GRANTED_FULL_REWARD_ZONE_V2 :: u64 where "CRYPTONOTE_BLOCK_GRANTED_FULL_REWARD_ZONE_V2 = 60000"
definition CRYPTONOTE_BLOCK_GRANTED_FULL_REWARD_ZONE_V5 :: u64 where "CRYPTONOTE_BLOCK_GRANTED_FULL_REWARD_ZONE_V5 = 300000"

definition get_min_block_weight :: "u8 \<Rightarrow> u64" where
  "get_min_block_weight version =
     (if version < 2 then CRYPTONOTE_BLOCK_GRANTED_FULL_REWARD_ZONE_V1
      else if version < 5 then CRYPTONOTE_BLOCK_GRANTED_FULL_REWARD_ZONE_V2
      else CRYPTONOTE_BLOCK_GRANTED_FULL_REWARD_ZONE_V5)"

definition target_minutes :: "u8 \<Rightarrow> nat" where
  "target_minutes version = (if version < 2 then DIFFICULTY_TARGET_V1 else DIFFICULTY_TARGET_V2) div 60"

definition emission_speed_factor :: "u8 \<Rightarrow> nat" where
  "emission_speed_factor version = EMISSION_SPEED_FACTOR_PER_MINUTE - (target_minutes version - 1)"

definition base_block_reward :: "u64 \<Rightarrow> u8 \<Rightarrow> u64" where
  "base_block_reward already_generated_coins version =
     (let base_reward = drop_bit (emission_speed_factor version) (MONEY_SUPPLY - already_generated_coins)
      in if base_reward < FINAL_SUBSIDY_PER_MINUTE * of_nat (target_minutes version)
         then FINAL_SUBSIDY_PER_MINUTE * of_nat (target_minutes version) else base_reward)"

text \<open>
  The outer option is the division by zero of \<open>div128_64\<close>, which never happens; the inner one is the
  \<open>false\<close> the function returns for a block more than twice the median.
\<close>

definition get_block_reward :: "u64 \<Rightarrow> u64 \<Rightarrow> u64 \<Rightarrow> u8 \<Rightarrow> u64 option option" where
  "get_block_reward median_weight current_block_weight already_generated_coins version =
     (let base_reward = base_block_reward already_generated_coins version;
          full_reward_zone = get_min_block_weight version;
          median_weight = (if median_weight < full_reward_zone then full_reward_zone else median_weight)
      in if current_block_weight \<le> median_weight then Some (Some base_reward)
         else if current_block_weight > 2 * median_weight then Some None
         else do {
           let multiplicand = 2 * median_weight - current_block_weight;
           let multiplicand = multiplicand * current_block_weight;
           let (product_lo, product_hi) = mul128 base_reward multiplicand;
           (reward_hi, reward_lo, _, _) \<leftarrow> div128_64 product_hi product_lo median_weight;
           (reward_hi, reward_lo, _, _) \<leftarrow> div128_64 reward_hi reward_lo median_weight;
           Some (Some reward_lo) })"

definition add_generated_coins :: "u64 \<Rightarrow> u64 \<Rightarrow> u64" where
  "add_generated_coins already_generated_coins base_reward =
     (if base_reward < MONEY_SUPPLY - already_generated_coins
      then already_generated_coins + base_reward else MONEY_SUPPLY)"

section \<open>The base reward\<close>

lemma target_minutes_eq: "target_minutes v = (if v < 2 then 1 else 2)"
  by (simp add: target_minutes_def DIFFICULTY_TARGET_V1_def DIFFICULTY_TARGET_V2_def)

lemma emission_speed_factor_eq: "emission_speed_factor v = (if v < 2 then 20 else 19)"
  by (simp add: emission_speed_factor_def target_minutes_eq EMISSION_SPEED_FACTOR_PER_MINUTE_def)

lemma unat_supply_left: "unat (MONEY_SUPPLY - g) = 2 ^ 64 - 1 - unat g"
  using unat_lt_u64 [of g] by (simp add: MONEY_SUPPLY_def unat_sub_if')

lemma unat_base_block_reward:
  "unat (base_block_reward g v) =
     max ((2 ^ 64 - 1 - unat g) div 2 ^ emission_speed_factor v) (300000000000 * target_minutes v)"
  by (auto simp: base_block_reward_def Let_def word_less_nat_alt unat_drop_bit unat_supply_left max_def
      target_minutes_eq emission_speed_factor_eq FINAL_SUBSIDY_PER_MINUTE_def)

lemma base_reward_bounds:
  "300000000000 * target_minutes v \<le> unat (base_block_reward g v)"
  "unat (base_block_reward g v) < 2 ^ 46"
  by (auto simp: unat_base_block_reward emission_speed_factor_eq target_minutes_eq)

lemma base_reward_antimono:
  "unat g \<le> unat g' \<Longrightarrow> unat (base_block_reward g' v) \<le> unat (base_block_reward g v)"
  unfolding unat_base_block_reward by (intro max.mono div_le_mono) auto

section \<open>The penalty\<close>

definition effective_median :: "u64 \<Rightarrow> u8 \<Rightarrow> nat" where
  "effective_median m v = max (unat m) (unat (get_min_block_weight v))"

text \<open>The reward as a function on the naturals: no penalty up to the median, none at all above twice
  the median, \<open>B (2M - W) W / M^2\<close> rounded down in between.\<close>

definition reward_spec :: "nat \<Rightarrow> nat \<Rightarrow> nat \<Rightarrow> nat option" where
  "reward_spec B M W = (if W \<le> M then Some B else if W > 2 * M then None
     else Some (B * ((2 * M - W) * W) div (M * M)))"

lemma penalty_square: "M \<le> W \<Longrightarrow> W \<le> 2 * M \<Longrightarrow> (2 * M - W) * W \<le> M * M" for M W :: nat
proof -
  assume "M \<le> W" "W \<le> 2 * M"
  then obtain d e where de: "W = M + d" "M = d + e" by (metis le_Suc_ex mult_2 nat_add_left_cancel_le)
  then have "(2 * M - W) * W = e * (d + e + d)" by simp
  also have "\<dots> \<le> e * (d + e + d) + d * d" by simp
  also have "\<dots> = M * M" by (simp add: de algebra_simps)
  finally show ?thesis .
qed

lemma min_weight_pos: "0 < unat (get_min_block_weight v)"
  by (simp add: get_min_block_weight_def CRYPTONOTE_BLOCK_GRANTED_FULL_REWARD_ZONE_V1_def CRYPTONOTE_BLOCK_GRANTED_FULL_REWARD_ZONE_V2_def CRYPTONOTE_BLOCK_GRANTED_FULL_REWARD_ZONE_V5_def)

text \<open>
  What the code computes: twice the median and the multiplicand are taken modulo \<open>2^64\<close>.  The first wraps for a median of \<open>2^63\<close> or more,
  and then every block above the median is refused; the second can wrap from a median of \<open>2^32\<close> on.
\<close>

definition wrapped_reward :: "nat \<Rightarrow> nat \<Rightarrow> nat \<Rightarrow> nat option" where
  "wrapped_reward B M W = (if W \<le> M then Some B else if W > 2 * M mod 2 ^ 64 then None
     else Some (B * ((2 * M - W) * W mod 2 ^ 64) div (M * M)))"

lemma wrapped_multiplicand:
  fixes M W :: nat
  assumes "M < W" "W \<le> 2 * M mod 2 ^ 64" "M < 2 ^ 64"
  shows "2 * M < 2 ^ 64" "(2 * M - W) * W mod 2 ^ 64 < M * M"
proof -
  show lt: "2 * M < 2 ^ 64"
  proof (rule ccontr)
    assume "\<not> 2 * M < 2 ^ 64"
    then have "2 * M mod 2 ^ 64 = 2 * M - 2 ^ 64" using assms(3) by (simp add: le_mod_geq)
    then show False using assms by simp
  qed
  show "(2 * M - W) * W mod 2 ^ 64 < M * M"
  proof (cases "M < 2 ^ 32")
    case True
    have W: "W \<le> 2 * M" using assms(2) lt by simp
    then obtain d e where de: "W = M + d" "M = d + e" "0 < d" using assms(1)
      by (metis less_imp_add_positive mult_2 nat_add_left_cancel_le le_Suc_ex)
    then have "(2 * M - W) * W = e * (d + e + d)" by simp
    also have "\<dots> < e * (d + e + d) + d * d" using de(3) by simp
    also have "\<dots> = M * M" by (simp add: de algebra_simps)
    finally show ?thesis using mod_less_eq_dividend [of "(2 * M - W) * W" "2 ^ 64"] by linarith
  next
    case False
    have "(2 * M - W) * W mod 2 ^ 64 < 2 ^ 32 * 2 ^ 32" using mod_less_divisor [of "2 ^ 64" "(2 * M - W) * W"] by simp
    also have "\<dots> \<le> M * M" using False by (intro mult_le_mono) simp_all
    finally show ?thesis .
  qed
qed

lemma wrapped_reward_strict:
  assumes "wrapped_reward B M W = Some r" "M < W" "0 < B" "M < 2 ^ 64"
  shows "r < B"
proof -
  have W: "W \<le> 2 * M mod 2 ^ 64" and r: "r = B * ((2 * M - W) * W mod 2 ^ 64) div (M * M)"
    using assms by (auto simp: wrapped_reward_def split: if_splits)
  have "B * ((2 * M - W) * W mod 2 ^ 64) < B * (M * M)"
    using wrapped_multiplicand(2) [OF assms(2) W assms(4)] assms(3) by simp
  then show ?thesis unfolding r by (simp add: less_mult_imp_div_less)
qed

lemma wrapped_reward_le:
  assumes "wrapped_reward B M W = Some r" "0 < B" "M < 2 ^ 64"
  shows "r \<le> B"
  using wrapped_reward_strict [OF assms(1) _ assms(2,3)] assms(1) by (cases "W \<le> M") (auto simp: wrapped_reward_def)

lemma wrapped_reward_exact:
  assumes "M < 2 ^ 32"
  shows "wrapped_reward B M W = reward_spec B M W"
proof (cases "M < W \<and> W \<le> 2 * M")
  case True
  have "M * M < 2 ^ 32 * 2 ^ 32" using assms by (intro mult_strict_mono) simp_all
  then have "(2 * M - W) * W mod 2 ^ 64 = (2 * M - W) * W" using penalty_square [of M W] True by simp
  then show ?thesis using assms by (simp add: wrapped_reward_def reward_spec_def)
qed (use assms in \<open>auto simp: wrapped_reward_def reward_spec_def\<close>)

lemma effective_median_lt: "effective_median m v < 2 ^ 64"
  using unat_lt_u64 by (simp add: effective_median_def)

lemma base_reward_pos: "0 < unat (base_block_reward g v)"
  using base_reward_bounds(1) [of v g] by (simp add: target_minutes_eq split: if_splits)

lemma get_block_reward_eq:
  "\<exists>r. get_block_reward m w g v = Some r \<and>
    map_option unat r = wrapped_reward (unat (base_block_reward g v)) (effective_median m v) (unat w)"
proof -
  define M where "M = (if m < get_min_block_weight v then get_min_block_weight v else m)"
  define B where "B = base_block_reward g v"
  have M: "unat M = effective_median m v" by (auto simp: M_def effective_median_def word_less_nat_alt)
  have M0: "0 < unat M" using min_weight_pos [of v] by (simp add: M effective_median_def)
  then have M1: "M \<noteq> 0" by auto
  have M2: "unat (2 * M) = 2 * unat M mod 2 ^ 64" by (simp add: unat_word_ariths)
  have le: "w \<le> M \<longleftrightarrow> unat w \<le> unat M" "w > 2 * M \<longleftrightarrow> unat w > 2 * unat M mod 2 ^ 64"
    by (simp_all add: word_le_nat_alt word_less_nat_alt M2)
  show ?thesis
  proof (cases "unat w \<le> unat M \<or> unat w > 2 * unat M mod 2 ^ 64")
    case True
    then show ?thesis
      using le by (auto simp: get_block_reward_def Let_def M_def [symmetric] B_def [symmetric] wrapped_reward_def M [symmetric])
  next
    case False
    then have w: "unat M < unat w" "unat w \<le> 2 * unat M mod 2 ^ 64" by auto
    have "unat M < 2 ^ 64" using unat_lt_u64 [of M] by simp
    note wm = wrapped_multiplicand [OF w this]
    let ?k = "(2 * M - w) * w"
    have M2': "unat (2 * M) = 2 * unat M" using M2 wm(1) by simp
    have d: "unat (2 * M - w) = 2 * unat M - unat w" using w(2) wm(1) M2' by (simp add: unat_sub word_le_nat_alt)
    have k: "unat ?k = (2 * unat M - unat w) * unat w mod 2 ^ 64"
      unfolding unat_word_ariths(2) [of "2 * M - w" w] d by simp
    obtain ph pl where p: "mul128 B ?k = (pl, ph)" by (cases "mul128 B ?k")
    have pr: "unat ph * 2 ^ 64 + unat pl = unat B * unat ?k" using mul128_product [of B ?k] p by simp
    obtain qh ql r1 where q: "div128_64 ph pl M = Some (qh, ql, 0, r1)"
        "unat qh * 2 ^ 64 + unat ql = unat B * unat ?k div unat M"
      using div128_64_spec [OF M1, of ph pl] pr by auto
    obtain sh sl r2 where s: "div128_64 qh ql M = Some (sh, sl, 0, r2)"
        "unat sh * 2 ^ 64 + unat sl = unat B * unat ?k div unat M div unat M"
      using div128_64_spec [OF M1, of qh ql] q by auto
    have "unat B * unat ?k div unat M div unat M = unat B * unat ?k div (unat M * unat M)"
      by (simp add: div_mult2_eq)
    also have "\<dots> \<le> unat B * (unat M * unat M) div (unat M * unat M)"
      using wm(2) k by (intro div_le_mono mult_le_mono) auto
    also have "\<dots> = unat B" using M0 by simp
    also have "\<dots> < 2 ^ 64" using unat_lt_u64 [of B] by simp
    finally have "unat sl = unat B * unat ?k div (unat M * unat M)"
      using s(2) by (cases "unat sh") (auto simp: div_mult2_eq)
    then show ?thesis
      using False le p q(1) s(1) k
      by (auto simp: get_block_reward_def Let_def M_def [symmetric] B_def [symmetric] wrapped_reward_def M [symmetric])
  qed
qed

lemma get_block_reward_le:
  assumes "get_block_reward m w g v = Some (Some r)"
  shows "unat r \<le> unat (base_block_reward g v)"
  using get_block_reward_eq [of m w g v] wrapped_reward_le [OF _ base_reward_pos effective_median_lt] assms by auto

section \<open>The supply\<close>

lemma unat_add_generated: "unat (add_generated_coins g r) = min (unat g + unat r) (2 ^ 64 - 1)"
proof (cases "r < MONEY_SUPPLY - g")
  case True
  then have "unat r < 2 ^ 64 - 1 - unat g" by (simp add: word_less_nat_alt unat_supply_left)
  then show ?thesis using True by (simp add: add_generated_coins_def unat_add_exact)
next
  case False
  then have "2 ^ 64 - 1 - unat g \<le> unat r" by (simp add: word_less_nat_alt unat_supply_left)
  then show ?thesis using False by (simp add: add_generated_coins_def MONEY_SUPPLY_def)
qed

section \<open>Properties\<close>

text \<open>C15: The block reward, for every median, weight, total and version.  With the median \<open>M\<close> raised to the version's penalty-free zone,
  the reward is the base reward for a block up to the median, a failure above twice the median modulo \<open>2^64\<close>, and the base reward times
  \<open>(2 M - W) W\<close> modulo \<open>2^64\<close> over \<open>M^2\<close>, rounded down, in between: the two 128-by-64-bit divisions lose nothing, and the function's
  assertions hold (the high word is 0, the reward is below the base reward).  Below a median of \<open>2^32\<close> nothing wraps and it is the intended
  \<open>base * (2 M - W) * W / M^2\<close> with a failure above \<open>2 M\<close>.\<close>

theorem block_reward_correct:
  "\<exists>r. get_block_reward m w g v = Some r
    \<and> (let B = unat (base_block_reward g v); M = effective_median m v; W = unat w in
       map_option unat r = (if W \<le> M then Some B else if 2 * M mod 2 ^ 64 < W then None
                            else Some (B * ((2 * M - W) * W mod 2 ^ 64) div (M * M)))
       \<and> (M < 2 ^ 32 \<longrightarrow> map_option unat r = reward_spec B M W)
       \<and> (\<forall>x. r = Some x \<and> M < W \<longrightarrow> unat x < B))"
proof -
  obtain r where r: "get_block_reward m w g v = Some r"
      "map_option unat r = wrapped_reward (unat (base_block_reward g v)) (effective_median m v) (unat w)"
    using get_block_reward_eq by blast
  have "unat x < unat (base_block_reward g v)" if "r = Some x" "effective_median m v < unat w" for x
    using wrapped_reward_strict [OF _ that(2) base_reward_pos effective_median_lt] r(2) that(1) by simp
  moreover note r(2) [unfolded wrapped_reward_def]
  moreover have "map_option unat r = reward_spec (unat (base_block_reward g v)) (effective_median m v) (unat w)"
    if "effective_median m v < 2 ^ 32"
    using r(2) wrapped_reward_exact [OF that] by simp
  ultimately show ?thesis using r(1) unfolding Let_def by (intro exI [of _ r] conjI) auto
qed

theorem block_reward_correct_witness:
  "\<exists>r. get_block_reward 300000 450000 18000000000000000000 16 = Some r
    \<and> map_option unat r = reward_spec (unat (base_block_reward 18000000000000000000 16)) (effective_median 300000 16) (unat (450000 :: u64))
    \<and> (\<forall>x. r = Some x \<longrightarrow> unat x < unat (base_block_reward 18000000000000000000 16))"
  using block_reward_correct [of 300000 450000 18000000000000000000 16]
  by (auto simp: Let_def effective_median_def get_min_block_weight_def CRYPTONOTE_BLOCK_GRANTED_FULL_REWARD_ZONE_V5_def)

end
