(* ===== verification/Heap_Order.thy ===== *)
theory Heap_Order
  imports Prelude_Monero
begin

text \<open>
  One side of a median heap.  Positions are the naturals with the parent of \<open>i\<close> at \<open>i div 2\<close>; position
  0 is the median, the positions \<open>1, ..., c\<close> are a binary heap above it.  The order is a
  parameter, so that the same lemmas serve the min side and, with the order reversed, the max side.
\<close>

definition swap_at :: "('i \<Rightarrow> 'v) \<Rightarrow> 'i \<Rightarrow> 'i \<Rightarrow> 'i \<Rightarrow> 'v" where
  "swap_at v i j = v(i := v j, j := v i)"

lemma swap_at_simps [simp]:
  "swap_at v i j j = v i" "swap_at v i j i = v j" "k \<noteq> i \<Longrightarrow> k \<noteq> j \<Longrightarrow> swap_at v i j k = v k"
  by (simp_all add: swap_at_def)

function sift_down :: "('v \<Rightarrow> 'v \<Rightarrow> bool) \<Rightarrow> nat \<Rightarrow> (nat \<Rightarrow> 'v) \<Rightarrow> nat \<Rightarrow> nat \<Rightarrow> 'v" where
  "sift_down lt c v i =
     (if 0 < i \<and> i \<le> c then
        let j = (if i < c \<and> lt (v (i + 1)) (v i) then i + 1 else i)
        in if lt (v j) (v (j div 2)) then sift_down lt c (swap_at v j (j div 2)) (2 * j) else v
      else v)"
  by pat_completeness auto
termination
  by (relation "measure (\<lambda>(_, c, _, i). Suc c - i)") auto

fun sift_up :: "('v \<Rightarrow> 'v \<Rightarrow> bool) \<Rightarrow> (nat \<Rightarrow> 'v) \<Rightarrow> nat \<Rightarrow> (nat \<Rightarrow> 'v) \<times> bool" where
  "sift_up lt v i =
     (if 0 < i \<and> lt (v i) (v (i div 2)) then sift_up lt (swap_at v i (i div 2)) (i div 2) else (v, i = 0))"

declare sift_down.simps [simp del] sift_up.simps [simp del]

lemma sift_up_step: "0 < i \<Longrightarrow> lt (v i) (v (i div 2)) \<Longrightarrow> sift_up lt v i = sift_up lt (swap_at v i (i div 2)) (i div 2)"
  by (subst sift_up.simps) simp

lemma sift_up_stop: "\<not> (0 < i \<and> lt (v i) (v (i div 2))) \<Longrightarrow> sift_up lt v i = (v, i = 0)"
  by (subst sift_up.simps) auto

lemma sift_up_0 [simp]: "sift_up lt v 0 = (v, True)"
  by (simp add: sift_up_stop)

definition heap_ok :: "('v \<Rightarrow> 'v \<Rightarrow> bool) \<Rightarrow> nat \<Rightarrow> (nat \<Rightarrow> 'v) \<Rightarrow> bool" where
  "heap_ok lt c v \<longleftrightarrow> (\<forall>i. 0 < i \<and> i \<le> c \<longrightarrow> \<not> lt (v i) (v (i div 2)))"

locale strict_total =
  fixes lt :: "'v \<Rightarrow> 'v \<Rightarrow> bool"
  assumes asym: "lt a b \<Longrightarrow> \<not> lt b a"
    and neg_trans: "\<not> lt a b \<Longrightarrow> \<not> lt b c \<Longrightarrow> \<not> lt a c"
begin

lemma irrefl: "\<not> lt a a"
  using asym by blast

lemma lt_trans: "lt a b \<Longrightarrow> \<not> lt c b \<Longrightarrow> lt a c"
  using neg_trans [of c a b] neg_trans [of a c b] asym by blast

lemma dual: "strict_total (\<lambda>a b. lt b a)"
  by unfold_locales (use asym neg_trans in blast)+

text \<open>Repairing downwards: only the children of \<open>k\<close> may be out of order.\<close>

lemma sift_down_ok:
  assumes "0 < k" "i = 2 * k"
    and "\<forall>m. 0 < m \<and> m \<le> c \<and> m div 2 \<noteq> k \<longrightarrow> \<not> lt (v m) (v (m div 2))"
    and "\<forall>m. 0 < m \<and> m \<le> c \<and> m div 2 = k \<longrightarrow> \<not> lt (v m) (v (k div 2))"
  shows "heap_ok lt c (sift_down lt c v i)"
  using assms
proof (induction "Suc c - i" arbitrary: v i k rule: less_induct)
  case less
  note i = less.prems(2) and others = less.prems(3) and kids = less.prems(4)
  show ?case
  proof (cases "i \<le> c")
    case False
    then have "m div 2 \<noteq> k" if "0 < m" "m \<le> c" for m using that i by auto
    then have "heap_ok lt c v" using others by (simp add: heap_ok_def)
    then show ?thesis using False by (simp add: sift_down.simps)
  next
    case True
    define j where "j = (if i < c \<and> lt (v (i + 1)) (v i) then i + 1 else i)"
    have j: "j div 2 = k" "j \<le> c" "k < j" "0 < j" "i \<le> j"
      using True i less.prems(1) by (auto simp: j_def)
    have kid: "m = i \<or> m = i + 1" if "m div 2 = k" for m using that i by auto
    have least: "\<not> lt (v m) (v j)" if "0 < m" "m \<le> c" "m div 2 = k" for m
      using kid [OF that(3)] that(2) irrefl asym by (auto simp: j_def)
    show ?thesis
    proof (cases "lt (v j) (v k)")
      case False
      have "\<not> lt (v m) (v (m div 2))" if "0 < m" "m \<le> c" for m
        using others least neg_trans False that by metis
      then show ?thesis
        using True False j i less.prems(1)
        by (subst sift_down.simps) (simp add: heap_ok_def j_def [symmetric] Let_def)
    next
      case swap: True
      let ?v = "swap_at v j k"
      have "sift_down lt c v i = sift_down lt c ?v (2 * j)"
        using True swap j(1) i less.prems(1) unfolding sift_down.simps [of lt c v i] j_def [symmetric] Let_def
        by simp
      moreover have "heap_ok lt c (sift_down lt c ?v (2 * j))"
      proof (rule less.hyps [OF _ j(4) refl])
        show "Suc c - 2 * j < Suc c - i" using True j by auto
        show "\<forall>m. 0 < m \<and> m \<le> c \<and> m div 2 \<noteq> j \<longrightarrow> \<not> lt (?v m) (?v (m div 2))"
        proof (intro allI impI)
          fix m assume m: "0 < m \<and> m \<le> c \<and> m div 2 \<noteq> j"
          consider "m = j" | "m = k" | "m \<noteq> j" "m \<noteq> k" "m div 2 = k" | "m \<noteq> j" "m \<noteq> k" "m div 2 \<noteq> k"
            by blast
          then show "\<not> lt (?v m) (?v (m div 2))"
          proof cases
            case 1
            then show ?thesis using j swap asym by simp
          next
            case 2
            then have "m div 2 \<noteq> k" using less.prems(1) by simp
            then show ?thesis using 2 m j kids by simp
          next
            case 3
            then show ?thesis using m j least by simp
          next
            case 4
            then show ?thesis using m others by simp
          qed
        qed
        show "\<forall>m. 0 < m \<and> m \<le> c \<and> m div 2 = j \<longrightarrow> \<not> lt (?v m) (?v (j div 2))"
        proof (intro allI impI)
          fix m assume m: "0 < m \<and> m \<le> c \<and> m div 2 = j"
          then have "m \<noteq> j" "m \<noteq> k" "m div 2 \<noteq> k" using j by auto
          then show "\<not> lt (?v m) (?v (j div 2))" using m j others by auto
        qed
      qed
      ultimately show ?thesis by simp
    qed
  qed
qed

text \<open>Repairing upwards: only \<open>i\<close> and its parent may be out of order.\<close>

lemma sift_up_ok:
  assumes "\<forall>m. 0 < m \<and> m \<le> c \<and> m \<noteq> i \<longrightarrow> \<not> lt (v m) (v (m div 2))"
    and "\<forall>m. 0 < m \<and> m \<le> c \<and> m div 2 = i \<and> 0 < i \<longrightarrow> \<not> lt (v m) (v (i div 2))" and "i \<le> c"
  shows "heap_ok lt c (fst (sift_up lt v i))"
  using assms
proof (induction i arbitrary: v rule: less_induct)
  case (less i)
  note others = less.prems(1) and kids = less.prems(2)
  show ?case
  proof (cases "0 < i \<and> lt (v i) (v (i div 2))")
    case False
    then have "heap_ok lt c v" using others by (auto simp: heap_ok_def)
    then show ?thesis using False by (simp add: sift_up_stop)
  next
    case True
    let ?p = "i div 2" and ?v = "swap_at v i (i div 2)"
    have p: "?p < i" using True by simp
    have "sift_up lt v i = sift_up lt ?v ?p" using True by (simp add: sift_up_step)
    moreover have "heap_ok lt c (fst (sift_up lt ?v ?p))"
    proof (rule less.IH [OF p])
      show "\<forall>m. 0 < m \<and> m \<le> c \<and> m \<noteq> ?p \<longrightarrow> \<not> lt (?v m) (?v (m div 2))"
      proof (intro allI impI)
        fix m assume m: "0 < m \<and> m \<le> c \<and> m \<noteq> ?p"
        consider "m = i" | "m \<noteq> i" "m div 2 = i" | "m \<noteq> i" "m div 2 = ?p" | "m \<noteq> i" "m div 2 \<noteq> i" "m div 2 \<noteq> ?p"
          by blast
        then show "\<not> lt (?v m) (?v (m div 2))"
        proof cases
          case 1
          then show ?thesis using True p asym by simp
        next
          case 2
          then show ?thesis using m kids p True by simp
        next
          case 3
          then have "\<not> lt (v m) (v ?p)" using m others by metis
          then show ?thesis using 3 m p True neg_trans asym by (metis swap_at_simps)
        next
          case 4
          then show ?thesis using m others by simp
        qed
      qed
      show "\<forall>m. 0 < m \<and> m \<le> c \<and> m div 2 = ?p \<and> 0 < ?p \<longrightarrow> \<not> lt (?v m) (?v (?p div 2))"
      proof (intro allI impI)
        fix m assume m: "0 < m \<and> m \<le> c \<and> m div 2 = ?p \<and> 0 < ?p"
        have pp: "?p div 2 \<noteq> ?p" "?p div 2 \<noteq> i" "?p \<noteq> i" using m p by auto
        have top: "\<not> lt (v ?p) (v (?p div 2))" using m others pp less.prems(3) p by (meson less_le_trans nat_less_le)
        show "\<not> lt (?v m) (?v (?p div 2))"
        proof (cases "m = i")
          case True
          then show ?thesis using top pp by simp
        next
          case False
          then have "\<not> lt (v m) (v ?p)" using m others by metis
          moreover have "m \<noteq> ?p" using m by auto
          ultimately show ?thesis using top neg_trans False pp by (metis swap_at_simps)
        qed
      qed
      show "?p \<le> c" using p less.prems(3) by simp
    qed
    ultimately show ?thesis by simp
  qed
qed

lemma sift_up_top:
  "snd (sift_up lt v i) \<Longrightarrow> 0 < i \<Longrightarrow>
     fst (sift_up lt v i) 0 = v i \<and> fst (sift_up lt v i) 1 = v 0 \<and> lt (v i) (v 0)"
proof (induction i arbitrary: v rule: less_induct)
  case (less i)
  have step: "lt (v i) (v (i div 2))" using less.prems sift_up_stop [of i lt v] by (metis snd_conv less_irrefl)
  then have eq: "sift_up lt v i = sift_up lt (swap_at v i (i div 2)) (i div 2)"
    using less.prems by (simp add: sift_up_step)
  show ?case
  proof (cases "i div 2 = 0")
    case True
    then have "i = 1" using less.prems(2) by simp
    then show ?thesis using eq step by simp
  next
    case False
    then show ?thesis
      using less.IH [of "i div 2" "swap_at v i (i div 2)"] eq less.prems step by auto
  qed
qed

lemma sift_up_stays: "\<not> snd (sift_up lt v i) \<Longrightarrow> fst (sift_up lt v i) 0 = v 0"
proof (induction i arbitrary: v rule: less_induct)
  case (less i)
  show ?case
  proof (cases "0 < i \<and> lt (v i) (v (i div 2))")
    case True
    then have eq: "sift_up lt v i = sift_up lt (swap_at v i (i div 2)) (i div 2)" by (simp add: sift_up_step)
    then have "i div 2 \<noteq> 0" using less.prems sift_up_0 [of lt "swap_at v i (i div 2)"] by (metis snd_conv)
    then show ?thesis using less True eq by auto
  qed (simp add: sift_up_stop)
qed

lemma heap_ok_top: "heap_ok lt c v \<Longrightarrow> i \<le> c \<Longrightarrow> \<not> lt (v i) (v 0)"
proof (induction i rule: less_induct)
  case (less i)
  show ?case
  proof (cases "i = 0")
    case False
    then have "\<not> lt (v i) (v (i div 2))" "\<not> lt (v (i div 2)) (v 0)"
      using less by (auto simp: heap_ok_def)
    then show ?thesis using neg_trans by blast
  qed (simp add: irrefl)
qed

lemma heap_ok_first: "heap_ok lt c v \<Longrightarrow> 0 < i \<Longrightarrow> i \<le> c \<Longrightarrow> \<not> lt (v i) (v 1)"
proof (induction i rule: less_induct)
  case (less i)
  show ?case
  proof (cases "i = 1")
    case False
    then have "\<not> lt (v i) (v (i div 2))" "\<not> lt (v (i div 2)) (v 1)"
      using less by (auto simp: heap_ok_def)
    then show ?thesis using neg_trans by blast
  qed (simp add: irrefl)
qed

end

lemma sift_down_outside: "k = 0 \<or> c < k \<Longrightarrow> 2 \<le> i \<Longrightarrow> sift_down lt c v i k = v k"
proof (induction lt c v i rule: sift_down.induct)
  case (1 lt c v i)
  define j where "j = (if i < c \<and> lt (v (i + 1)) (v i) then i + 1 else i)"
  have j: "j \<noteq> k" "j div 2 \<noteq> k" "i \<le> j" if "i \<le> c" using "1.prems" that by (auto simp: j_def)
  show ?case
  proof (cases "i \<le> c \<and> lt (v j) (v (j div 2))")
    case True
    then have "sift_down lt c v i = sift_down lt c (swap_at v j (j div 2)) (2 * j)"
      using "1.prems"(2) unfolding sift_down.simps [of lt c v i] j_def [symmetric] Let_def by simp
    moreover have "sift_down lt c (swap_at v j (j div 2)) (2 * j) k = swap_at v j (j div 2) k"
      using "1.prems" True j by (intro "1.IH" [OF _ j_def]) auto
    ultimately show ?thesis using j True by simp
  next
    case False
    then show ?thesis unfolding sift_down.simps [of lt c v i] j_def [symmetric] Let_def by auto
  qed
qed

text \<open>
  Two sides share position 0.  \<open>a\<close> and \<open>b\<close> are the two views, with the order of \<open>b\<close> reversed.
\<close>

context strict_total
begin

abbreviation gt :: "'v \<Rightarrow> 'v \<Rightarrow> bool" where "gt x y \<equiv> lt y x"

lemma heap_ok_lower_top:
  assumes "heap_ok lt c a" "\<not> lt (a 0) y"
  shows "heap_ok lt c (a(0 := y))"
proof -
  have "\<not> lt (a i) y" if "0 < i" "i \<le> c" for i
    using heap_ok_top [OF assms(1) that(2)] assms(2) neg_trans by blast
  then show ?thesis using assms(1) by (auto simp: heap_ok_def)
qed

text \<open>The other side after the median was exchanged with its first element.\<close>

lemma push_to_other_side:
  assumes ok: "heap_ok gt d b" and y: "lt y (b 1)" and d: "0 < d"
  shows "heap_ok gt d (sift_down gt d (b(0 := b 1, 1 := y)) 2)"
proof (rule strict_total.sift_down_ok [OF dual, of 1])
  let ?b = "b(0 := b 1, 1 := y)"
  show "\<forall>m. 0 < m \<and> m \<le> d \<and> m div 2 \<noteq> 1 \<longrightarrow> \<not> gt (?b m) (?b (m div 2))"
  proof (intro allI impI)
    fix m assume m: "0 < m \<and> m \<le> d \<and> m div 2 \<noteq> 1"
    show "\<not> gt (?b m) (?b (m div 2))"
    proof (cases "m = 1")
      case True
      then show ?thesis using y asym by simp
    next
      case False
      then have "m div 2 \<noteq> 0" using m by auto
      then show ?thesis using False m ok by (auto simp: heap_ok_def)
    qed
  qed
  show "\<forall>m. 0 < m \<and> m \<le> d \<and> m div 2 = 1 \<longrightarrow> \<not> gt (?b m) (?b (1 div 2))"
  proof (intro allI impI)
    fix m assume m: "0 < m \<and> m \<le> d \<and> m div 2 = 1"
    then have "m \<noteq> 0" "m \<noteq> 1" by auto
    moreover have "\<not> gt (b m) (b 1)" using ok m unfolding heap_ok_def by metis
    ultimately show "\<not> gt (?b m) (?b (1 div 2))" by simp
  qed
qed simp_all

text \<open>A new or lowered element at position \<open>p\<close> of this side moves up, possibly past the median.\<close>

lemma raise_element:
  assumes up: "sift_up lt a p = (a', hit)" and p: "0 < p" "p \<le> c"
    and others: "\<forall>m. 0 < m \<and> m \<le> c \<and> m \<noteq> p \<longrightarrow> \<not> lt (a m) (a (m div 2))"
    and kids: "\<forall>m. 0 < m \<and> m \<le> c \<and> m div 2 = p \<longrightarrow> \<not> lt (a m) (a (p div 2))"
    and ok: "heap_ok gt d b" and eq: "a 0 = b 0"
  shows "heap_ok lt c a'"
    and "\<not> hit \<Longrightarrow> a' 0 = b 0"
    and "hit \<Longrightarrow> d = 0 \<or> \<not> lt (a' 0) (b 1) \<Longrightarrow> heap_ok gt d (b(0 := a' 0))"
    and "hit \<Longrightarrow> 0 < d \<Longrightarrow> lt (a' 0) (b 1) \<Longrightarrow>
      heap_ok lt c (a'(0 := b 1)) \<and> heap_ok gt d (sift_down gt d (b(0 := b 1, 1 := a' 0)) 2)"
proof -
  show hp: "heap_ok lt c a'" using sift_up_ok [OF others _ p(2)] kids up by simp
  show "\<not> hit \<Longrightarrow> a' 0 = b 0" using sift_up_stays [of a p] up eq by simp
  show "heap_ok gt d (b(0 := a' 0))" if "hit" "d = 0 \<or> \<not> lt (a' 0) (b 1)"
  proof -
    have "\<not> gt (b i) (a' 0)" if "0 < i" "i \<le> d" for i
    proof -
      have "\<not> lt (a' 0) (b 1)" using \<open>d = 0 \<or> \<not> lt (a' 0) (b 1)\<close> that by simp
      then show ?thesis using strict_total.heap_ok_first [OF dual ok that] neg_trans by blast
    qed
    then show ?thesis using ok by (auto simp: heap_ok_def)
  qed
  assume t: "hit" "0 < d" "lt (a' 0) (b 1)"
  have a1: "a' 1 = b 0" using sift_up_top [of a p] up p t(1) eq by simp
  have b1: "\<not> gt (b 1) (b 0)" using ok t(2) by (auto simp: heap_ok_def)
  have "\<not> lt (a' i) (b 1)" if "0 < i" "i \<le> c" for i
    using heap_ok_first [OF hp that] a1 b1 neg_trans by metis
  then have "heap_ok lt c (a'(0 := b 1))" using hp by (auto simp: heap_ok_def)
  then show "heap_ok lt c (a'(0 := b 1)) \<and> heap_ok gt d (sift_down gt d (b(0 := b 1, 1 := a' 0)) 2)"
    using push_to_other_side [OF ok t(3,2)] by simp
qed

text \<open>A raised element at position \<open>p\<close> moves down.\<close>

lemma sink_element:
  assumes ok: "heap_ok lt c a" and p: "0 < p" and y: "\<not> lt y (a p)" and pc: "p \<le> c"
  shows "heap_ok lt c (sift_down lt c (a(p := y)) (2 * p))"
proof (rule sift_down_ok [OF p refl])
  have h: "\<not> lt (a m) (a (m div 2))" if "0 < m" "m \<le> c" for m using ok that by (simp add: heap_ok_def)
  show "\<forall>m. 0 < m \<and> m \<le> c \<and> m div 2 \<noteq> p \<longrightarrow> \<not> lt ((a(p := y)) m) ((a(p := y)) (m div 2))"
  proof (intro allI impI)
    fix m assume m: "0 < m \<and> m \<le> c \<and> m div 2 \<noteq> p"
    then show "\<not> lt ((a(p := y)) m) ((a(p := y)) (m div 2))"
      using h [of m] neg_trans [OF y, of "a (m div 2)"] by (cases "m = p") auto
  qed
  show "\<forall>m. 0 < m \<and> m \<le> c \<and> m div 2 = p \<longrightarrow> \<not> lt ((a(p := y)) m) ((a(p := y)) (p div 2))"
  proof (intro allI impI)
    fix m assume m: "0 < m \<and> m \<le> c \<and> m div 2 = p"
    then have "m \<noteq> p" "p div 2 \<noteq> p" using p by auto
    moreover have "\<not> lt (a m) (a p)" "\<not> lt (a p) (a (p div 2))" using h m p pc by metis+
    ultimately show "\<not> lt ((a(p := y)) m) ((a(p := y)) (p div 2))"
      using neg_trans [of "a m" "a p" "a (p div 2)"] by simp
  qed
qed

text \<open>A lowered element at \<open>p\<close> satisfies what moving up needs.\<close>

lemma lowered_element:
  assumes ok: "heap_ok lt c a" and p: "0 < p" "p \<le> c" and y: "\<not> lt (a p) y"
  shows "\<forall>m. 0 < m \<and> m \<le> c \<and> m \<noteq> p \<longrightarrow> \<not> lt ((a(p := y)) m) ((a(p := y)) (m div 2))"
    and "\<forall>m. 0 < m \<and> m \<le> c \<and> m div 2 = p \<longrightarrow> \<not> lt ((a(p := y)) m) ((a(p := y)) (p div 2))"
proof -
  have h: "\<not> lt (a m) (a (m div 2))" if "0 < m" "m \<le> c" for m using ok that by (simp add: heap_ok_def)
  show "\<forall>m. 0 < m \<and> m \<le> c \<and> m \<noteq> p \<longrightarrow> \<not> lt ((a(p := y)) m) ((a(p := y)) (m div 2))"
  proof (intro allI impI)
    fix m assume m: "0 < m \<and> m \<le> c \<and> m \<noteq> p"
    then show "\<not> lt ((a(p := y)) m) ((a(p := y)) (m div 2))"
      using h [of m] neg_trans [OF _ y, of "a m"] by (cases "m div 2 = p") auto
  qed
  show "\<forall>m. 0 < m \<and> m \<le> c \<and> m div 2 = p \<longrightarrow> \<not> lt ((a(p := y)) m) ((a(p := y)) (p div 2))"
  proof (intro allI impI)
    fix m assume m: "0 < m \<and> m \<le> c \<and> m div 2 = p"
    then have "m \<noteq> p" "p div 2 \<noteq> p" using p by auto
    moreover have "\<not> lt (a m) (a p)" "\<not> lt (a p) (a (p div 2))" using h m p by metis+
    ultimately show "\<not> lt ((a(p := y)) m) ((a(p := y)) (p div 2))"
      using neg_trans [of "a m" "a p" "a (p div 2)"] by simp
  qed
qed

text \<open>A new leaf satisfies it too.\<close>

lemma new_leaf:
  assumes ok: "heap_ok lt c a"
  shows "\<forall>m. 0 < m \<and> m \<le> Suc c \<and> m \<noteq> Suc c \<longrightarrow> \<not> lt ((a(Suc c := y)) m) ((a(Suc c := y)) (m div 2))"
    and "\<forall>m. 0 < m \<and> m \<le> Suc c \<and> m div 2 = Suc c \<longrightarrow> \<not> lt ((a(Suc c := y)) m) ((a(Suc c := y)) (Suc c div 2))"
  using ok by (auto simp: heap_ok_def)

end

end
