(* ===== verification/Rolling_Median.thy ===== *)
theory Rolling_Median
  imports Heap_Order
begin

text \<open>
  The medians of epee: \<open>median\<close> of a vector (\<open>contrib/epee/include/misc_language.h\<close>) and
  \<open>rolling_median_t\<close> (\<open>contrib/epee/include/rolling_median.h\<close>), the median of the last \<open>N\<close> items kept
  in a max-heap and a min-heap around the median.  \<open>rm_heap\<close> maps heap positions (negative for the
  max-heap, 0 for the median, positive for the min-heap) to slots of the circular queue \<open>rm_data\<close>,
  \<open>rm_pos\<close> maps slots back to positions.  The only item type in use is \<open>uint64_t\<close>.
\<close>

section \<open>The median of a vector\<close>

definition get_mid :: "u64 \<Rightarrow> u64 \<Rightarrow> u64" where
  "get_mid a b = (a div 2) + (b div 2) + ((a - 2 * (a div 2)) + (b - 2 * (b div 2))) div 2"

definition median :: "u64 list \<Rightarrow> u64" where
  "median v =
     (if v = [] then 0
      else if length v = 1 then v ! 0
      else let n = length v div 2;
               v = sort v
           in if length v mod 2 \<noteq> 0 then v ! n else get_mid (v ! (n - 1)) (v ! n))"

section \<open>The rolling median\<close>

record rolling_median =
  rm_data :: "u64 list"
  rm_pos :: "nat \<Rightarrow> int"
  rm_heap :: "int \<Rightarrow> nat"
  rm_N :: nat
  rm_idx :: nat
  minCt :: int
  maxCt :: int
  rm_sz :: nat

text \<open>Division by two, truncated towards zero.\<close>

definition half :: "int \<Rightarrow> int" where
  "half i = (if i < 0 then - ((- i) div 2) else i div 2)"

definition mmless :: "rolling_median \<Rightarrow> int \<Rightarrow> int \<Rightarrow> bool" where
  "mmless rm i j \<longleftrightarrow> rm_data rm ! rm_heap rm i < rm_data rm ! rm_heap rm j"

definition mmexchange :: "rolling_median \<Rightarrow> int \<Rightarrow> int \<Rightarrow> rolling_median" where
  "mmexchange rm i j =
     (let h = (rm_heap rm)(i := rm_heap rm j, j := rm_heap rm i)
      in rm\<lparr>rm_heap := h, rm_pos := (rm_pos rm)(h i := i, h j := j)\<rparr>)"

definition mmCmpExch :: "rolling_median \<Rightarrow> int \<Rightarrow> int \<Rightarrow> bool \<times> rolling_median" where
  "mmCmpExch rm i j = (if mmless rm i j then (True, mmexchange rm i j) else (False, rm))"

lemma mmexchange_simps [simp]:
  "rm_data (mmexchange rm i j) = rm_data rm" "rm_N (mmexchange rm i j) = rm_N rm"
  "rm_idx (mmexchange rm i j) = rm_idx rm" "minCt (mmexchange rm i j) = minCt rm"
  "maxCt (mmexchange rm i j) = maxCt rm" "rm_sz (mmexchange rm i j) = rm_sz rm"
  "rm_heap (mmexchange rm i j) = swap_at (rm_heap rm) i j"
  by (simp_all add: mmexchange_def Let_def swap_at_def)

text \<open>
  The members \<open>N\<close>, \<open>idx\<close>, \<open>minCt\<close>, \<open>maxCt\<close> and \<open>sz\<close> and the heap positions are \<open>int\<close>s.  They are numbers here, and each sum or
  product the code makes of them is checked by \<open>i32\<close>, since signed overflow is undefined; halves, negations and steps towards a
  position within the counts cannot overflow.
\<close>

text \<open>The results of the two upward loops: whether the median changed, and the new state.\<close>

function minSortUp :: "rolling_median \<Rightarrow> int \<Rightarrow> bool \<times> rolling_median" where
  "minSortUp rm i =
     (if i > 0 then
        case mmCmpExch rm i (half i) of
          (True, rm) \<Rightarrow> minSortUp rm (half i)
        | (False, rm) \<Rightarrow> (i = 0, rm)
      else (i = 0, rm))"
  by pat_completeness auto
termination
  by (relation "measure (\<lambda>(rm, i). nat i)") (auto simp: half_def)

function maxSortUp :: "rolling_median \<Rightarrow> int \<Rightarrow> bool \<times> rolling_median" where
  "maxSortUp rm i =
     (if i < 0 then
        case mmCmpExch rm (half i) i of
          (True, rm) \<Rightarrow> maxSortUp rm (half i)
        | (False, rm) \<Rightarrow> (i = 0, rm)
      else (i = 0, rm))"
  by pat_completeness auto
termination
  by (relation "measure (\<lambda>(rm, i). nat (- i))") (auto simp: half_def)

declare minSortUp.simps [simp del] maxSortUp.simps [simp del]

text \<open>
  The loops of \<open>minSortDown\<close> and \<open>maxSortDown\<close>, from the doubled index; they are entered with a
  positive (negative) index only, which the guards make explicit.
\<close>

function minSortDown_loop :: "rolling_median \<Rightarrow> int \<Rightarrow> rolling_median option" where
  "minSortDown_loop rm i =
     (if 0 < i \<and> i \<le> minCt rm then
        let i = (if i < minCt rm \<and> mmless rm (i + 1) i then i + 1 else i)
        in case mmCmpExch rm i (half i) of
             (True, rm) \<Rightarrow> do { i \<leftarrow> i32 (i * 2); minSortDown_loop rm i }
           | (False, rm) \<Rightarrow> Some rm
      else Some rm)"
  by pat_completeness auto
termination
  by (relation "measure (\<lambda>(rm, i). nat (minCt rm + 1 - i))") (auto simp: mmCmpExch_def i32_def split: if_splits)

definition minSortDown :: "rolling_median \<Rightarrow> int \<Rightarrow> rolling_median option" where
  "minSortDown rm i = do { i \<leftarrow> i32 (i * 2); minSortDown_loop rm i }"

function maxSortDown_loop :: "rolling_median \<Rightarrow> int \<Rightarrow> rolling_median option" where
  "maxSortDown_loop rm i =
     (if i < 0 \<and> i \<ge> - maxCt rm then
        let i = (if i > - maxCt rm \<and> mmless rm i (i - 1) then i - 1 else i)
        in case mmCmpExch rm (half i) i of
             (True, rm) \<Rightarrow> do { i \<leftarrow> i32 (i * 2); maxSortDown_loop rm i }
           | (False, rm) \<Rightarrow> Some rm
      else Some rm)"
  by pat_completeness auto
termination
  by (relation "measure (\<lambda>(rm, i). nat (maxCt rm + 1 + i))") (auto simp: mmCmpExch_def i32_def split: if_splits)

definition maxSortDown :: "rolling_median \<Rightarrow> int \<Rightarrow> rolling_median option" where
  "maxSortDown rm i = do { i \<leftarrow> i32 (i * 2); maxSortDown_loop rm i }"

declare minSortDown_loop.simps [simp del] maxSortDown_loop.simps [simp del]

text \<open>The initial fill pattern: median, max, min, max, ...\<close>

definition fill_pos :: "nat \<Rightarrow> int" where
  "fill_pos n = int ((n + 1) div 2) * (if odd n then - 1 else 1)"

definition rm_clear :: "rolling_median \<Rightarrow> rolling_median" where
  "rm_clear rm = fold
     (\<lambda>n rm. rm\<lparr>rm_pos := (rm_pos rm)(n := fill_pos n), rm_heap := (rm_heap rm)(fill_pos n := n)\<rparr>)
     (rev [0..<rm_N rm]) (rm\<lparr>rm_idx := 0, minCt := 0, maxCt := 0, rm_sz := 0\<rparr>)"

text \<open>
  The memory is not initialised: \<open>d\<close>, \<open>p\<close> and \<open>h\<close> are what it held.  The size of the allocation, 16 bytes an item, is an \<open>int\<close> computed
  from the \<open>size_t\<close> argument: where it does not fit, the allocation fails or is smaller than the tables laid out in it, and the
  behaviour is undefined.
\<close>

definition new_rolling_median :: "u64 list \<Rightarrow> (nat \<Rightarrow> int) \<Rightarrow> (int \<Rightarrow> nat) \<Rightarrow> u64 \<Rightarrow> rolling_median option" where
  "new_rolling_median d p h N = do {
     size \<leftarrow> i32 (int (unat N) * (8 + 4 * 2));
     Some (rm_clear \<lparr>rm_data = vec_resize (unat N) 0 d, rm_pos = p, rm_heap = h, rm_N = unat N,
       rm_idx = 0, minCt = 0, maxCt = 0, rm_sz = 0\<rparr>) }"

text \<open>\<open>if (minSortUp(p) && mmCmpExch(0, -1)) maxSortDown(-1)\<close> and its counterpart.\<close>

definition raise_min :: "rolling_median \<Rightarrow> int \<Rightarrow> rolling_median option" where
  "raise_min rm p = (case minSortUp rm p of (changed, rm) \<Rightarrow>
     if changed then
       (case mmCmpExch rm 0 (- 1) of (True, rm) \<Rightarrow> maxSortDown rm (- 1) | (False, rm) \<Rightarrow> Some rm)
     else Some rm)"

definition raise_max :: "rolling_median \<Rightarrow> int \<Rightarrow> rolling_median option" where
  "raise_max rm p = (case maxSortUp rm p of (changed, rm) \<Rightarrow>
     if changed \<and> minCt rm \<noteq> 0 then
       (case mmCmpExch rm 1 0 of (True, rm) \<Rightarrow> minSortDown rm 1 | (False, rm) \<Rightarrow> Some rm)
     else Some rm)"

text \<open>With no capacity the remainder \<open>% N\<close> is undefined.\<close>

definition rm_insert :: "u64 \<Rightarrow> rolling_median \<Rightarrow> rolling_median option" where
  "rm_insert v rm =
     (if rm_N rm = 0 then None
      else do {
        let p = rm_pos rm (rm_idx rm);
        let old = rm_data rm ! rm_idx rm;
        next_idx \<leftarrow> i32 (int (rm_idx rm) + 1);
        next_sz \<leftarrow> i32 (int (rm_sz rm) + 1);
        let rm = rm\<lparr>rm_data := (rm_data rm)[rm_idx rm := v],
                    rm_idx := nat next_idx mod rm_N rm,
                    rm_sz := min (nat next_sz) (rm_N rm)\<rparr>;
        if p > 0 then
          if minCt rm < (int (rm_N rm) - 1) div 2 then do { m \<leftarrow> i32 (minCt rm + 1); raise_min (rm\<lparr>minCt := m\<rparr>) p }
          else if v > old then minSortDown rm p
          else raise_min rm p
        else if p < 0 then
          if maxCt rm < int (rm_N rm) div 2 then do { m \<leftarrow> i32 (maxCt rm + 1); raise_max (rm\<lparr>maxCt := m\<rparr>) p }
          else if v < old then maxSortDown rm p
          else raise_max rm p
        else do {
          rm \<leftarrow> (if maxCt rm \<noteq> 0 then
                  case maxSortUp rm (- 1) of (True, rm) \<Rightarrow> maxSortDown rm (- 1) | (False, rm) \<Rightarrow> Some rm
                else Some rm);
          if minCt rm \<noteq> 0 then
            case minSortUp rm 1 of (True, rm) \<Rightarrow> minSortDown rm 1 | (False, rm) \<Rightarrow> Some rm
          else Some rm } })"

definition rm_median :: "rolling_median \<Rightarrow> u64 option" where
  "rm_median rm = do {
     v \<leftarrow> vec_at (rm_data rm) (rm_heap rm 0);
     if minCt rm < maxCt rm then do {
       w \<leftarrow> vec_at (rm_data rm) (rm_heap rm (- 1));
       Some (get_mid v w) }
     else Some v }"

section \<open>The routines without the width of int\<close>

text \<open>
  The heaps are repaired by the following functions, which take the same steps on unbounded integers.  With a capacity that could be allocated
  no step overflows, and the code does what they do.
\<close>

function min_sink_loop :: "rolling_median \<Rightarrow> int \<Rightarrow> rolling_median" where
  "min_sink_loop rm i =
     (if 0 < i \<and> i \<le> minCt rm then
        let i = (if i < minCt rm \<and> mmless rm (i + 1) i then i + 1 else i)
        in case mmCmpExch rm i (half i) of
             (True, rm) \<Rightarrow> min_sink_loop rm (i * 2)
           | (False, rm) \<Rightarrow> rm
      else rm)"
  by pat_completeness auto
termination
  by (relation "measure (\<lambda>(rm, i). nat (minCt rm + 1 - i))") (auto simp: mmCmpExch_def split: if_splits)

definition min_sink :: "rolling_median \<Rightarrow> int \<Rightarrow> rolling_median" where
  "min_sink rm i = min_sink_loop rm (i * 2)"

function max_sink_loop :: "rolling_median \<Rightarrow> int \<Rightarrow> rolling_median" where
  "max_sink_loop rm i =
     (if i < 0 \<and> i \<ge> - maxCt rm then
        let i = (if i > - maxCt rm \<and> mmless rm i (i - 1) then i - 1 else i)
        in case mmCmpExch rm (half i) i of
             (True, rm) \<Rightarrow> max_sink_loop rm (i * 2)
           | (False, rm) \<Rightarrow> rm
      else rm)"
  by pat_completeness auto
termination
  by (relation "measure (\<lambda>(rm, i). nat (maxCt rm + 1 + i))") (auto simp: mmCmpExch_def split: if_splits)

definition max_sink :: "rolling_median \<Rightarrow> int \<Rightarrow> rolling_median" where
  "max_sink rm i = max_sink_loop rm (i * 2)"

declare min_sink_loop.simps [simp del] max_sink_loop.simps [simp del]

definition ins_ideal :: "u64 \<Rightarrow> rolling_median \<Rightarrow> rolling_median option" where
  "ins_ideal v rm =
     (if rm_N rm = 0 then None
      else
        let p = rm_pos rm (rm_idx rm);
            old = rm_data rm ! rm_idx rm;
            rm = rm\<lparr>rm_data := (rm_data rm)[rm_idx rm := v],
                    rm_idx := (rm_idx rm + 1) mod rm_N rm,
                    rm_sz := min (rm_sz rm + 1) (rm_N rm)\<rparr>
        in Some (
          if p > 0 then
            (if \<not> minCt rm < (int (rm_N rm) - 1) div 2 \<and> v > old then min_sink rm p
             else
               let rm = (if minCt rm < (int (rm_N rm) - 1) div 2 then rm\<lparr>minCt := minCt rm + 1\<rparr> else rm);
                   (changed, rm) = minSortUp rm p
               in if changed then
                    (case mmCmpExch rm 0 (- 1) of (True, rm) \<Rightarrow> max_sink rm (- 1) | (False, rm) \<Rightarrow> rm)
                  else rm)
          else if p < 0 then
            (if \<not> maxCt rm < int (rm_N rm) div 2 \<and> v < old then max_sink rm p
             else
               let rm = (if maxCt rm < int (rm_N rm) div 2 then rm\<lparr>maxCt := maxCt rm + 1\<rparr> else rm);
                   (changed, rm) = maxSortUp rm p
               in if changed \<and> minCt rm \<noteq> 0 then
                    (case mmCmpExch rm 1 0 of (True, rm) \<Rightarrow> min_sink rm 1 | (False, rm) \<Rightarrow> rm)
                  else rm)
          else
            let rm = (if maxCt rm \<noteq> 0 then
                        case maxSortUp rm (- 1) of (True, rm) \<Rightarrow> max_sink rm (- 1) | (False, rm) \<Rightarrow> rm
                      else rm)
            in (if minCt rm \<noteq> 0 then
                  case minSortUp rm 1 of (True, rm) \<Rightarrow> min_sink rm 1 | (False, rm) \<Rightarrow> rm
                else rm)))"

section \<open>The vector median\<close>

lemma unat_get_mid: "unat (get_mid a b) = (unat a + unat b) div 2"
proof -
  have half: "unat (x div 2) = unat x div 2" for x :: u64 by (simp add: unat_div)
  have rem: "unat (x - 2 * (x div 2)) = unat x mod 2" for x :: u64
    by (simp add: minus_mult_div_eq_mod unat_mod)
  have eq: "x div 2 + y div 2 + (x mod 2 + y mod 2) div 2 = (x + y) div 2" for x y :: nat by presburger
  have lt: "unat a mod 2 + unat b mod 2 < 2 ^ 64" by simp
  have lt2: "(unat a + unat b) div 2 < 2 ^ 64" using unat_lt_u64 [of a] unat_lt_u64 [of b] by simp
  have lt3: "unat a div 2 + unat b div 2 < 2 ^ 64" using unat_lt_u64 [of a] unat_lt_u64 [of b] by simp
  have "unat ((a - 2 * (a div 2) + (b - 2 * (b div 2))) div 2) = (unat a mod 2 + unat b mod 2) div 2"
    using lt by (simp add: unat_div unat_add_exact rem)
  moreover have "unat (a div 2 + b div 2) = unat a div 2 + unat b div 2"
    using lt3 by (simp add: unat_add_exact half)
  ultimately have "unat (get_mid a b) = unat a div 2 + unat b div 2 + (unat a mod 2 + unat b mod 2) div 2"
    unfolding get_mid_def using lt2 eq [of "unat a" "unat b"] by (subst unat_add_exact) simp_all
  then show ?thesis by (simp add: eq)
qed

lemma get_mid_commute: "get_mid a b = get_mid b a"
  by (simp add: word_unat_eq_iff unat_get_mid add.commute)

section \<open>Exchanges\<close>

definition rm_val :: "rolling_median \<Rightarrow> int \<Rightarrow> u64" where
  "rm_val rm i = rm_data rm ! rm_heap rm i"

definition minv :: "rolling_median \<Rightarrow> nat \<Rightarrow> u64" where
  "minv rm j = rm_val rm (int j)"

definition maxv :: "rolling_median \<Rightarrow> nat \<Rightarrow> u64" where
  "maxv rm j = rm_val rm (- int j)"

definition active :: "rolling_median \<Rightarrow> int \<Rightarrow> bool" where
  "active rm i \<longleftrightarrow> - maxCt rm \<le> i \<and> i \<le> minCt rm"

definition in_range :: "rolling_median \<Rightarrow> int \<Rightarrow> bool" where
  "in_range rm i \<longleftrightarrow> - int (rm_N rm div 2) \<le> i \<and> i \<le> int ((rm_N rm - 1) div 2)"

text \<open>Positions and slots are inverse to each other, and the counts are within the storage.\<close>

definition rm_bij :: "rolling_median \<Rightarrow> bool" where
  "rm_bij rm \<longleftrightarrow> length (rm_data rm) = rm_N rm
     \<and> 0 \<le> minCt rm \<and> in_range rm (minCt rm) \<and> 0 \<le> maxCt rm \<and> in_range rm (- maxCt rm)
     \<and> (\<forall>n < rm_N rm. in_range rm (rm_pos rm n) \<and> rm_heap rm (rm_pos rm n) = n)
     \<and> (\<forall>i. in_range rm i \<longrightarrow> rm_heap rm i < rm_N rm \<and> rm_pos rm (rm_heap rm i) = i)"

text \<open>What the sorting steps do to the state: they permute active positions.\<close>

definition shuffled :: "rolling_median \<Rightarrow> rolling_median \<Rightarrow> bool" where
  "shuffled rm rm' \<longleftrightarrow> rm_data rm' = rm_data rm \<and> rm_N rm' = rm_N rm \<and> rm_idx rm' = rm_idx rm
     \<and> minCt rm' = minCt rm \<and> maxCt rm' = maxCt rm \<and> rm_sz rm' = rm_sz rm
     \<and> (rm_bij rm \<longrightarrow> rm_bij rm' \<and> (\<forall>n < rm_N rm. active rm (rm_pos rm' n) = active rm (rm_pos rm n)
          \<and> (\<not> active rm (rm_pos rm n) \<longrightarrow> rm_pos rm' n = rm_pos rm n)))"

lemma shuffled_refl [simp]: "shuffled rm rm"
  by (simp add: shuffled_def)

lemma active_cong: "minCt rm' = minCt rm \<Longrightarrow> maxCt rm' = maxCt rm \<Longrightarrow> active rm' = active rm"
  by (rule ext) (simp add: active_def)

lemma shuffled_trans: "shuffled r1 r2 \<Longrightarrow> shuffled r2 r3 \<Longrightarrow> shuffled r1 r3"
  using active_cong [of r2 r1] by (simp add: shuffled_def)

lemma shuffled_bij: "shuffled rm rm' \<Longrightarrow> rm_bij rm \<Longrightarrow> rm_bij rm'"
  by (simp add: shuffled_def)

lemma shuffled_cts: "shuffled rm rm' \<Longrightarrow> minCt rm' = minCt rm \<and> maxCt rm' = maxCt rm"
  by (simp add: shuffled_def)

lemma mmexchange_pos:
  assumes bij: "rm_bij rm" and ij: "in_range rm i" "in_range rm j" and n: "n < rm_N rm"
  shows "rm_pos (mmexchange rm i j) n =
    (if n = rm_heap rm i then j else if n = rm_heap rm j then i else rm_pos rm n)"
  using assms by (auto simp: mmexchange_def Let_def rm_bij_def)

lemma shuffled_mmexchange:
  assumes act: "active rm i" "active rm j" and cts: "rm_bij rm"
  shows "shuffled rm (mmexchange rm i j)"
proof -
  let ?r = "mmexchange rm i j"
  have r: "in_range rm k" if "active rm k" for k
    using that cts by (auto simp: active_def rm_bij_def in_range_def)
  have ij: "in_range rm i" "in_range rm j" using act r by auto
  have inr: "in_range ?r = in_range rm" by (rule ext) (simp add: in_range_def)
  have heap: "rm_heap rm k < rm_N rm" "rm_pos rm (rm_heap rm k) = k" if "in_range rm k" for k
    using that cts by (auto simp: rm_bij_def)
  have pos: "in_range rm (rm_pos rm n)" "rm_heap rm (rm_pos rm n) = n" if "n < rm_N rm" for n
    using that cts by (auto simp: rm_bij_def)
  define hi hj where "hi = rm_heap rm i" and "hj = rm_heap rm j"
  have hh: "hi < rm_N rm" "hj < rm_N rm" "rm_pos rm hi = i" "rm_pos rm hj = j" "hi = hj \<longleftrightarrow> i = j"
    unfolding hi_def hj_def using heap ij by metis+
  have pe: "rm_pos ?r n = (if n = hi then j else if n = hj then i else rm_pos rm n)" if "n < rm_N rm" for n
    unfolding hi_def hj_def by (rule mmexchange_pos [OF cts ij that])
  have he: "rm_heap ?r k = (if k = i then hj else if k = j then hi else rm_heap rm k)" for k
    by (simp add: hi_def hj_def swap_at_def)
  have "in_range rm (rm_pos ?r n) \<and> rm_heap ?r (rm_pos ?r n) = n" if n: "n < rm_N rm" for n
    using pos [OF n] ij hh hi_def hj_def unfolding pe [OF n] he by (cases "n = hi"; cases "n = hj") auto
  moreover have "rm_heap ?r k < rm_N rm \<and> rm_pos ?r (rm_heap ?r k) = k" if k: "in_range rm k" for k
  proof -
    have "rm_heap ?r k < rm_N rm" unfolding he using heap(1) [OF k] hh by simp
    moreover have "rm_pos ?r (rm_heap ?r k) = k"
      unfolding pe [OF calculation] unfolding he using heap(2) [OF k] hh by auto
    ultimately show ?thesis by blast
  qed
  ultimately have "rm_bij ?r" using cts unfolding rm_bij_def inr by simp
  moreover have "active rm (rm_pos ?r n) = active rm (rm_pos rm n)
      \<and> (\<not> active rm (rm_pos rm n) \<longrightarrow> rm_pos ?r n = rm_pos rm n)" if n: "n < rm_N rm" for n
    unfolding pe [OF n] using act hh by auto
  ultimately show ?thesis by (simp add: shuffled_def)
qed

lemma rm_val_exchange: "rm_val (mmexchange rm i j) = swap_at (rm_val rm) i j"
  by (rule ext) (auto simp: rm_val_def swap_at_def)

lemma mmless_val: "mmless rm i j \<longleftrightarrow> rm_val rm i < rm_val rm j"
  by (simp add: mmless_def rm_val_def)

lemma minv_exchange: "minv (mmexchange rm (int i) (int j)) = swap_at (minv rm) i j"
  by (rule ext) (auto simp: minv_def rm_val_exchange swap_at_def)

lemma maxv_exchange: "maxv (mmexchange rm (- int i) (- int j)) = swap_at (maxv rm) i j"
  by (rule ext) (auto simp: maxv_def rm_val_exchange swap_at_def)

lemma other_side_exchange:
  "0 < i \<Longrightarrow> 0 < k \<Longrightarrow> maxv (mmexchange rm (int i) (int j)) k = maxv rm k"
  "0 < i \<Longrightarrow> 0 < k \<Longrightarrow> minv (mmexchange rm (- int j) (- int i)) k = minv rm k"
  by (auto simp: maxv_def minv_def rm_val_exchange swap_at_def)

lemma swap_at_commute: "swap_at v i j = swap_at v j i"
  by (rule ext) (auto simp: swap_at_def)

lemma half_nat [simp]: "half (int i) = int (i div 2)" "half (- int i) = - int (i div 2)"
  by (auto simp: half_def zdiv_int)

section \<open>The sorting loops refine the sifting of one side\<close>

interpretation minside: strict_total "(<) :: u64 \<Rightarrow> u64 \<Rightarrow> bool"
  by unfold_locales auto

interpretation maxside: strict_total "(>) :: u64 \<Rightarrow> u64 \<Rightarrow> bool"
  by unfold_locales auto

lemma min_sink_loop_spec:
  assumes "rm_bij rm" "0 < i"
  shows "shuffled rm (min_sink_loop rm (int i))
    \<and> minv (min_sink_loop rm (int i)) = sift_down (<) (nat (minCt rm)) (minv rm) i
    \<and> (\<forall>k > 0. maxv (min_sink_loop rm (int i)) k = maxv rm k)"
  using assms
proof (induction "Suc (nat (minCt rm)) - i" arbitrary: rm i rule: less_induct)
  case less
  show ?case
  proof (cases "int i \<le> minCt rm")
    case False
    then have "\<not> i \<le> nat (minCt rm)" using less.prems(2) by linarith
    then show ?thesis using False unfolding min_sink_loop.simps [of rm "int i"] sift_down.simps [of _ _ _ i] by simp
  next
    case True
    let ?c = "nat (minCt rm)"
    define j where "j = (if i < ?c \<and> minv rm (i + 1) < minv rm i then i + 1 else i)"
    have ji: "i \<le> j" "j \<le> ?c" "0 < j" using True less.prems(2) by (auto simp: j_def)
    have jj: "(if int i < minCt rm \<and> mmless rm (int i + 1) (int i) then int i + 1 else int i) = int j"
      by (auto simp: j_def mmless_val minv_def algebra_simps)
    have lt: "mmless rm (int j) (int (j div 2)) \<longleftrightarrow> minv rm j < minv rm (j div 2)"
      by (simp add: mmless_val minv_def)
    show ?thesis
    proof (cases "minv rm j < minv rm (j div 2)")
      case False
      then have "min_sink_loop rm (int i) = rm"
        using True less.prems(2) lt by (subst min_sink_loop.simps) (simp add: jj mmCmpExch_def)
      moreover have "sift_down (<) ?c (minv rm) i = minv rm"
        using False unfolding sift_down.simps [of "(<)" ?c "minv rm" i] j_def [symmetric] Let_def by simp
      ultimately show ?thesis by simp
    next
      case swap: True
      let ?r = "mmexchange rm (int j) (int (j div 2))"
      have act: "active rm (int j)" "active rm (int (j div 2))"
        using ji less.prems(1) by (auto simp: active_def rm_bij_def)
      note sh = shuffled_mmexchange [OF act less.prems(1)]
      have eq: "min_sink_loop rm (int i) = min_sink_loop ?r (int (2 * j))"
        using True less.prems(2) lt swap
        by (subst min_sink_loop.simps) (simp add: jj mmCmpExch_def mult.commute Let_def)
      have eq2: "sift_down (<) ?c (minv rm) i = sift_down (<) ?c (swap_at (minv rm) j (j div 2)) (2 * j)"
        using ji swap less.prems(2) unfolding sift_down.simps [of "(<)" ?c "minv rm" i] j_def [symmetric] Let_def by simp
      have "shuffled ?r (min_sink_loop ?r (int (2 * j)))
          \<and> minv (min_sink_loop ?r (int (2 * j))) = sift_down (<) (nat (minCt ?r)) (minv ?r) (2 * j)
          \<and> (\<forall>k > 0. maxv (min_sink_loop ?r (int (2 * j))) k = maxv ?r k)"
        using ji less.prems shuffled_bij [OF sh less.prems(1)] True by (intro less.hyps) auto
      then show ?thesis
        using eq eq2 shuffled_trans [OF sh] other_side_exchange(1) [OF ji(3)] by (simp add: minv_exchange)
    qed
  qed
qed

lemma max_sink_loop_spec:
  assumes "rm_bij rm" "0 < i"
  shows "shuffled rm (max_sink_loop rm (- int i))
    \<and> maxv (max_sink_loop rm (- int i)) = sift_down (>) (nat (maxCt rm)) (maxv rm) i
    \<and> (\<forall>k > 0. minv (max_sink_loop rm (- int i)) k = minv rm k)"
  using assms
proof (induction "Suc (nat (maxCt rm)) - i" arbitrary: rm i rule: less_induct)
  case less
  show ?case
  proof (cases "int i \<le> maxCt rm")
    case False
    then have "\<not> i \<le> nat (maxCt rm)" using less.prems(2) by linarith
    then show ?thesis using False unfolding max_sink_loop.simps [of rm "- int i"] sift_down.simps [of _ _ _ i] by simp
  next
    case True
    let ?c = "nat (maxCt rm)"
    define j where "j = (if i < ?c \<and> maxv rm (i + 1) > maxv rm i then i + 1 else i)"
    have ji: "i \<le> j" "j \<le> ?c" "0 < j" using True less.prems(2) by (auto simp: j_def)
    have jj: "(if - int i > - maxCt rm \<and> mmless rm (- int i) (- int i - 1) then - int i - 1 else - int i) = - int j"
    proof -
      have m: "maxv rm (i + 1) = rm_val rm (- int i - 1)" "maxv rm i = rm_val rm (- int i)"
        unfolding maxv_def by (rule arg_cong [of _ _ "rm_val rm"], simp)+
      show ?thesis unfolding j_def m by (auto simp: mmless_val)
    qed
    have lt: "mmless rm (- int (j div 2)) (- int j) \<longleftrightarrow> maxv rm j > maxv rm (j div 2)"
      by (simp add: mmless_val maxv_def)
    show ?thesis
    proof (cases "maxv rm j > maxv rm (j div 2)")
      case False
      then have "max_sink_loop rm (- int i) = rm"
        using True less.prems(2) lt unfolding max_sink_loop.simps [of rm "- int i"] jj
        by (simp add: mmCmpExch_def Let_def)
      moreover have "sift_down (>) ?c (maxv rm) i = maxv rm"
        using False unfolding sift_down.simps [of "(>)" ?c "maxv rm" i] j_def [symmetric] Let_def by simp
      ultimately show ?thesis by simp
    next
      case swap: True
      let ?r = "mmexchange rm (- int (j div 2)) (- int j)"
      have act: "active rm (- int (j div 2))" "active rm (- int j)"
        using ji less.prems(1) by (auto simp: active_def rm_bij_def)
      note sh = shuffled_mmexchange [OF act less.prems(1)]
      have eq: "max_sink_loop rm (- int i) = max_sink_loop ?r (- int (2 * j))"
        using True less.prems(2) lt swap unfolding max_sink_loop.simps [of rm "- int i"] jj
        by (simp add: mmCmpExch_def mult.commute Let_def)
      have eq2: "sift_down (>) ?c (maxv rm) i = sift_down (>) ?c (swap_at (maxv rm) (j div 2) j) (2 * j)"
        using ji swap less.prems(2) unfolding sift_down.simps [of "(>)" ?c "maxv rm" i] j_def [symmetric] Let_def
        by (simp add: swap_at_commute)
      have "shuffled ?r (max_sink_loop ?r (- int (2 * j)))
          \<and> maxv (max_sink_loop ?r (- int (2 * j))) = sift_down (>) (nat (maxCt ?r)) (maxv ?r) (2 * j)
          \<and> (\<forall>k > 0. minv (max_sink_loop ?r (- int (2 * j))) k = minv ?r k)"
        using ji less.prems shuffled_bij [OF sh less.prems(1)] True by (intro less.hyps) auto
      then show ?thesis
        using eq eq2 shuffled_trans [OF sh] other_side_exchange(2) [OF ji(3)] by (simp add: maxv_exchange)
    qed
  qed
qed

lemma minSortUp_spec:
  assumes "rm_bij rm" "int i \<le> minCt rm" "minSortUp rm (int i) = (hit, rm')"
  shows "shuffled rm rm' \<and> (minv rm', hit) = sift_up (<) (minv rm) i \<and> (\<forall>k > 0. maxv rm' k = maxv rm k)"
  using assms
proof (induction i arbitrary: rm rule: less_induct)
  case (less i)
  have lt: "mmless rm (int i) (int (i div 2)) \<longleftrightarrow> minv rm i < minv rm (i div 2)"
    by (simp add: mmless_val minv_def)
  show ?case
  proof (cases "0 < i \<and> minv rm i < minv rm (i div 2)")
    case False
    then have "minSortUp rm (int i) = (i = 0, rm)"
      using lt by (subst minSortUp.simps) (auto simp: mmCmpExch_def)
    then show ?thesis using less.prems(3) sift_up_stop [of i "(<)" "minv rm"] False by simp
  next
    case True
    let ?r = "mmexchange rm (int i) (int (i div 2))"
    have act: "active rm (int i)" "active rm (int (i div 2))"
      using less.prems(1,2) by (auto simp: active_def rm_bij_def)
    note sh = shuffled_mmexchange [OF act less.prems(1)]
    have "minSortUp ?r (int (i div 2)) = (hit, rm')"
      using less.prems(3) True lt by (subst (asm) minSortUp.simps) (simp add: mmCmpExch_def)
    then have "shuffled ?r rm' \<and> (minv rm', hit) = sift_up (<) (minv ?r) (i div 2) \<and> (\<forall>k > 0. maxv rm' k = maxv ?r k)"
      using True less.prems(2) shuffled_bij [OF sh less.prems(1)] by (intro less.IH) auto
    then show ?thesis
      using True shuffled_trans [OF sh] other_side_exchange(1) [of i] sift_up_step [of i "(<)" "minv rm"]
      by (simp add: minv_exchange)
  qed
qed

lemma maxSortUp_spec:
  assumes "rm_bij rm" "int i \<le> maxCt rm" "maxSortUp rm (- int i) = (hit, rm')"
  shows "shuffled rm rm' \<and> (maxv rm', hit) = sift_up (>) (maxv rm) i \<and> (\<forall>k > 0. minv rm' k = minv rm k)"
  using assms
proof (induction i arbitrary: rm rule: less_induct)
  case (less i)
  have lt: "mmless rm (- int (i div 2)) (- int i) \<longleftrightarrow> maxv rm i > maxv rm (i div 2)"
    by (simp add: mmless_val maxv_def)
  show ?case
  proof (cases "0 < i \<and> maxv rm i > maxv rm (i div 2)")
    case False
    then have "maxSortUp rm (- int i) = (i = 0, rm)"
      using lt by (subst maxSortUp.simps) (auto simp: mmCmpExch_def)
    then show ?thesis using less.prems(3) sift_up_stop [of i "(>)" "maxv rm"] False by simp
  next
    case True
    let ?r = "mmexchange rm (- int (i div 2)) (- int i)"
    have act: "active rm (- int (i div 2))" "active rm (- int i)"
      using less.prems(1,2) by (auto simp: active_def rm_bij_def)
    note sh = shuffled_mmexchange [OF act less.prems(1)]
    have "maxSortUp ?r (- int (i div 2)) = (hit, rm')"
      using less.prems(3) True lt by (subst (asm) maxSortUp.simps) (simp add: mmCmpExch_def)
    then have "shuffled ?r rm' \<and> (maxv rm', hit) = sift_up (>) (maxv ?r) (i div 2) \<and> (\<forall>k > 0. minv rm' k = minv ?r k)"
      using True less.prems(2) shuffled_bij [OF sh less.prems(1)] by (intro less.IH) auto
    then show ?thesis
      using True shuffled_trans [OF sh] other_side_exchange(2) [of i] sift_up_step [of i "(>)" "maxv rm"]
      by (simp add: maxv_exchange swap_at_commute)
  qed
qed

section \<open>Restoring the order\<close>

definition ordered :: "rolling_median \<Rightarrow> bool" where
  "ordered rm \<longleftrightarrow> heap_ok (<) (nat (minCt rm)) (minv rm) \<and> heap_ok (>) (nat (maxCt rm)) (maxv rm)"

lemma views_meet [simp]: "minv rm 0 = rm_val rm 0" "maxv rm 0 = rm_val rm 0"
  by (simp_all add: minv_def maxv_def)

lemma view_from_other:
  "(\<forall>k > 0. maxv rm' k = maxv rm k) \<Longrightarrow> maxv rm' = (maxv rm)(0 := minv rm' 0)"
  "(\<forall>k > 0. minv rm' k = minv rm k) \<Longrightarrow> minv rm' = (minv rm)(0 := maxv rm' 0)"
  by (auto simp: fun_eq_iff)

lemma exchange_median:
  "maxv (mmexchange rm 0 (- 1)) = (maxv rm)(0 := maxv rm 1, 1 := maxv rm 0)"
  "minv (mmexchange rm 0 (- 1)) = (minv rm)(0 := maxv rm 1)"
  "minv (mmexchange rm 1 0) = (minv rm)(0 := minv rm 1, 1 := minv rm 0)"
  "maxv (mmexchange rm 1 0) = (maxv rm)(0 := minv rm 1)"
  by (auto simp: minv_def maxv_def rm_val_exchange swap_at_def fun_eq_iff)

lemma max_sink_top:
  assumes "rm_bij rm"
  shows "shuffled rm (max_sink rm (- 1)) \<and> maxv (max_sink rm (- 1)) = sift_down (>) (nat (maxCt rm)) (maxv rm) 2
    \<and> minv (max_sink rm (- 1)) = minv rm"
proof -
  note l = max_sink_loop_spec [OF assms, of 2]
  have eq: "max_sink rm (- 1) = max_sink_loop rm (- int 2)" by (simp add: max_sink_def)
  have "rm_val (max_sink rm (- 1)) 0 = rm_val rm 0"
    using l sift_down_outside [of 0 "nat (maxCt rm)" 2 "(>)" "maxv rm"] eq
    by (metis (no_types, lifting) views_meet(2) order_refl zero_less_numeral)
  then have "minv (max_sink rm (- 1)) k = minv rm k" for k
    using l eq by (cases "k = 0") auto
  then show ?thesis using l eq by (auto simp: fun_eq_iff)
qed

lemma min_sink_top:
  assumes "rm_bij rm"
  shows "shuffled rm (min_sink rm 1) \<and> minv (min_sink rm 1) = sift_down (<) (nat (minCt rm)) (minv rm) 2
    \<and> maxv (min_sink rm 1) = maxv rm"
proof -
  note l = min_sink_loop_spec [OF assms, of 2]
  have eq: "min_sink rm 1 = min_sink_loop rm (int 2)" by (simp add: min_sink_def)
  have "rm_val (min_sink rm 1) 0 = rm_val rm 0"
    using l sift_down_outside [of 0 "nat (minCt rm)" 2 "(<)" "minv rm"] eq
    by (metis (no_types, lifting) views_meet(1) order_refl zero_less_numeral)
  then have "maxv (min_sink rm 1) k = maxv rm k" for k
    using l eq by (cases "k = 0") auto
  then show ?thesis using l eq by (auto simp: fun_eq_iff)
qed

lemma after_min_up:
  assumes bij: "rm_bij rm" and q: "0 < q" "int q \<le> minCt rm" and d: "0 < maxCt rm"
    and others: "\<forall>m. 0 < m \<and> m \<le> nat (minCt rm) \<and> m \<noteq> q \<longrightarrow> \<not> minv rm m < minv rm (m div 2)"
    and kids: "\<forall>m. 0 < m \<and> m \<le> nat (minCt rm) \<and> m div 2 = q \<longrightarrow> \<not> minv rm m < minv rm (q div 2)"
    and ok: "heap_ok (>) (nat (maxCt rm)) (maxv rm)"
  defines "r \<equiv> (case minSortUp rm (int q) of (changed, rm) \<Rightarrow>
      if changed then
        (case mmCmpExch rm 0 (- 1) of (True, rm) \<Rightarrow> max_sink rm (- 1) | (False, rm) \<Rightarrow> rm)
      else rm)"
  shows "shuffled rm r \<and> ordered r"
proof -
  obtain hit r2 where up: "minSortUp rm (int q) = (hit, r2)" by (cases "minSortUp rm (int q)")
  note u = minSortUp_spec [OF bij q(2) up]
  have sh: "shuffled rm r2" and sift: "sift_up (<) (minv rm) q = (minv r2, hit)"
    and mx: "maxv r2 = (maxv rm)(0 := minv r2 0)"
    using u view_from_other(1) [of r2 rm] by auto
  have ct: "minCt r2 = minCt rm" "maxCt r2 = maxCt rm" using shuffled_cts [OF sh] by auto
  have bij2: "rm_bij r2" using shuffled_bij [OF sh bij] .
  have qc: "q \<le> nat (minCt rm)" using q by linarith
  have meet: "minv rm 0 = maxv rm 0" by simp
  note rs = minside.raise_element [OF sift q(1) qc others kids ok meet]
  have d': "0 < nat (maxCt rm)" using d by simp
  consider "\<not> hit" | "hit" "\<not> minv r2 0 < maxv rm 1" | "hit" "minv r2 0 < maxv rm 1" by blast
  then show ?thesis
  proof cases
    case 1
    then have "maxv r2 = maxv rm" using rs(2) mx by auto
    then show ?thesis using 1 rs(1) sh ok ct up by (simp add: r_def ordered_def)
  next
    case 2
    have "maxv r2 1 = maxv rm 1" by (simp add: mx)
    with 2 have "\<not> mmless r2 0 (- 1)" by (simp add: mmless_val minv_def maxv_def)
    with 2 have "r = r2" by (simp add: r_def up mmCmpExch_def)
    moreover have "heap_ok (>) (nat (maxCt rm)) (maxv r2)" unfolding mx using 2 rs(3) by simp
    ultimately show ?thesis using rs(1) sh ct by (simp add: ordered_def)
  next
    case 3
    let ?r3 = "mmexchange r2 0 (- 1)"
    have m1: "maxv r2 1 = maxv rm 1" by (simp add: mx)
    have lt: "mmless r2 0 (- 1)" using 3 m1 by (simp add: mmless_val minv_def maxv_def)
    have act: "active r2 0" "active r2 (- 1)" using bij2 ct d by (auto simp: active_def rm_bij_def)
    note sh3 = shuffled_mmexchange [OF act bij2]
    note dn = max_sink_top [OF shuffled_bij [OF sh3 bij2]]
    have r: "r = max_sink ?r3 (- 1)" using 3 lt by (simp add: r_def up mmCmpExch_def)
    have shr: "shuffled rm r" unfolding r using dn sh3 sh shuffled_trans by blast
    have mx3: "maxv ?r3 = (maxv rm)(0 := maxv rm 1, 1 := minv r2 0)"
      unfolding exchange_median m1 by (simp add: mx fun_eq_iff)
    have mn3: "minv ?r3 = (minv r2)(0 := maxv rm 1)" unfolding exchange_median m1 ..
    have "maxv r = sift_down (>) (nat (maxCt rm)) ((maxv rm)(0 := maxv rm 1, 1 := minv r2 0)) 2"
      "minv r = (minv r2)(0 := maxv rm 1)"
      using dn mx3 mn3 ct by (simp_all add: r)
    then show ?thesis
      using rs(4) [OF 3(1) d' 3(2)] shr shuffled_cts [OF shr] by (simp add: ordered_def)
  qed
qed

lemma after_max_up:
  assumes bij: "rm_bij rm" and q: "0 < q" "int q \<le> maxCt rm"
    and others: "\<forall>m. 0 < m \<and> m \<le> nat (maxCt rm) \<and> m \<noteq> q \<longrightarrow> \<not> maxv rm m > maxv rm (m div 2)"
    and kids: "\<forall>m. 0 < m \<and> m \<le> nat (maxCt rm) \<and> m div 2 = q \<longrightarrow> \<not> maxv rm m > maxv rm (q div 2)"
    and ok: "heap_ok (<) (nat (minCt rm)) (minv rm)"
  defines "r \<equiv> (case maxSortUp rm (- int q) of (changed, rm) \<Rightarrow>
      if changed \<and> minCt rm \<noteq> 0 then
        (case mmCmpExch rm 1 0 of (True, rm) \<Rightarrow> min_sink rm 1 | (False, rm) \<Rightarrow> rm)
      else rm)"
  shows "shuffled rm r \<and> ordered r"
proof -
  obtain hit r2 where up: "maxSortUp rm (- int q) = (hit, r2)" by (cases "maxSortUp rm (- int q)")
  note u = maxSortUp_spec [OF bij q(2) up]
  have sh: "shuffled rm r2" and sift: "sift_up (>) (maxv rm) q = (maxv r2, hit)"
    and mx: "minv r2 = (minv rm)(0 := maxv r2 0)"
    using u view_from_other(2) [of r2 rm] by auto
  have ct: "minCt r2 = minCt rm" "maxCt r2 = maxCt rm" using shuffled_cts [OF sh] by auto
  have bij2: "rm_bij r2" using shuffled_bij [OF sh bij] .
  have qc: "q \<le> nat (maxCt rm)" using q by linarith
  have meet: "maxv rm 0 = minv rm 0" by simp
  note rs = maxside.raise_element [OF sift q(1) qc others kids ok meet]
  have m1: "minv r2 1 = minv rm 1" by (simp add: mx)
  consider "\<not> hit" | "hit" "minCt rm = 0 \<or> \<not> maxv r2 0 > minv rm 1" | "hit" "minCt rm \<noteq> 0" "maxv r2 0 > minv rm 1"
    by blast
  then show ?thesis
  proof cases
    case 1
    then have "minv r2 = minv rm" using rs(2) mx by auto
    then show ?thesis using 1 rs(1) sh ok ct up by (simp add: r_def ordered_def)
  next
    case 2
    with m1 have "minCt rm = 0 \<or> \<not> mmless r2 1 0" by (auto simp: mmless_val minv_def maxv_def)
    with 2 ct have "r = r2" by (auto simp: r_def up mmCmpExch_def)
    moreover have "heap_ok (<) (nat (minCt rm)) (minv r2)" unfolding mx using 2 by (intro rs(3)) auto
    ultimately show ?thesis using rs(1) sh ct by (simp add: ordered_def)
  next
    case 3
    let ?r3 = "mmexchange r2 1 0"
    have d: "0 < nat (minCt rm)" "1 \<le> minCt rm" using 3 bij by (auto simp: rm_bij_def)
    have lt: "mmless r2 1 0" using 3 m1 by (simp add: mmless_val minv_def maxv_def)
    have act: "active r2 1" "active r2 0" using bij2 ct d by (auto simp: active_def rm_bij_def)
    note sh3 = shuffled_mmexchange [OF act bij2]
    note dn = min_sink_top [OF shuffled_bij [OF sh3 bij2]]
    have r: "r = min_sink ?r3 1" using 3 lt ct by (simp add: r_def up mmCmpExch_def)
    have shr: "shuffled rm r" unfolding r using dn sh3 sh shuffled_trans by blast
    have mn3: "minv ?r3 = (minv rm)(0 := minv rm 1, 1 := maxv r2 0)"
      unfolding exchange_median m1 by (simp add: mx fun_eq_iff)
    have mx3: "maxv ?r3 = (maxv r2)(0 := minv rm 1)" unfolding exchange_median m1 ..
    have "minv r = sift_down (<) (nat (minCt rm)) ((minv rm)(0 := minv rm 1, 1 := maxv r2 0)) 2"
      "maxv r = (maxv r2)(0 := minv rm 1)"
      using dn mx3 mn3 ct by (simp_all add: r)
    then show ?thesis
      using rs(4) [OF 3(1) d(1) 3(3)] shr shuffled_cts [OF shr] by (simp add: ordered_def)
  qed
qed

text \<open>The new item is at the median; both heaps are in order apart from it.\<close>

definition fix_max :: "rolling_median \<Rightarrow> rolling_median" where
  "fix_max rm = (if maxCt rm \<noteq> 0 then
     case maxSortUp rm (- 1) of (True, rm) \<Rightarrow> max_sink rm (- 1) | (False, rm) \<Rightarrow> rm else rm)"

definition fix_min :: "rolling_median \<Rightarrow> rolling_median" where
  "fix_min rm = (if minCt rm \<noteq> 0 then
     case minSortUp rm 1 of (True, rm) \<Rightarrow> min_sink rm 1 | (False, rm) \<Rightarrow> rm else rm)"


lemma fix_max_spec:
  assumes bij: "rm_bij rm" and ok: "heap_ok (>) (nat (maxCt rm)) ((maxv rm)(0 := m))"
  shows "shuffled rm (fix_max rm) \<and> heap_ok (>) (nat (maxCt rm)) (maxv (fix_max rm))
    \<and> (\<forall>k > 0. minv (fix_max rm) k = minv rm k)
    \<and> (fix_max rm = rm \<or> rm_val (fix_max rm) 0 \<le> m)"
proof (cases "maxCt rm = 0")
  case True
  then show ?thesis by (simp add: fix_max_def heap_ok_def)
next
  case False
  then have d: "0 < nat (maxCt rm)" "1 \<le> maxCt rm" using bij by (auto simp: rm_bij_def)
  have top: "maxv rm 1 \<le> m" using spec [OF ok [unfolded heap_ok_def], of 1] d by simp
  have lt: "mmless rm 0 (- 1) \<longleftrightarrow> rm_val rm 0 < maxv rm 1" by (simp add: mmless_val maxv_def)
  have up: "maxSortUp rm (- 1) = (if mmless rm 0 (- 1) then (True, mmexchange rm 0 (- 1)) else (False, rm))"
    by (subst maxSortUp.simps) (auto simp: half_def mmCmpExch_def maxSortUp.simps [of _ 0])
  show ?thesis
  proof (cases "mmless rm 0 (- 1)")
    case False
    have "\<not> maxv rm i > maxv rm (i div 2)" if i: "0 < i" "i \<le> nat (maxCt rm)" for i
    proof (cases "i div 2 = 0")
      case True
      then have "i = 1" using i(1) by simp
      then show ?thesis using False lt by simp
    next
      case div: False
      then show ?thesis using spec [OF ok [unfolded heap_ok_def], of i] i by simp
    qed
    then have "heap_ok (>) (nat (maxCt rm)) (maxv rm)" by (simp add: heap_ok_def)
    then show ?thesis using False \<open>maxCt rm \<noteq> 0\<close> up lt by (simp add: fix_max_def)
  next
    case True
    let ?r = "mmexchange rm 0 (- 1)"
    have act: "active rm 0" "active rm (- 1)" using bij d by (auto simp: active_def rm_bij_def)
    note sh = shuffled_mmexchange [OF act bij]
    note dn = max_sink_top [OF shuffled_bij [OF sh bij]]
    have eq: "fix_max rm = max_sink ?r (- 1)" using True \<open>maxCt rm \<noteq> 0\<close> up by (simp add: fix_max_def)
    have "heap_ok (>) (nat (maxCt rm)) (sift_down (>) (nat (maxCt rm)) (((maxv rm)(0 := m))(0 := maxv rm 1, 1 := rm_val rm 0)) 2)"
      using minside.push_to_other_side [OF ok _ d(1), of "rm_val rm 0"] True lt by simp
    then have "heap_ok (>) (nat (maxCt rm)) (maxv (fix_max rm))"
      using dn by (simp add: eq exchange_median)
    moreover have "minv (fix_max rm) = (minv rm)(0 := maxv rm 1)"
      using dn by (simp add: eq exchange_median)
    moreover have "rm_val (fix_max rm) 0 = maxv rm 1"
      using fun_cong [OF calculation(2), of 0] by simp
    ultimately show ?thesis
      using eq dn shuffled_trans [OF sh] top by simp
  qed
qed

lemma fix_min_spec:
  assumes bij: "rm_bij rm" and ok: "heap_ok (<) (nat (minCt rm)) ((minv rm)(0 := m))"
  shows "shuffled rm (fix_min rm) \<and> heap_ok (<) (nat (minCt rm)) (minv (fix_min rm))
    \<and> (\<forall>k > 0. maxv (fix_min rm) k = maxv rm k)
    \<and> (fix_min rm = rm \<or> m \<le> rm_val (fix_min rm) 0 \<and> rm_val (fix_min rm) 0 < rm_val rm 0)"
proof (cases "minCt rm = 0")
  case True
  then show ?thesis by (simp add: fix_min_def heap_ok_def)
next
  case False
  then have d: "0 < nat (minCt rm)" "1 \<le> minCt rm" using bij by (auto simp: rm_bij_def)
  have first: "m \<le> minv rm 1" using spec [OF ok [unfolded heap_ok_def], of 1] d by simp
  have lt: "mmless rm 1 0 \<longleftrightarrow> minv rm 1 < rm_val rm 0" by (simp add: mmless_val minv_def)
  have up: "minSortUp rm 1 = (if mmless rm 1 0 then (True, mmexchange rm 1 0) else (False, rm))"
    by (subst minSortUp.simps) (auto simp: half_def mmCmpExch_def minSortUp.simps [of _ 0])
  show ?thesis
  proof (cases "mmless rm 1 0")
    case False
    have "\<not> minv rm i < minv rm (i div 2)" if i: "0 < i" "i \<le> nat (minCt rm)" for i
    proof (cases "i div 2 = 0")
      case True
      then have "i = 1" using i(1) by simp
      then show ?thesis using False lt by simp
    next
      case div: False
      then show ?thesis using spec [OF ok [unfolded heap_ok_def], of i] i by simp
    qed
    then have "heap_ok (<) (nat (minCt rm)) (minv rm)" by (simp add: heap_ok_def)
    then show ?thesis using False \<open>minCt rm \<noteq> 0\<close> up lt by (simp add: fix_min_def)
  next
    case True
    let ?r = "mmexchange rm 1 0"
    have act: "active rm 1" "active rm 0" using bij d by (auto simp: active_def rm_bij_def)
    note sh = shuffled_mmexchange [OF act bij]
    note dn = min_sink_top [OF shuffled_bij [OF sh bij]]
    have eq: "fix_min rm = min_sink ?r 1" using True \<open>minCt rm \<noteq> 0\<close> up by (simp add: fix_min_def)
    have "heap_ok (<) (nat (minCt rm)) (sift_down (<) (nat (minCt rm)) (((minv rm)(0 := m))(0 := minv rm 1, 1 := rm_val rm 0)) 2)"
      using maxside.push_to_other_side [OF ok _ d(1), of "rm_val rm 0"] True lt by simp
    then have "heap_ok (<) (nat (minCt rm)) (minv (fix_min rm))"
      using dn by (simp add: eq exchange_median)
    moreover have "maxv (fix_min rm) = (maxv rm)(0 := minv rm 1)"
      using dn by (simp add: eq exchange_median)
    moreover have "rm_val (fix_min rm) 0 = minv rm 1"
      using fun_cong [OF calculation(2), of 0] by simp
    ultimately show ?thesis
      using eq dn shuffled_trans [OF sh] first True lt by simp
  qed
qed

lemma after_median:
  assumes bij: "rm_bij rm" and mn: "heap_ok (<) (nat (minCt rm)) ((minv rm)(0 := m))"
    and mx: "heap_ok (>) (nat (maxCt rm)) ((maxv rm)(0 := m))"
  shows "shuffled rm (fix_min (fix_max rm)) \<and> ordered (fix_min (fix_max rm))"
proof -
  let ?r = "fix_max rm" and ?r' = "fix_min (fix_max rm)"
  note f = fix_max_spec [OF bij mx]
  have sh: "shuffled rm ?r" using f by blast
  have ct: "minCt ?r = minCt rm" "maxCt ?r = maxCt rm" using shuffled_cts [OF sh] by auto
  have "(minv ?r)(0 := m) = (minv rm)(0 := m)" using f by (auto simp: fun_eq_iff)
  then have mn': "heap_ok (<) (nat (minCt ?r)) ((minv ?r)(0 := m))" using mn ct by simp
  note g = fix_min_spec [OF shuffled_bij [OF sh bij] mn']
  have sh': "shuffled rm ?r'" using g sh shuffled_trans by blast
  have "heap_ok (>) (nat (maxCt rm)) (maxv ?r')"
  proof (cases "?r' = ?r")
    case True
    then show ?thesis using f by simp
  next
    case False
    then have le: "m \<le> rm_val ?r' 0" "rm_val ?r' 0 < rm_val ?r 0" using g by auto
    then have "?r = rm" using f by auto
    then have "maxv ?r' = ((maxv rm)(0 := m))(0 := rm_val ?r' 0)" using g by (auto simp: fun_eq_iff)
    moreover have "heap_ok (>) (nat (maxCt rm)) (((maxv rm)(0 := m))(0 := rm_val ?r' 0))"
      using maxside.heap_ok_lower_top [OF mx] le(1) by simp
    ultimately show ?thesis by simp
  qed
  then show ?thesis using g sh' shuffled_cts [OF sh'] ct by (simp add: ordered_def)
qed

section \<open>Insertion\<close>

text \<open>The items held, oldest first.\<close>

definition contents :: "rolling_median \<Rightarrow> u64 list" where
  "contents rm = (if rm_sz rm < rm_N rm then take (rm_sz rm) (rm_data rm)
                  else drop (rm_idx rm) (rm_data rm) @ take (rm_idx rm) (rm_data rm))"

definition rm_inv :: "rolling_median \<Rightarrow> bool" where
  "rm_inv rm \<longleftrightarrow> rm_bij rm \<and> ordered rm \<and> 0 < rm_N rm \<and> rm_N rm < 2 ^ 27 \<and> rm_idx rm < rm_N rm \<and> rm_sz rm \<le> rm_N rm
     \<and> (rm_sz rm < rm_N rm \<longrightarrow> rm_idx rm = rm_sz rm)
     \<and> maxCt rm = int (rm_sz rm div 2) \<and> minCt rm = int ((rm_sz rm - 1) div 2)
     \<and> (\<forall>n < rm_N rm. active rm (rm_pos rm n) \<longleftrightarrow> n < max 1 (rm_sz rm))
     \<and> (\<forall>n < rm_N rm. rm_sz rm \<le> n \<longrightarrow> rm_pos rm n = fill_pos n)"

lemma heap_ok_cong: "(\<And>i. i \<le> c \<Longrightarrow> v i = w i) \<Longrightarrow> heap_ok lt c v = heap_ok lt c w"
  by (auto simp: heap_ok_def)

text \<open>The state after the item is stored, before the heaps are repaired.\<close>

definition store_item :: "u64 \<Rightarrow> rolling_median \<Rightarrow> rolling_median" where
  "store_item v rm = rm\<lparr>rm_data := (rm_data rm)[rm_idx rm := v],
     rm_idx := (rm_idx rm + 1) mod rm_N rm, rm_sz := min (rm_sz rm + 1) (rm_N rm)\<rparr>"

lemma store_item_simps [simp]:
  "rm_pos (store_item v rm) = rm_pos rm" "rm_heap (store_item v rm) = rm_heap rm"
  "rm_N (store_item v rm) = rm_N rm" "minCt (store_item v rm) = minCt rm" "maxCt (store_item v rm) = maxCt rm"
  "rm_sz (store_item v rm) = min (rm_sz rm + 1) (rm_N rm)" "rm_idx (store_item v rm) = (rm_idx rm + 1) mod rm_N rm"
  "rm_data (store_item v rm) = (rm_data rm)[rm_idx rm := v]"
  by (simp_all add: store_item_def)

lemma store_item_bij: "rm_bij rm \<Longrightarrow> rm_bij (store_item v rm)"
  by (simp add: rm_bij_def in_range_def)

lemma store_item_val:
  assumes "rm_bij rm" "rm_idx rm < rm_N rm" "in_range rm i"
  shows "rm_val (store_item v rm) i = (if i = rm_pos rm (rm_idx rm) then v else rm_val rm i)"
  using assms by (auto simp: rm_val_def rm_bij_def nth_list_update)

lemma store_item_contents:
  assumes "rm_inv rm"
  shows "contents (store_item v rm) =
    drop (Suc (length (contents rm)) - rm_N rm) (contents rm @ [v])"
proof -
  have len: "length (rm_data rm) = rm_N rm" and idx: "rm_idx rm < rm_N rm" and sz: "rm_sz rm \<le> rm_N rm"
    using assms by (auto simp: rm_inv_def rm_bij_def)
  let ?d = "(rm_data rm)[rm_idx rm := v]"
  have t: "take (Suc (rm_idx rm)) ?d = take (rm_idx rm) (rm_data rm) @ [v]"
    using idx len by (simp add: take_Suc_conv_app_nth)
  show ?thesis
  proof (cases "rm_sz rm = rm_N rm")
    case False
    then have e: "rm_idx rm = rm_sz rm" "rm_sz rm < rm_N rm" using assms sz by (auto simp: rm_inv_def)
    show ?thesis
    proof (cases "Suc (rm_sz rm) = rm_N rm")
      case True
      then have "?d = take (rm_idx rm) (rm_data rm) @ [v]" using t len e by simp
      then show ?thesis using True e len by (simp add: contents_def)
    next
      case False
      then show ?thesis using e t len by (simp add: contents_def)
    qed
  next
    case True
    show ?thesis
    proof (cases "Suc (rm_idx rm) = rm_N rm")
      case last: True
      then have "?d = take (rm_idx rm) (rm_data rm) @ [v]" using t len by simp
      then show ?thesis using True last len idx by (simp add: contents_def)
    next
      case False
      then have "(rm_idx rm + 1) mod rm_N rm = Suc (rm_idx rm)" using idx by simp
      then show ?thesis using True False t len idx by (simp add: contents_def)
    qed
  qed
qed

definition min_up :: "rolling_median \<Rightarrow> int \<Rightarrow> rolling_median" where
  "min_up rm p = (case minSortUp rm p of (changed, rm) \<Rightarrow>
     if changed then
       (case mmCmpExch rm 0 (- 1) of (True, rm) \<Rightarrow> max_sink rm (- 1) | (False, rm) \<Rightarrow> rm)
     else rm)"

definition max_up :: "rolling_median \<Rightarrow> int \<Rightarrow> rolling_median" where
  "max_up rm p = (case maxSortUp rm p of (changed, rm) \<Rightarrow>
     if changed \<and> minCt rm \<noteq> 0 then
       (case mmCmpExch rm 1 0 of (True, rm) \<Rightarrow> min_sink rm 1 | (False, rm) \<Rightarrow> rm)
     else rm)"

lemma ins_ideal_eq:
  assumes "0 < rm_N rm"
  shows "ins_ideal v rm = Some (
    let p = rm_pos rm (rm_idx rm); s = store_item v rm in
    if p > 0 then
      (if minCt s < (int (rm_N s) - 1) div 2 then min_up (s\<lparr>minCt := minCt s + 1\<rparr>) p
       else if v > rm_data rm ! rm_idx rm then min_sink s p else min_up s p)
    else if p < 0 then
      (if maxCt s < int (rm_N s) div 2 then max_up (s\<lparr>maxCt := maxCt s + 1\<rparr>) p
       else if v < rm_data rm ! rm_idx rm then max_sink s p else max_up s p)
    else fix_min (fix_max s))"
  using assms unfolding ins_ideal_def Let_def store_item_def [symmetric] min_up_def max_up_def fix_max_def fix_min_def
  by simp

lemma min_sink_sink:
  assumes bij: "rm_bij rm" and q: "0 < q" "int q \<le> minCt rm"
    and mn: "heap_ok (<) (nat (minCt rm)) ((minv rm)(q := old))" "\<not> minv rm q < old"
    and mx: "heap_ok (>) (nat (maxCt rm)) (maxv rm)"
  shows "shuffled rm (min_sink rm (int q)) \<and> ordered (min_sink rm (int q))"
proof -
  let ?r = "min_sink rm (int q)" and ?c = "nat (minCt rm)"
  have eq: "?r = min_sink_loop rm (int (2 * q))" by (simp add: min_sink_def mult.commute)
  have sh: "shuffled rm ?r" and mnr: "minv ?r = sift_down (<) ?c (minv rm) (2 * q)"
    and mxr: "\<forall>k > 0. maxv ?r k = maxv rm k"
    using min_sink_loop_spec [OF bij, of "2 * q"] q(1) by (auto simp: eq)
  have qc: "q \<le> ?c" using q by linarith
  have "heap_ok (<) ?c (minv ?r)"
    unfolding mnr using minside.sink_element [OF mn(1) q(1) _ qc, of "minv rm q"] mn(2) by simp
  moreover have "minv ?r 0 = minv rm 0"
    unfolding mnr by (rule sift_down_outside) (use q in auto)
  then have "maxv ?r = maxv rm" unfolding view_from_other(1) [OF mxr] by (auto simp: fun_eq_iff)
  ultimately show ?thesis using sh mx shuffled_cts [OF sh] by (simp add: ordered_def)
qed

lemma min_up_lowered:
  assumes bij: "rm_bij rm" and q: "0 < q" "int q \<le> minCt rm" and d: "0 < maxCt rm"
    and mn: "heap_ok (<) (nat (minCt rm)) ((minv rm)(q := old))" "\<not> old < minv rm q"
    and mx: "heap_ok (>) (nat (maxCt rm)) (maxv rm)"
  shows "shuffled rm (min_up rm (int q)) \<and> ordered (min_up rm (int q))"
proof -
  have qc: "q \<le> nat (minCt rm)" using q by linarith
  have y: "\<not> ((minv rm)(q := old)) q < minv rm q" using mn(2) by simp
  note l = minside.lowered_element [OF mn(1) q(1) qc y]
  show ?thesis
    using after_min_up [OF bij q d l [unfolded fun_upd_upd fun_upd_triv] mx] by (simp add: min_up_def)
qed

lemma min_up_leaf:
  assumes bij: "rm_bij rm" and q: "int (Suc q) = minCt rm" and d: "0 < maxCt rm"
    and mn: "heap_ok (<) q (minv rm)" and mx: "heap_ok (>) (nat (maxCt rm)) (maxv rm)"
  shows "shuffled rm (min_up rm (int (Suc q))) \<and> ordered (min_up rm (int (Suc q)))"
proof -
  have c: "nat (minCt rm) = Suc q" using q by linarith
  note l = minside.new_leaf [OF mn, of "minv rm (Suc q)"]
  show ?thesis
    unfolding min_up_def
    by (rule after_min_up [OF bij _ _ d _ _ mx]) (use q l [unfolded fun_upd_triv] in \<open>simp_all only: c zero_less_Suc order_refl\<close>)
qed

lemma max_sink_sink:
  assumes bij: "rm_bij rm" and q: "0 < q" "int q \<le> maxCt rm"
    and mn: "heap_ok (>) (nat (maxCt rm)) ((maxv rm)(q := old))" "\<not> maxv rm q > old"
    and mx: "heap_ok (<) (nat (minCt rm)) (minv rm)"
  shows "shuffled rm (max_sink rm (- int q)) \<and> ordered (max_sink rm (- int q))"
proof -
  let ?r = "max_sink rm (- int q)" and ?c = "nat (maxCt rm)"
  have eq: "?r = max_sink_loop rm (- int (2 * q))" by (simp add: max_sink_def mult.commute)
  have sh: "shuffled rm ?r" and mnr: "maxv ?r = sift_down (>) ?c (maxv rm) (2 * q)"
    and mxr: "\<forall>k > 0. minv ?r k = minv rm k"
    using max_sink_loop_spec [OF bij, of "2 * q"] q(1) by (auto simp: eq)
  have qc: "q \<le> ?c" using q by linarith
  have "heap_ok (>) ?c (maxv ?r)"
    unfolding mnr using maxside.sink_element [OF mn(1) q(1) _ qc, of "maxv rm q"] mn(2) by simp
  moreover have "maxv ?r 0 = maxv rm 0"
    unfolding mnr by (rule sift_down_outside) (use q in auto)
  then have "minv ?r = minv rm" unfolding view_from_other(2) [OF mxr] by (auto simp: fun_eq_iff)
  ultimately show ?thesis using sh mx shuffled_cts [OF sh] by (simp add: ordered_def)
qed

lemma max_up_lowered:
  assumes bij: "rm_bij rm" and q: "0 < q" "int q \<le> maxCt rm"
    and mn: "heap_ok (>) (nat (maxCt rm)) ((maxv rm)(q := old))" "\<not> old > maxv rm q"
    and mx: "heap_ok (<) (nat (minCt rm)) (minv rm)"
  shows "shuffled rm (max_up rm (- int q)) \<and> ordered (max_up rm (- int q))"
proof -
  have qc: "q \<le> nat (maxCt rm)" using q by linarith
  have y: "\<not> ((maxv rm)(q := old)) q > maxv rm q" using mn(2) by simp
  note l = maxside.lowered_element [OF mn(1) q(1) qc y]
  show ?thesis
    using after_max_up [OF bij q l [unfolded fun_upd_upd fun_upd_triv] mx] by (simp add: max_up_def)
qed

lemma max_up_leaf:
  assumes bij: "rm_bij rm" and q: "int (Suc q) = maxCt rm"
    and mn: "heap_ok (>) q (maxv rm)" and mx: "heap_ok (<) (nat (minCt rm)) (minv rm)"
  shows "shuffled rm (max_up rm (- int (Suc q))) \<and> ordered (max_up rm (- int (Suc q)))"
proof -
  have c: "nat (maxCt rm) = Suc q" using q by linarith
  note l = maxside.new_leaf [OF mn, of "maxv rm (Suc q)"]
  show ?thesis
    unfolding max_up_def
    by (rule after_max_up [OF bij _ _ _ _ mx]) (use q l [unfolded fun_upd_triv] in \<open>simp_all only: c zero_less_Suc order_refl\<close>)
qed

lemma contents_shuffled: "shuffled rm rm' \<Longrightarrow> contents rm' = contents rm"
  by (simp add: contents_def shuffled_def)

lemma rm_inv_after:
  assumes inv: "rm_inv rm"
    and s: "s = (store_item v rm)\<lparr>minCt := mc, maxCt := xc\<rparr>"
    and cts: "mc = int ((rm_sz s - 1) div 2)" "xc = int (rm_sz s div 2)" and bij: "rm_bij s"
    and act: "\<forall>n < rm_N rm. active s (rm_pos rm n) \<longleftrightarrow> n < rm_sz s"
    and r: "shuffled s r" "ordered r"
  shows "rm_inv r \<and> contents r = contents (store_item v rm) \<and> rm_N r = rm_N rm"
proof -
  have f: "rm_N r = rm_N rm" "rm_sz r = rm_sz s" "rm_idx r = rm_idx s" "minCt r = mc" "maxCt r = xc"
    using r(1) s by (auto simp: shuffled_def)
  have sz: "rm_sz s = min (rm_sz rm + 1) (rm_N rm)" "rm_idx s = (rm_idx rm + 1) mod rm_N rm" "rm_pos s = rm_pos rm"
    using s by auto
  have bijr: "rm_bij r" using shuffled_bij [OF r(1) bij] .
  have pos: "active s (rm_pos r n) = active s (rm_pos rm n)"
    "\<not> active s (rm_pos rm n) \<Longrightarrow> rm_pos r n = rm_pos rm n" if "n < rm_N rm" for n
    using r(1) bij that s by (auto simp: shuffled_def)
  have a: "active r = active s" using f s by (intro active_cong) auto
  have "rm_sz s < rm_N rm \<longrightarrow> rm_idx s = rm_sz s" using inv sz by (auto simp: rm_inv_def min_def)
  moreover have "\<forall>n < rm_N rm. active r (rm_pos r n) \<longleftrightarrow> n < max 1 (rm_sz s)"
    using act pos sz inv by (auto simp: a rm_inv_def)
  moreover have "rm_pos r n = fill_pos n" if "n < rm_N rm" "rm_sz s \<le> n" for n
  proof -
    have "\<not> active s (rm_pos rm n)" using act that by auto
    moreover have "rm_sz rm \<le> n" using that sz by auto
    ultimately show ?thesis using pos(2) that inv by (simp add: rm_inv_def)
  qed
  moreover have "rm_idx r < rm_N rm" using f sz inv by (simp add: rm_inv_def)
  moreover have "rm_sz s \<le> rm_N rm" "0 < rm_N rm" "rm_N rm < 2 ^ 27" using sz inv by (auto simp: rm_inv_def)
  ultimately have "rm_inv r"
    using f bijr r(2) cts unfolding rm_inv_def by simp
  moreover have "contents r = contents (store_item v rm)"
    unfolding contents_shuffled [OF r(1)] by (simp add: s contents_def)
  ultimately show ?thesis using f by blast
qed

lemma fill_pos_cases:
  "even n \<Longrightarrow> fill_pos n = int (n div 2)" "odd n \<Longrightarrow> fill_pos n = - int (Suc (n div 2))"
  by (auto simp: fill_pos_def elim!: evenE oddE)

text \<open>What the invariant says of the slot about to be overwritten.\<close>

lemma slot_facts:
  assumes inv: "rm_inv rm"
  defines "p \<equiv> rm_pos rm (rm_idx rm)"
  shows "in_range rm p" "rm_data rm ! rm_idx rm = rm_val rm p"
    and "\<And>n. n < rm_N rm \<Longrightarrow> rm_pos rm n = p \<longleftrightarrow> n = rm_idx rm"
    and "rm_sz rm < rm_N rm \<Longrightarrow> p = fill_pos (rm_sz rm)"
    and "rm_sz rm = rm_N rm \<Longrightarrow> active rm p"
proof -
  have b: "rm_bij rm" "rm_idx rm < rm_N rm" using inv by (auto simp: rm_inv_def)
  show "in_range rm p" "rm_data rm ! rm_idx rm = rm_val rm p"
    using b by (auto simp: rm_bij_def p_def rm_val_def)
  show "rm_pos rm n = p \<longleftrightarrow> n = rm_idx rm" if "n < rm_N rm" for n
    using b that unfolding rm_bij_def p_def by metis
  show "rm_sz rm < rm_N rm \<Longrightarrow> p = fill_pos (rm_sz rm)" "rm_sz rm = rm_N rm \<Longrightarrow> active rm p"
    using inv by (auto simp: rm_inv_def p_def)
qed

text \<open>The two views after the item is stored at a position of one side.\<close>

lemma stored_views:
  assumes inv: "rm_inv rm"
  defines "p \<equiv> rm_pos rm (rm_idx rm)"
  shows "in_range rm (int j) \<Longrightarrow> minv (store_item v rm) j = (if int j = p then v else minv rm j)"
    and "in_range rm (- int j) \<Longrightarrow> maxv (store_item v rm) j = (if - int j = p then v else maxv rm j)"
  using store_item_val [of rm _ v] inv by (auto simp: minv_def maxv_def rm_inv_def p_def)

lemma insert_full:
  assumes inv: "rm_inv rm" and full: "rm_sz rm = rm_N rm"
  shows "\<exists>r. ins_ideal v rm = Some r \<and> shuffled (store_item v rm) r \<and> ordered r"
proof -
  let ?s = "store_item v rm" and ?p = "rm_pos rm (rm_idx rm)" and ?old = "rm_data rm ! rm_idx rm"
  have N: "0 < rm_N rm" and b: "rm_bij rm" and idx: "rm_idx rm < rm_N rm" and ord: "ordered rm"
    and cts: "minCt rm = (int (rm_N rm) - 1) div 2" "maxCt rm = int (rm_N rm) div 2"
    using inv full by (auto simp: rm_inv_def zdiv_int of_nat_diff)
  have bs: "rm_bij ?s" using store_item_bij [OF b] .
  note sf = slot_facts [OF inv]
  have mn: "minv ?s j = (if int j = ?p then v else minv rm j)" if "j \<le> nat (minCt rm)" for j
    using stored_views(1) [OF inv] that b by (auto simp: rm_bij_def in_range_def)
  have mx: "maxv ?s j = (if - int j = ?p then v else maxv rm j)" if "j \<le> nat (maxCt rm)" for j
    using stored_views(2) [OF inv] that b by (auto simp: rm_bij_def in_range_def)
  have omn: "heap_ok (<) (nat (minCt rm)) (minv rm)" and omx: "heap_ok (>) (nat (maxCt rm)) (maxv rm)"
    using ord by (auto simp: ordered_def)
  consider "?p > 0" | "?p < 0" | "?p = 0" by linarith
  then show ?thesis
  proof cases
    case 1
    then obtain q where q: "?p = int q" "0 < q" by (metis of_nat_0_less_iff zero_less_imp_eq_int)
    have qc: "int q \<le> minCt ?s" using sf(5) [OF full] q by (simp add: active_def)
    have d: "0 < maxCt ?s" using qc q cts by simp
    have h1: "heap_ok (<) (nat (minCt ?s)) ((minv ?s)(q := ?old))"
      using omn mn sf(2) q heap_ok_cong [of "nat (minCt rm)" "(minv ?s)(q := ?old)" "minv rm" "(<)"]
      by (simp add: minv_def)
    have h2: "heap_ok (>) (nat (maxCt ?s)) (maxv ?s)"
      using omx mx q heap_ok_cong [of "nat (maxCt rm)" "maxv ?s" "maxv rm" "(>)"] by simp
    have vq: "minv ?s q = v" using mn [of q] qc q by simp
    show ?thesis
    proof (cases "v > ?old")
      case True
      then show ?thesis
        using min_sink_sink [OF bs q(2) qc h1 _ h2] vq 1 cts q by (simp add: ins_ideal_eq [OF N] Let_def)
    next
      case False
      then show ?thesis
        using min_up_lowered [OF bs q(2) qc d h1 _ h2] vq 1 cts q by (simp add: ins_ideal_eq [OF N] Let_def)
    qed
  next
    case 2
    then obtain q where q: "?p = - int q" "0 < q"
      by (metis neg_0_less_iff_less add.inverse_inverse of_nat_0_less_iff zero_less_imp_eq_int)
    have qc: "int q \<le> maxCt ?s" using sf(5) [OF full] q by (simp add: active_def)
    have h1: "heap_ok (>) (nat (maxCt ?s)) ((maxv ?s)(q := ?old))"
      using omx mx sf(2) q heap_ok_cong [of "nat (maxCt rm)" "(maxv ?s)(q := ?old)" "maxv rm" "(>)"]
      by (simp add: maxv_def)
    have h2: "heap_ok (<) (nat (minCt ?s)) (minv ?s)"
      using omn mn q heap_ok_cong [of "nat (minCt rm)" "minv ?s" "minv rm" "(<)"] by simp
    have vq: "maxv ?s q = v" using mx [of q] qc q by simp
    show ?thesis
    proof (cases "v < ?old")
      case True
      then show ?thesis
        using max_sink_sink [OF bs q(2) qc h1 _ h2] vq 2 cts q by (simp add: ins_ideal_eq [OF N] Let_def)
    next
      case False
      then show ?thesis
        using max_up_lowered [OF bs q(2) qc h1 _ h2] vq 2 cts q by (simp add: ins_ideal_eq [OF N] Let_def)
    qed
  next
    case 3
    let ?m = "rm_val rm 0"
    have "heap_ok (<) (nat (minCt ?s)) ((minv ?s)(0 := ?m))"
      using omn mn 3 heap_ok_cong [of "nat (minCt rm)" "(minv ?s)(0 := ?m)" "minv rm" "(<)"] by simp
    moreover have "heap_ok (>) (nat (maxCt ?s)) ((maxv ?s)(0 := ?m))"
      using omx mx 3 heap_ok_cong [of "nat (maxCt rm)" "(maxv ?s)(0 := ?m)" "maxv rm" "(>)"] by simp
    ultimately show ?thesis using after_median [OF bs] 3 by (simp add: ins_ideal_eq [OF N] Let_def)
  qed
qed

lemma insert_growing:
  fixes v :: u64
  assumes inv: "rm_inv rm" and room: "rm_sz rm < rm_N rm"
  defines "s \<equiv> (store_item v rm)\<lparr>minCt := int (rm_sz rm div 2), maxCt := int (Suc (rm_sz rm) div 2)\<rparr>"
  shows "\<exists>r. ins_ideal v rm = Some r \<and> rm_bij s \<and> shuffled s r \<and> ordered r
    \<and> (\<forall>n < rm_N rm. active s (rm_pos rm n) \<longleftrightarrow> n < rm_sz s)"
proof -
  let ?st = "store_item v rm" and ?p = "rm_pos rm (rm_idx rm)" and ?k = "rm_sz rm"
  have N: "0 < rm_N rm" and b: "rm_bij rm" and idx: "rm_idx rm = ?k" and ord: "ordered rm"
    and cts: "minCt rm = int ((?k - 1) div 2)" "maxCt rm = int (?k div 2)"
    using inv room by (auto simp: rm_inv_def)
  note sf = slot_facts [OF inv]
  have p: "?p = fill_pos ?k" using sf(4) room by simp
  have bs: "rm_bij s" using b room by (simp add: rm_bij_def in_range_def s_def div_le_mono)
  have v1: "minv s = minv ?st" "maxv s = maxv ?st" by (auto simp: s_def minv_def maxv_def rm_val_def fun_eq_iff)
  have act: "active s (rm_pos rm n) \<longleftrightarrow> n < rm_sz s" if n: "n < rm_N rm" for n
  proof (cases "n = ?k")
    case True
    then have "rm_pos rm n = fill_pos ?k" using p idx by simp
    then show ?thesis using True room by (cases "even ?k") (auto simp: active_def s_def fill_pos_cases)
  next
    case False
    have "active rm (rm_pos rm n) \<longleftrightarrow> n < max 1 ?k" using inv n by (simp add: rm_inv_def)
    moreover have "rm_pos rm n \<noteq> fill_pos ?k" using sf(3) [OF n] False idx p by simp
    ultimately show ?thesis
      using False cts room by (cases "even ?k") (auto simp: active_def s_def fill_pos_cases elim!: evenE oddE)
  qed
  have mn: "minv s j = (if int j = ?p then v else minv rm j)" if "j \<le> ?k div 2" for j
    using stored_views(1) [OF inv, of j v] that room unfolding v1 by (auto simp: in_range_def)
  have mx: "maxv s j = (if - int j = ?p then v else maxv rm j)" if "j \<le> Suc ?k div 2" for j
    using stored_views(2) [OF inv, of j v] that room unfolding v1 by (auto simp: in_range_def)
  have omn: "heap_ok (<) ((?k - 1) div 2) (minv rm)" and omx: "heap_ok (>) (?k div 2) (maxv rm)"
    using ord cts by (auto simp: ordered_def)
  have "\<exists>r. ins_ideal v rm = Some r \<and> shuffled s r \<and> ordered r"
  proof (cases "?k = 0")
    case True
    then have e: "?p = 0" "s = ?st" using p cts by (simp_all add: fill_pos_def s_def)
    have "heap_ok (<) 0 ((minv ?st)(0 := 0))" "heap_ok (>) 0 ((maxv ?st)(0 := 0))" by (auto simp: heap_ok_def)
    then show ?thesis
      using after_median [of ?st 0] bs True cts e by (simp add: ins_ideal_eq [OF N] Let_def)
  next
    case pos: False
    show ?thesis
    proof (cases "even ?k")
      case True
      then obtain q where q: "?k = 2 * Suc q" using pos by (metis evenE not0_implies_Suc mult_0_right)
      have h1: "heap_ok (<) q (minv s)"
        using omn q mn p heap_ok_cong [of q "minv s" "minv rm" "(<)"] by (simp add: fill_pos_def)
      have "nat (maxCt s) = Suc q" using q by (simp add: s_def nat_add_distrib)
      then have h2: "heap_ok (>) (nat (maxCt s)) (maxv s)"
        using omx q mx p heap_ok_cong [of "Suc q" "maxv s" "maxv rm" "(>)"] by (simp add: fill_pos_def)
      have e: "s = ?st\<lparr>minCt := minCt ?st + 1\<rparr>"
        using q cts by (intro rolling_median.equality) (simp_all add: s_def)
      have "ins_ideal v rm = Some (min_up s (int (Suc q)))"
        using q p cts room by (simp add: ins_ideal_eq [OF N] Let_def e fill_pos_def)
      then show ?thesis using min_up_leaf [OF bs _ _ h1 h2] q by (simp add: s_def)
    next
      case False
      then obtain q where q: "?k = Suc (2 * q)" by (metis oddE Suc_eq_plus1)
      have h1: "heap_ok (>) q (maxv s)"
        using omx q mx p heap_ok_cong [of q "maxv s" "maxv rm" "(>)"] by (simp add: fill_pos_def)
      have h2: "heap_ok (<) (nat (minCt s)) (minv s)"
        using omn q mn p heap_ok_cong [of q "minv s" "minv rm" "(<)"] by (simp add: fill_pos_def s_def)
      have e: "s = ?st\<lparr>maxCt := maxCt ?st + 1\<rparr>"
        using q cts by (intro rolling_median.equality) (simp_all add: s_def)
      have "ins_ideal v rm = Some (max_up s (- int (Suc q)))"
        using q p cts room by (simp add: ins_ideal_eq [OF N] Let_def e fill_pos_def)
      then show ?thesis using max_up_leaf [OF bs _ h1 h2] q by (simp add: s_def)
    qed
  qed
  then show ?thesis using bs act by blast
qed

lemma ins_ideal_spec:
  assumes inv: "rm_inv rm"
  shows "\<exists>r. ins_ideal v rm = Some r \<and> rm_inv r \<and> rm_N r = rm_N rm
    \<and> contents r = drop (Suc (length (contents rm)) - rm_N rm) (contents rm @ [v])"
proof (cases "rm_sz rm < rm_N rm")
  case True
  let ?s = "(store_item v rm)\<lparr>minCt := int (rm_sz rm div 2), maxCt := int (Suc (rm_sz rm) div 2)\<rparr>"
  obtain r where r: "ins_ideal v rm = Some r" "rm_bij ?s" "shuffled ?s r" "ordered r"
      "\<forall>n < rm_N rm. active ?s (rm_pos rm n) \<longleftrightarrow> n < rm_sz ?s"
    using insert_growing [OF inv True] by blast
  have "rm_inv r \<and> contents r = contents (store_item v rm) \<and> rm_N r = rm_N rm"
    using rm_inv_after [OF inv refl _ _ r(2,5,3,4)] True by simp
  then show ?thesis using r(1) store_item_contents [OF inv] by simp
next
  case False
  then have full: "rm_sz rm = rm_N rm" and N: "0 < rm_N rm" using inv by (auto simp: rm_inv_def)
  obtain r where r: "ins_ideal v rm = Some r" "shuffled (store_item v rm) r" "ordered r"
    using insert_full [OF inv full] by blast
  let ?s = "store_item v rm"
  have act: "\<forall>n < rm_N rm. active ?s (rm_pos rm n) \<longleftrightarrow> n < rm_sz ?s"
    using inv full by (auto simp: rm_inv_def active_def)
  have "rm_inv r \<and> contents r = contents (store_item v rm) \<and> rm_N r = rm_N rm"
    by (rule rm_inv_after [OF inv, where s = ?s and v = v and mc = "minCt rm" and xc = "maxCt rm"])
      (use inv full N r act store_item_bij [of rm v] in \<open>auto simp: rm_inv_def\<close>)
  then show ?thesis using r(1) store_item_contents [OF inv] by simp
qed

text \<open>The checked routines.\<close>

lemma mmCmpExch_cts: "mmCmpExch rm i j = (c, rm') \<Longrightarrow> minCt rm' = minCt rm \<and> maxCt rm' = maxCt rm"
  by (auto simp: mmCmpExch_def split: if_splits)

lemma minSortUp_cts: "minSortUp rm i = (c, rm') \<Longrightarrow> minCt rm' = minCt rm \<and> maxCt rm' = maxCt rm"
proof (induction rm i arbitrary: c rm' rule: minSortUp.induct)
  case (1 rm i)
  obtain b r where r: "mmCmpExch rm i (half i) = (b, r)" by (cases "mmCmpExch rm i (half i)")
  show ?case
    using "1.prems" "1.IH" [OF _ r [symmetric]] mmCmpExch_cts [OF r] unfolding minSortUp.simps [of rm i] r
    by (cases b) (auto split: if_splits)
qed

lemma maxSortUp_cts: "maxSortUp rm i = (c, rm') \<Longrightarrow> minCt rm' = minCt rm \<and> maxCt rm' = maxCt rm"
proof (induction rm i arbitrary: c rm' rule: maxSortUp.induct)
  case (1 rm i)
  obtain b r where r: "mmCmpExch rm (half i) i = (b, r)" by (cases "mmCmpExch rm (half i) i")
  show ?case
    using "1.prems" "1.IH" [OF _ r [symmetric]] mmCmpExch_cts [OF r] unfolding maxSortUp.simps [of rm i] r
    by (cases b) (auto split: if_splits)
qed

lemma minSortDown_loop_eq: "minCt rm < 2 ^ 30 \<Longrightarrow> minSortDown_loop rm i = Some (min_sink_loop rm i)"
proof (induction rm i rule: min_sink_loop.induct)
  case (1 rm i)
  define j where "j = (if i < minCt rm \<and> mmless rm (i + 1) i then i + 1 else i)"
  show ?case
  proof (cases "0 < i \<and> i \<le> minCt rm")
    case True
    then have j: "0 < j" "j \<le> minCt rm" by (auto simp: j_def)
    obtain b r where r: "mmCmpExch rm j (half j) = (b, r)" by (cases "mmCmpExch rm j (half j)")
    have "i32 (j * 2) = Some (j * 2)" using j "1.prems" by (intro i32_small) simp_all
    moreover have "b \<Longrightarrow> minSortDown_loop r (j * 2) = Some (min_sink_loop r (j * 2))"
      using "1.IH" [OF True j_def r [symmetric]] mmCmpExch_cts [OF r] "1.prems" by simp
    ultimately show ?thesis
      using True unfolding minSortDown_loop.simps [of rm i] min_sink_loop.simps [of rm i] j_def [symmetric] Let_def r
      by (cases b) simp_all
  next
    case False
    show ?thesis unfolding minSortDown_loop.simps [of rm i] min_sink_loop.simps [of rm i] if_not_P [OF False] ..
  qed
qed

lemma maxSortDown_loop_eq: "maxCt rm < 2 ^ 30 \<Longrightarrow> maxSortDown_loop rm i = Some (max_sink_loop rm i)"
proof (induction rm i rule: max_sink_loop.induct)
  case (1 rm i)
  define j where "j = (if i > - maxCt rm \<and> mmless rm i (i - 1) then i - 1 else i)"
  show ?case
  proof (cases "i < 0 \<and> i \<ge> - maxCt rm")
    case True
    then have j: "j < 0" "- maxCt rm \<le> j" by (auto simp: j_def)
    obtain b r where r: "mmCmpExch rm (half j) j = (b, r)" by (cases "mmCmpExch rm (half j) j")
    have "i32 (j * 2) = Some (j * 2)" using j "1.prems" by (intro i32_small) simp_all
    moreover have "b \<Longrightarrow> maxSortDown_loop r (j * 2) = Some (max_sink_loop r (j * 2))"
      using "1.IH" [OF True j_def r [symmetric]] mmCmpExch_cts [OF r] "1.prems" by simp
    ultimately show ?thesis
      using True unfolding maxSortDown_loop.simps [of rm i] max_sink_loop.simps [of rm i] j_def [symmetric] Let_def r
      by (cases b) simp_all
  next
    case False
    show ?thesis unfolding maxSortDown_loop.simps [of rm i] max_sink_loop.simps [of rm i] if_not_P [OF False] ..
  qed
qed

lemma minSortDown_eq: "minCt rm < 2 ^ 30 \<Longrightarrow> - (2 ^ 30) \<le> i \<Longrightarrow> i < 2 ^ 30 \<Longrightarrow> minSortDown rm i = Some (min_sink rm i)"
  by (simp add: minSortDown_def min_sink_def minSortDown_loop_eq i32_small)

lemma maxSortDown_eq: "maxCt rm < 2 ^ 30 \<Longrightarrow> - (2 ^ 30) \<le> i \<Longrightarrow> i < 2 ^ 30 \<Longrightarrow> maxSortDown rm i = Some (max_sink rm i)"
  by (simp add: maxSortDown_def max_sink_def maxSortDown_loop_eq i32_small)

lemma raise_min_eq:
  assumes "maxCt rm < 2 ^ 30"
  shows "raise_min rm p = Some (min_up rm p)"
proof -
  obtain c r where r: "minSortUp rm p = (c, r)" by (cases "minSortUp rm p")
  obtain b t where t: "mmCmpExch r 0 (- 1) = (b, t)" by (cases "mmCmpExch r 0 (- 1)")
  have "maxCt t < 2 ^ 30" using minSortUp_cts [OF r] mmCmpExch_cts [OF t] assms by simp
  then show ?thesis by (cases b) (simp_all add: raise_min_def min_up_def r t maxSortDown_eq)
qed

lemma raise_max_eq:
  assumes "minCt rm < 2 ^ 30"
  shows "raise_max rm p = Some (max_up rm p)"
proof -
  obtain c r where r: "maxSortUp rm p = (c, r)" by (cases "maxSortUp rm p")
  obtain b t where t: "mmCmpExch r 1 0 = (b, t)" by (cases "mmCmpExch r 1 0")
  have "minCt t < 2 ^ 30" using maxSortUp_cts [OF r] mmCmpExch_cts [OF t] assms by simp
  then show ?thesis by (cases b) (simp_all add: raise_max_def max_up_def r t minSortDown_eq)
qed

lemma fix_max_eq:
  assumes "maxCt rm < 2 ^ 30"
  shows "(if maxCt rm \<noteq> 0 then case maxSortUp rm (- 1) of (True, rm) \<Rightarrow> maxSortDown rm (- 1) | (False, rm) \<Rightarrow> Some rm else Some rm)
    = Some (fix_max rm)"
proof -
  obtain c r where r: "maxSortUp rm (- 1) = (c, r)" by (cases "maxSortUp rm (- 1)")
  have "maxCt r < 2 ^ 30" using maxSortUp_cts [OF r] assms by simp
  then show ?thesis by (cases c) (simp_all add: fix_max_def r maxSortDown_eq)
qed

lemma fix_min_eq:
  assumes "minCt rm < 2 ^ 30"
  shows "(if minCt rm \<noteq> 0 then case minSortUp rm 1 of (True, rm) \<Rightarrow> minSortDown rm 1 | (False, rm) \<Rightarrow> Some rm else Some rm)
    = Some (fix_min rm)"
proof -
  obtain c r where r: "minSortUp rm 1 = (c, r)" by (cases "minSortUp rm 1")
  have "minCt r < 2 ^ 30" using minSortUp_cts [OF r] assms by simp
  then show ?thesis by (cases c) (simp_all add: fix_min_def r minSortDown_eq)
qed

lemma max_sink_loop_cts: "minCt (max_sink_loop rm i) = minCt rm"
proof (induction rm i rule: max_sink_loop.induct)
  case (1 rm i)
  define j where "j = (if i > - maxCt rm \<and> mmless rm i (i - 1) then i - 1 else i)"
  obtain b r where r: "mmCmpExch rm (half j) j = (b, r)" by (cases "mmCmpExch rm (half j) j")
  show ?case
    using "1.IH" [OF _ j_def r [symmetric]] mmCmpExch_cts [OF r]
    unfolding max_sink_loop.simps [of rm i] j_def [symmetric] Let_def r by (cases b) auto
qed

lemma fix_max_cts: "minCt (fix_max rm) = minCt rm"
proof -
  obtain c r where r: "maxSortUp rm (- 1) = (c, r)" by (cases "maxSortUp rm (- 1)")
  then show ?thesis using maxSortUp_cts [OF r] by (cases c) (simp_all add: fix_max_def max_sink_def max_sink_loop_cts)
qed

lemma rm_insert_ideal:
  assumes inv: "rm_inv rm"
  shows "rm_insert v rm = ins_ideal v rm"
proof -
  let ?s = "store_item v rm" and ?p = "rm_pos rm (rm_idx rm)"
  have b: "0 < rm_N rm" "rm_N rm < 2 ^ 27" "rm_idx rm < rm_N rm" "rm_sz rm \<le> rm_N rm"
      "maxCt rm = int (rm_sz rm div 2)" "minCt rm = int ((rm_sz rm - 1) div 2)" "rm_bij rm"
    using inv by (simp_all only: rm_inv_def)
  have "in_range rm ?p" using b(3,7) by (simp only: rm_bij_def)
  moreover have "int (rm_N rm div 2) < 2 ^ 30" "int ((rm_N rm - 1) div 2) < 2 ^ 30" using b(2) by simp_all
  ultimately have p: "- (2 ^ 30) \<le> ?p" "?p < 2 ^ 30" unfolding in_range_def by linarith+
  have N: "rm_N rm \<noteq> 0" using b(1) by simp
  have c: "minCt ?s < 2 ^ 29" "maxCt ?s < 2 ^ 29" "0 \<le> minCt ?s" "0 \<le> maxCt ?s"
    using b(2,4) unfolding store_item_simps b(5,6) by simp_all
  have i: "i32 (int (rm_idx rm) + 1) = Some (int (rm_idx rm + 1))" "i32 (int (rm_sz rm) + 1) = Some (int (rm_sz rm + 1))"
      "i32 (minCt ?s + 1) = Some (minCt ?s + 1)" "i32 (maxCt ?s + 1) = Some (maxCt ?s + 1)"
    using b(2-4) c by (simp_all add: i32_def)
  have s: "rm\<lparr>rm_data := (rm_data rm)[rm_idx rm := v], rm_idx := nat (int (rm_idx rm + 1)) mod rm_N rm,
      rm_sz := min (nat (int (rm_sz rm + 1))) (rm_N rm)\<rparr> = ?s" by (simp only: store_item_def nat_int)
  have down: "minSortDown ?s ?p = Some (min_sink ?s ?p)" "maxSortDown ?s ?p = Some (max_sink ?s ?p)"
    using c p by (simp_all add: minSortDown_eq maxSortDown_eq)
  have up: "raise_min ?s ?p = Some (min_up ?s ?p)" "raise_max ?s ?p = Some (max_up ?s ?p)"
    "raise_min (?s\<lparr>minCt := m\<rparr>) ?p = Some (min_up (?s\<lparr>minCt := m\<rparr>) ?p)"
    "raise_max (?s\<lparr>maxCt := m\<rparr>) ?p = Some (max_up (?s\<lparr>maxCt := m\<rparr>) ?p)" for m
    using c by (simp_all add: raise_min_eq raise_max_eq)
  have fm: "maxCt ?s < 2 ^ 30" "minCt (fix_max ?s) < 2 ^ 30" using c by (simp_all add: fix_max_cts)
  show ?thesis
    unfolding rm_insert_def ins_ideal_eq [OF b(1)] if_not_P [OF N] Let_def i(1,2) bind.bind_lunit s i(3,4) down up fix_max_eq [OF fm(1)] fix_min_eq [OF fm(2)]
    by (simp only: if_distrib [of Some] cong: if_cong)
qed

lemma rm_insert_spec:
  assumes inv: "rm_inv rm"
  shows "\<exists>r. rm_insert v rm = Some r \<and> rm_inv r \<and> rm_N r = rm_N rm
    \<and> contents r = drop (Suc (length (contents rm)) - rm_N rm) (contents rm @ [v])"
  unfolding rm_insert_ideal [OF inv] by (rule ins_ideal_spec [OF inv])

text \<open>A cleared structure is empty.\<close>

lemma fill_pos_range: "0 < N \<Longrightarrow> n < N \<Longrightarrow> - int (N div 2) \<le> fill_pos n \<and> fill_pos n \<le> int ((N - 1) div 2)"
  by (cases "even n") (auto simp: fill_pos_cases elim!: evenE oddE)

lemma fill_pos_inj: "fill_pos m = fill_pos n \<longleftrightarrow> m = n"
  by (cases "even m"; cases "even n") (auto simp: fill_pos_cases elim!: evenE oddE, presburger+)

definition unfill_pos :: "int \<Rightarrow> nat" where
  "unfill_pos i = (if i < 0 then nat (- 2 * i - 1) else nat (2 * i))"

lemma unfill_fill: "fill_pos (unfill_pos i) = i" "unfill_pos (fill_pos n) = n"
  by (auto simp: unfill_pos_def fill_pos_def nat_diff_distrib even_nat_iff elim!: evenE oddE)

lemma rm_clear_fields:
  fixes rm :: rolling_median
  defines "r \<equiv> rm_clear rm"
  shows "rm_data r = rm_data rm \<and> rm_N r = rm_N rm \<and> rm_idx r = 0 \<and> minCt r = 0 \<and> maxCt r = 0 \<and> rm_sz r = 0
    \<and> (\<forall>n < rm_N rm. rm_pos r n = fill_pos n \<and> rm_heap r (fill_pos n) = n)"
proof -
  let ?f = "\<lambda>n rm. rm\<lparr>rm_pos := (rm_pos rm)(n := fill_pos n), rm_heap := (rm_heap rm)(fill_pos n := n)\<rparr>"
  have "rm_data (fold ?f ns s) = rm_data s \<and> rm_N (fold ?f ns s) = rm_N s \<and> rm_idx (fold ?f ns s) = rm_idx s
      \<and> minCt (fold ?f ns s) = minCt s \<and> maxCt (fold ?f ns s) = maxCt s \<and> rm_sz (fold ?f ns s) = rm_sz s
      \<and> (\<forall>n. rm_pos (fold ?f ns s) n = (if n \<in> set ns then fill_pos n else rm_pos s n))
      \<and> (\<forall>n. rm_heap (fold ?f ns s) (fill_pos n) = (if n \<in> set ns then n else rm_heap s (fill_pos n)))"
    for ns and s :: rolling_median
    by (induction ns arbitrary: s) (auto simp: fill_pos_inj)
  then show ?thesis by (simp add: r_def rm_clear_def)
qed

lemma rm_clear_inv:
  assumes N: "0 < rm_N rm" and max: "rm_N rm < 2 ^ 27" and len: "length (rm_data rm) = rm_N rm"
  shows "rm_inv (rm_clear rm) \<and> contents (rm_clear rm) = [] \<and> rm_N (rm_clear rm) = rm_N rm"
proof -
  note f = rm_clear_fields [of rm]
  have h: "rm_heap (rm_clear rm) i < rm_N rm \<and> rm_pos (rm_clear rm) (rm_heap (rm_clear rm) i) = i"
    if "in_range rm i" for i
  proof -
    have "unfill_pos i < rm_N rm" using that N by (auto simp: unfill_pos_def in_range_def)
    then show ?thesis using f unfill_fill(1) [of i] by metis
  qed
  have bij: "rm_bij (rm_clear rm)"
    unfolding rm_bij_def
  proof (intro conjI allI impI)
    fix i assume "in_range (rm_clear rm) i"
    then have "in_range rm i" using f by (simp add: in_range_def)
    moreover have "rm_N (rm_clear rm) = rm_N rm" using f by blast
    ultimately show "rm_heap (rm_clear rm) i < rm_N (rm_clear rm)" "rm_pos (rm_clear rm) (rm_heap (rm_clear rm) i) = i"
      using h by simp_all
  qed (use f N len fill_pos_range [OF N] in \<open>auto simp: in_range_def\<close>)
  have "ordered (rm_clear rm)" using f by (simp add: ordered_def heap_ok_def)
  moreover have "active (rm_clear rm) (fill_pos n) \<longleftrightarrow> n < 1" for n
    using f by (cases "even n") (auto simp: active_def fill_pos_cases elim!: evenE oddE)
  ultimately have "rm_inv (rm_clear rm)" using f N max bij by (simp add: rm_inv_def)
  then show ?thesis using f N by (simp add: contents_def)
qed

section \<open>The median\<close>

lemma contents_mset:
  assumes "rm_inv rm"
  shows "mset (contents rm) = image_mset (\<lambda>n. rm_data rm ! n) (mset_set {..<rm_sz rm})"
    and "length (contents rm) = rm_sz rm"
proof -
  have len: "length (rm_data rm) = rm_N rm" "rm_sz rm \<le> rm_N rm" "rm_idx rm < rm_N rm"
    using assms by (auto simp: rm_inv_def rm_bij_def)
  show l: "length (contents rm) = rm_sz rm" using len by (auto simp: contents_def)
  have "mset (contents rm) = mset (take (rm_sz rm) (rm_data rm))"
    using len by (cases "rm_sz rm < rm_N rm")
      (auto simp: contents_def simp flip: mset_append, metis append_take_drop_id mset_append union_commute)
  also have "\<dots> = mset (map (\<lambda>n. rm_data rm ! n) [0..<rm_sz rm])"
    using len by (intro arg_cong [of _ _ mset] nth_equalityI) simp_all
  finally show "mset (contents rm) = image_mset (\<lambda>n. rm_data rm ! n) (mset_set {..<rm_sz rm})"
    by (simp add: lessThan_atLeast0)
qed

lemma sort_around:
  fixes m :: "'a::linorder"
  assumes "mset xs = mset (L @ m # R)" "\<forall>x \<in> set L. x \<le> m" "\<forall>x \<in> set R. m \<le> x"
  shows "sort xs = sort L @ m # sort R"
proof (rule properties_for_sort)
  show "mset (sort L @ m # sort R) = mset xs" using assms(1) by simp
  show "sorted (sort L @ m # sort R)" using assms(2,3) by (fastforce simp: sorted_append)
qed

lemma active_values:
  assumes inv: "rm_inv rm" and sz: "0 < rm_sz rm"
  defines "mx \<equiv> rm_sz rm div 2" and "mn \<equiv> (rm_sz rm - 1) div 2"
  shows "mset (contents rm) = mset (map (maxv rm) [1..<Suc mx] @ rm_val rm 0 # map (minv rm) [1..<Suc mn])"
proof -
  let ?A = "{- int mx..int mn}"
  have b: "rm_bij rm" and cts: "maxCt rm = int mx" "minCt rm = int mn"
    and act: "\<forall>n < rm_N rm. active rm (rm_pos rm n) \<longleftrightarrow> n < rm_sz rm"
    using inv sz by (auto simp: rm_inv_def mx_def mn_def)
  have A: "i \<in> ?A \<longleftrightarrow> active rm i" for i by (auto simp: active_def cts)
  have r: "in_range rm i" if "active rm i" for i
    using that b by (auto simp: active_def rm_bij_def in_range_def)
  have inj: "inj_on (rm_heap rm) ?A"
    using b r A unfolding inj_on_def rm_bij_def by metis
  have "rm_heap rm ` ?A = {..<rm_sz rm}"
  proof (intro equalityI subsetI)
    fix n assume "n \<in> rm_heap rm ` ?A"
    then obtain i where "active rm i" "n = rm_heap rm i" using A by auto
    then show "n \<in> {..<rm_sz rm}" using b r act unfolding rm_bij_def by (metis lessThan_iff)
  next
    fix n assume "n \<in> {..<rm_sz rm}"
    then have n: "n < rm_N rm" "active rm (rm_pos rm n)" using inv act by (auto simp: rm_inv_def)
    then show "n \<in> rm_heap rm ` ?A" using b A unfolding rm_bij_def by (metis imageI)
  qed
  then have "mset (contents rm) = image_mset (\<lambda>n. rm_data rm ! n) (image_mset (rm_heap rm) (mset_set ?A))"
    using contents_mset(1) [OF inv] image_mset_mset_set [OF inj] by simp
  also have "\<dots> = image_mset (rm_val rm) (mset_set ?A)"
    by (simp add: rm_val_def [abs_def] multiset.map_comp comp_def)
  also have "?A = (\<lambda>j. - int j) ` {1..mx} \<union> insert 0 (int ` {1..mn})"
  proof (intro equalityI subsetI)
    fix i assume i: "i \<in> ?A"
    then show "i \<in> (\<lambda>j. - int j) ` {1..mx} \<union> insert 0 (int ` {1..mn})"
    proof (cases "i < 0")
      case True
      then have "i = - int (nat (- i))" "nat (- i) \<in> {1..mx}" using i by auto
      then show ?thesis by blast
    next
      case False
      then have "i = int (nat i)" "i = 0 \<or> nat i \<in> {1..mn}" using i by auto
      then show ?thesis by blast
    qed
  qed auto
  also have "mset_set \<dots> = image_mset (\<lambda>j. - int j) (mset_set {1..mx}) + add_mset 0 (image_mset int (mset_set {1..mn}))"
  proof -
    have "mset_set (insert 0 (int ` {1..mn})) = add_mset 0 (mset_set (int ` {1..mn}))"
      by (rule mset_set.insert) auto
    then show ?thesis by (subst mset_set_Union) (auto simp: image_mset_mset_set inj_on_def)
  qed
  finally have "mset (contents rm) = image_mset (maxv rm) (mset_set {1..mx})
      + add_mset (rm_val rm 0) (image_mset (minv rm) (mset_set {1..mn}))"
    by (simp add: multiset.map_comp comp_def maxv_def [abs_def] minv_def [abs_def])
  moreover have "mset_set {1..k} = mset [1..<Suc k]" for k
    by (simp only: mset_upt atLeastLessThanSuc_atLeastAtMost)
  ultimately show ?thesis by (simp only: mset_append mset_map mset.simps)
qed

lemma rm_median_spec:
  assumes inv: "rm_inv rm" and sz: "contents rm \<noteq> []"
  shows "rm_median rm = Some (median (contents rm))"
proof -
  define mx mn where "mx = rm_sz rm div 2" and "mn = (rm_sz rm - 1) div 2"
  let ?L = "map (maxv rm) [1..<Suc mx]" and ?R = "map (minv rm) [1..<Suc mn]" and ?m = "rm_val rm 0"
  have len: "length (contents rm) = rm_sz rm" using contents_mset(2) [OF inv] .
  have pos: "0 < rm_sz rm" using len sz by (metis length_greater_0_conv)
  have b: "rm_bij rm" and ord: "ordered rm" and cts: "maxCt rm = int mx" "minCt rm = int mn"
    using inv by (auto simp: rm_inv_def mx_def mn_def)
  have omx: "heap_ok (>) mx (maxv rm)" and omn: "heap_ok (<) mn (minv rm)"
    using ord cts by (auto simp: ordered_def)
  have L: "\<forall>x \<in> set ?L. x \<le> ?m" using maxside.heap_ok_top [OF omx] by (auto simp: not_less simp del: upt_Suc)
  have R: "\<forall>x \<in> set ?R. ?m \<le> x" using minside.heap_ok_top [OF omn] by (auto simp: not_less simp del: upt_Suc)
  have srt: "sort (contents rm) = sort ?L @ ?m # sort ?R"
    using sort_around [OF active_values [OF inv pos, folded mx_def mn_def] L R] .
  have rng: "in_range rm 0" "0 < mx \<Longrightarrow> in_range rm (- 1)" using b cts by (auto simp: rm_bij_def in_range_def)
  have rd: "vec_at (rm_data rm) (rm_heap rm i) = Some (rm_val rm i)" if "in_range rm i" for i
    using b that by (simp add: rm_bij_def vec_at_def rm_val_def)
  show ?thesis
  proof (cases "even (rm_sz rm)")
    case False
    then have eq: "mx = mn" "rm_sz rm mod 2 \<noteq> 0" by (auto simp: mx_def mn_def elim: oddE)
    have "sort (contents rm) ! mx = ?m" by (simp add: srt nth_append)
    moreover have "length (contents rm) = 1 \<Longrightarrow> sort (contents rm) = contents rm"
      by (cases "contents rm") auto
    ultimately have "median (contents rm) = ?m"
      using len pos eq sz unfolding median_def mx_def by (auto simp: Let_def)
    then show ?thesis using rd [OF rng(1)] eq cts by (simp add: rm_median_def)
  next
    case True
    then have eq: "mn < mx" "0 < mx" "rm_sz rm mod 2 = 0" using pos by (auto simp: mx_def mn_def elim: evenE)
    have last: "sort ?L = sort (map (maxv rm) [2..<Suc mx]) @ [maxv rm 1]"
    proof -
      have "mset ?L = mset (map (maxv rm) [2..<Suc mx] @ maxv rm 1 # [])"
        using eq by (subst upt_conv_Cons) (auto simp: numeral_2_eq_2)
      moreover have "\<forall>x \<in> set (map (maxv rm) [2..<Suc mx]). x \<le> maxv rm 1"
        using maxside.heap_ok_first [OF omx] by (auto simp: not_less simp del: upt_Suc)
      ultimately show ?thesis using sort_around [of ?L _ "maxv rm 1" "[]"] by simp
    qed
    have "sort (contents rm) ! mx = ?m" by (simp add: srt nth_append)
    moreover have "sort (contents rm) ! (mx - 1) = maxv rm 1"
      unfolding srt last using eq by (simp add: nth_append del: upt_Suc)
    ultimately have "median (contents rm) = get_mid (maxv rm 1) ?m"
      using len pos eq sz unfolding median_def mx_def by (auto simp: Let_def)
    then show ?thesis
      using rd [OF rng(1)] rd [OF rng(2) [OF eq(2)]] eq cts
      by (simp add: rm_median_def get_mid_commute maxv_def)
  qed
qed

section \<open>The interface\<close>

lemma window_slide:
  fixes v :: 'a
  assumes "length xs \<le> k"
  defines "w \<equiv> drop (Suc (length xs) - k) (xs @ [v])"
  shows "drop (length w + length vs - k) (w @ vs) = drop (length xs + length (v # vs) - k) (xs @ v # vs)"
proof -
  have b: "Suc (length xs) - k \<le> length (xs @ [v])" by simp
  have "w @ vs = drop (Suc (length xs) - k) (xs @ v # vs)" using b by (cases k) (simp_all add: w_def)
  then have "drop (length w + length vs - k) (w @ vs) =
      drop (length w + length vs - k + (Suc (length xs) - k)) (xs @ v # vs)"
    by (simp only: drop_drop)
  also have "length w + length vs - k + (Suc (length xs) - k) = length xs + length (v # vs) - k"
    using assms(1) by (cases "length xs = k") (auto simp: w_def)
  finally show ?thesis .
qed

text \<open>What a window with a median promises its clients.\<close>

locale median_window =
  fixes inv :: "'s \<Rightarrow> bool" and cap :: "'s \<Rightarrow> nat" and items :: "'s \<Rightarrow> u64 list"
    and ins :: "u64 \<Rightarrow> 's \<Rightarrow> 's option" and med :: "'s \<Rightarrow> u64 option"
  assumes ins_law: "inv s \<Longrightarrow> \<exists>s'. ins v s = Some s' \<and> inv s' \<and> cap s' = cap s
      \<and> items s' = drop (Suc (length (items s)) - cap s) (items s @ [v])"
    and items_le: "inv s \<Longrightarrow> length (items s) \<le> cap s"
    and med_law: "inv s \<Longrightarrow> items s \<noteq> [] \<Longrightarrow> med s = Some (median (items s))"
begin

lemma ins_all:
  "inv s \<Longrightarrow> \<exists>s'. ofold ins vs s = Some s' \<and> inv s' \<and> cap s' = cap s
    \<and> items s' = drop (length (items s) + length vs - cap s) (items s @ vs)"
proof (induction vs arbitrary: s)
  case Nil
  then show ?case using items_le [OF Nil] by simp
next
  case (Cons v vs)
  obtain t where t: "ins v s = Some t" "inv t" "cap t = cap s"
      "items t = drop (Suc (length (items s)) - cap s) (items s @ [v])"
    using ins_law [OF Cons.prems] by blast
  obtain u where u: "ofold ins vs t = Some u" "inv u" "cap u = cap t"
      "items u = drop (length (items t) + length vs - cap t) (items t @ vs)"
    using Cons.IH [OF t(2)] by blast
  have "items u = drop (length (items s) + length (v # vs) - cap s) (items s @ v # vs)"
    unfolding u(4) t(3,4) using window_slide [OF items_le [OF Cons.prems], of v vs] by simp
  then show ?case using t u by simp
qed

lemma ins_all_median:
  assumes "inv s" "items s = []" "0 < cap s" "vs \<noteq> []"
  shows "\<exists>s'. ofold ins vs s = Some s' \<and> inv s' \<and> length (items s') = min (cap s) (length vs)
    \<and> med s' = Some (median (drop (length vs - cap s) vs))"
proof -
  obtain s' where s': "ofold ins vs s = Some s'" "inv s'" "items s' = drop (length vs - cap s) vs"
    using ins_all [OF assms(1), of vs] assms(2) by auto
  have "0 < length vs" using assms(4) by simp
  then have "items s' \<noteq> []" using s'(3) assms(3) by (metis drop_eq_Nil diff_less not_less)
  then show ?thesis using s' med_law [OF s'(2)] by auto
qed

end

lemma contents_le: "rm_inv rm \<Longrightarrow> length (contents rm) \<le> rm_N rm"
  using contents_mset(2) [of rm] by (simp add: rm_inv_def)

interpretation rolling: median_window rm_inv rm_N contents rm_insert rm_median
  using rm_insert_spec contents_le rm_median_spec by unfold_locales blast+

lemma alloc_fits: "i32 (int n * (8 + 4 * 2)) = (if n < 2 ^ 27 then Some (int n * 16) else None)"
  by (simp add: i32_def)

lemma new_rolling_median_inv:
  assumes "0 < N"
  shows "if unat N < 2 ^ 27 then \<exists>rm. new_rolling_median d p h N = Some rm \<and> rm_inv rm \<and> contents rm = [] \<and> rm_N rm = unat N
    else new_rolling_median d p h N = None"
proof (cases "unat N < 2 ^ 27")
  case True
  let ?r = "\<lparr>rm_data = vec_resize (unat N) 0 d, rm_pos = p, rm_heap = h, rm_N = unat N, rm_idx = 0, minCt = 0, maxCt = 0, rm_sz = 0\<rparr>"
  have "rm_inv (rm_clear ?r) \<and> contents (rm_clear ?r) = [] \<and> rm_N (rm_clear ?r) = unat N"
    using rm_clear_inv [of ?r] assms True by (simp add: unat_gt_0)
  moreover have "new_rolling_median d p h N = Some (rm_clear ?r)"
    using True unfolding alloc_fits new_rolling_median_def by simp
  ultimately show ?thesis using True by simp
next
  case False
  then show ?thesis unfolding new_rolling_median_def alloc_fits by simp
qed

section \<open>Properties\<close>

text \<open>C13: The rolling median is the median.  A \<open>rolling_median_t\<close> of capacity \<open>N > 0\<close> can be constructed exactly when
  \<open>N < 2^27\<close>, so that its allocation size is an \<open>int\<close>.  Whatever the uninitialised memory held, after inserting any non-empty
  sequence of items its size is the number of items up to \<open>N\<close> and its median is the median of the vector of the last \<open>N\<close> items: the
  two heaps, their index tables and the circular queue stay consistent through every exchange, and no \<open>int\<close> overflows.\<close>

theorem rolling_median_correct:
  assumes "0 < N" "vs \<noteq> []"
  shows "if unat N < 2 ^ 27
    then \<exists>rm0 rm. new_rolling_median d p h N = Some rm0 \<and> ofold rm_insert vs rm0 = Some rm
      \<and> rm_sz rm = min (unat N) (length vs) \<and> rm_median rm = Some (median (drop (length vs - unat N) vs))
    else new_rolling_median d p h N = None"
proof (cases "unat N < 2 ^ 27")
  case True
  then obtain rm0 where r0: "new_rolling_median d p h N = Some rm0" "rm_inv rm0" "contents rm0 = []" "rm_N rm0 = unat N"
    using new_rolling_median_inv [OF assms(1), of d p h] by auto
  have "0 < rm_N rm0" using r0(4) assms(1) by (simp add: unat_gt_0)
  from rolling.ins_all_median [OF r0(2,3) this assms(2)]
  obtain rm where "ofold rm_insert vs rm0 = Some rm" "rm_inv rm" "length (contents rm) = min (rm_N rm0) (length vs)"
    "rm_median rm = Some (median (drop (length vs - rm_N rm0) vs))" by blast
  then show ?thesis using True r0 contents_mset(2) [of rm] by auto
next
  case False
  then show ?thesis using new_rolling_median_inv [OF assms(1), of d p h] by simp
qed

theorem rolling_median_correct_witness:
  "\<exists>rm0 rm. new_rolling_median [7] (\<lambda>_. 3) (\<lambda>_. 8) 3 = Some rm0 \<and> ofold rm_insert [5, 1, 4, 9, 2] rm0 = Some rm
    \<and> rm_sz rm = min (unat (3 :: u64)) (length [5, 1, 4, 9, 2 :: u64])
    \<and> rm_median rm = Some (median (drop (length [5, 1, 4, 9, 2 :: u64] - unat (3 :: u64)) [5, 1, 4, 9, 2]))"
  using rolling_median_correct [of 3 "[5, 1, 4, 9, 2]" "[7]" "\<lambda>_. 3" "\<lambda>_. 8"] by simp

text \<open>The midpoint of two 64-bit numbers is their exact rounded-down average, without overflow.\<close>

theorem get_mid_exact: "unat (get_mid a b) = (unat a + unat b) div 2"
  by (rule unat_get_mid)

end
