(* ===== verification/Money.thy ===== *)
theory Money
  imports Prelude_Monero
begin

text \<open>
  Amounts as text (\<open>src/cryptonote_basic/cryptonote_format_utils.cpp\<close>): printing and parsing with a
  decimal point, rounding up to significant digits, denominations.  \<open>default_decimal_point\<close>, a
  global of the code, is an argument; \<open>boost::algorithm::trim\<close> and \<open>boost::lexical_cast\<close> are
  the parameters \<open>trim\<close> and \<open>lexical_cast\<close>.
\<close>

section \<open>Decimal strings\<close>

definition digit_char :: "nat \<Rightarrow> char" where
  "digit_char d = char_of (48 + d)"

fun to_string :: "nat \<Rightarrow> string" where
  "to_string n = (if n < 10 then [digit_char n] else to_string (n div 10) @ [digit_char (n mod 10)])"

declare to_string.simps [simp del]

definition isdigit :: "char \<Rightarrow> bool" where
  "isdigit c \<longleftrightarrow> 48 \<le> (of_char c :: nat) \<and> (of_char c :: nat) \<le> 57"

definition dec_value :: "string \<Rightarrow> nat" where
  "dec_value s = foldl (\<lambda>a c. 10 * a + (of_char c - 48)) 0 s"

section \<open>The operations\<close>

definition valid_decimal_point :: "u32 \<Rightarrow> bool" where
  "valid_decimal_point p \<longleftrightarrow> p = 12 \<or> p = 9 \<or> p = 6 \<or> p = 3 \<or> p = 0"

definition set_default_decimal_point :: "u32 \<Rightarrow> u32 option" where
  "set_default_decimal_point decimal_point = (if valid_decimal_point decimal_point then Some decimal_point else None)"

definition get_unit :: "u32 \<Rightarrow> u32 \<Rightarrow> string option" where
  "get_unit default_decimal_point decimal_point =
     (let p = (if decimal_point = - 1 then default_decimal_point else decimal_point)
      in if p = 12 then Some ''monero'' else if p = 9 then Some ''millinero''
         else if p = 6 then Some ''micronero'' else if p = 3 then Some ''nanonero''
         else if p = 0 then Some ''piconero'' else None)"

definition insert_money_decimal_point :: "u32 \<Rightarrow> string \<Rightarrow> u32 \<Rightarrow> string" where
  "insert_money_decimal_point default_decimal_point s decimal_point =
     (let p = unat (if decimal_point = - 1 then default_decimal_point else decimal_point);
          s = (if length s < p + 1 then replicate (p + 1 - length s) (CHR ''0'') @ s else s)
      in if p > 0 then take (length s - p) s @ ''.'' @ drop (length s - p) s else s)"

definition print_money :: "u32 \<Rightarrow> u64 \<Rightarrow> u32 \<Rightarrow> string" where
  "print_money default_decimal_point amount decimal_point =
     insert_money_decimal_point default_decimal_point (to_string (unat amount)) decimal_point"

definition print_money_128 :: "u32 \<Rightarrow> u128 \<Rightarrow> u32 \<Rightarrow> string" where
  "print_money_128 default_decimal_point amount decimal_point =
     insert_money_decimal_point default_decimal_point (to_string (unat amount)) decimal_point"

fun drop_zeros :: "nat \<Rightarrow> string \<Rightarrow> nat \<Rightarrow> string \<times> nat" where
  "drop_zeros dp str_amount fraction_size =
     (if dp < fraction_size \<and> str_amount \<noteq> [] \<and> last str_amount = CHR ''0''
      then drop_zeros dp (butlast str_amount) (fraction_size - 1) else (str_amount, fraction_size))"

declare drop_zeros.simps [simp del]

definition get_xtype_from_string :: "(string \<Rightarrow> u64 option) \<Rightarrow> string \<Rightarrow> u64 option" where
  "get_xtype_from_string lexical_cast str_id =
     (if \<exists>c \<in> set str_id. \<not> isdigit c then None else lexical_cast str_id)"

definition parse_amount ::
  "(string \<Rightarrow> string) \<Rightarrow> (string \<Rightarrow> u64 option) \<Rightarrow> u32 \<Rightarrow> string \<Rightarrow> u64 option" where
  "parse_amount trim lexical_cast default_decimal_point s0 = do {
     let dp = unat default_decimal_point;
     let str_amount = trim s0;
     (str_amount, fraction_size) \<leftarrow>
       (if CHR ''.'' \<in> set str_amount then do {
          let point_index = length (takeWhile (\<lambda>c. c \<noteq> CHR ''.'') str_amount);
          let (str_amount, fraction_size) = drop_zeros dp str_amount (length str_amount - point_index - 1);
          if dp < fraction_size then None
          else Some (take point_index str_amount @ drop (Suc point_index) str_amount, fraction_size) }
        else Some (str_amount, 0));
     if str_amount = [] then None
     else do {
       let str_amount = (if fraction_size < dp then str_amount @ replicate (dp - fraction_size) (CHR ''0'') else str_amount);
       get_xtype_from_string lexical_cast str_amount } }"

text \<open>\<open>round_money_up\<close> works on the text of the amount; \<open>strtoull\<close> saturates and sets \<open>errno\<close>.\<close>

fun zero_tail :: "string \<Rightarrow> bool \<Rightarrow> bool \<times> string" where
  "zero_tail [] bump = (bump, [])"
| "zero_tail (c # cs) bump =
     (let (b, cs') = zero_tail cs (if c \<noteq> CHR ''0'' then True else bump)
      in (b, (if c \<noteq> CHR ''0'' then CHR ''0'' else c) # cs'))"

fun bump_digits :: "nat \<Rightarrow> bool \<Rightarrow> string \<Rightarrow> bool \<times> string" where
  "bump_digits 0 bump buf = (bump, buf)"
| "bump_digits (Suc ptr) bump buf =
     (if bump then
        if buf ! ptr = CHR ''9'' then bump_digits ptr True (buf[ptr := CHR ''0''])
        else (False, buf[ptr := char_of ((of_char (buf ! ptr) :: nat) + 1)])
      else (bump, buf))"

definition strtoull :: "string \<Rightarrow> u64 \<times> bool" where
  "strtoull s = (if dec_value s < 2 ^ 64 then (of_nat (dec_value s), True) else (- 1, False))"

definition round_money_up :: "u64 \<Rightarrow> u32 \<Rightarrow> u64 option" where
  "round_money_up amount significant_digits =
     (if significant_digits = 0 then None
      else
        let sd = unat significant_digits;
            buf = to_string (unat amount);
            buf = (if length buf > sd then
                     let (bump, rest) = zero_tail (drop sd buf) False;
                         (bump, buf) = bump_digits sd bump (take sd buf @ rest)
                     in if bump then CHR ''1'' # buf else buf
                   else buf);
            (ull, errno_0) = strtoull buf
        in if \<not> (ull \<noteq> - 1 \<or> errno_0) then None
           else if \<not> (ull \<noteq> 0 \<or> amount = 0) then None
           else Some ull)"

definition round_money_up_text ::
  "(string \<Rightarrow> string) \<Rightarrow> (string \<Rightarrow> u64 option) \<Rightarrow> u32 \<Rightarrow> string \<Rightarrow> u32 \<Rightarrow> string option" where
  "round_money_up_text trim lexical_cast default_decimal_point s significant_digits = do {
     amount \<leftarrow> parse_amount trim lexical_cast default_decimal_point s;
     amount \<leftarrow> round_money_up amount significant_digits;
     Some (print_money default_decimal_point amount (- 1)) }"

function (sequential) strip_zeros :: "nat \<Rightarrow> nat" where
  "strip_zeros amount = (if amount \<noteq> 0 \<and> amount mod 10 = 0 then strip_zeros (amount div 10) else amount)"
  by pat_completeness auto
termination by (relation "measure id") auto

declare strip_zeros.simps [simp del]

text \<open>The loop divides out trailing zeros; it is only reached with a non-zero amount, where it ends.\<close>

definition is_valid_decomposed_amount :: "u64 \<Rightarrow> bool" where
  "is_valid_decomposed_amount amount = (amount \<noteq> 0 \<and> strip_zeros (unat amount) < 10)"

section \<open>Decimal value of a string\<close>

lemma dec_value_append: "dec_value (s @ t) = dec_value s * 10 ^ length t + dec_value t"
proof (induction t rule: rev_induct)
  case (snoc c t)
  then show ?case by (simp add: dec_value_def algebra_simps)
qed (simp add: dec_value_def)

lemma dec_value_Nil [simp]: "dec_value [] = 0" by (simp add: dec_value_def)

lemma dec_value_single: "dec_value [c] = of_char c - 48" by (simp add: dec_value_def)

lemma dec_value_Cons: "dec_value (c # s) = (of_char c - 48) * 10 ^ length s + dec_value s"
  using dec_value_append [of "[c]" s] by (simp add: dec_value_single)

lemma dec_value_zeros [simp]: "dec_value (replicate n (CHR ''0'')) = 0"
  by (induction n) (auto simp: dec_value_Cons)

lemma of_char_digit: "d < 10 \<Longrightarrow> (of_char (digit_char d) :: nat) = 48 + d"
  by (simp add: digit_char_def of_char_of)

lemma dec_value_to_string [simp]: "dec_value (to_string n) = n"
proof (induction n rule: to_string.induct)
  case (1 n)
  show ?case using 1 by (subst to_string.simps) (auto simp: dec_value_append dec_value_single of_char_digit)
qed

lemma to_string_digits: "c \<in> set (to_string n) \<Longrightarrow> isdigit c"
proof (induction n rule: to_string.induct)
  case (1 n)
  then show ?case by (subst (asm) (2) to_string.simps) (auto simp: isdigit_def of_char_digit split: if_splits)
qed

lemma to_string_nonempty [simp]: "to_string n \<noteq> []" by (subst to_string.simps) simp

lemma digit_le: "isdigit c \<Longrightarrow> (of_char c :: nat) - 48 \<le> 9"
  unfolding isdigit_def by arith

lemma dec_value_less: "\<forall>c \<in> set s. isdigit c \<Longrightarrow> dec_value s < 10 ^ length s"
proof (induction s)
  case (Cons c s)
  have "((of_char c :: nat) - 48) * 10 ^ length s \<le> 9 * 10 ^ length s"
    using digit_le [of c] Cons.prems by (intro mult_right_mono) auto
  moreover have "dec_value s < 10 ^ length s" using Cons by simp
  ultimately have "(of_char c - 48) * 10 ^ length s + dec_value s < 10 * 10 ^ length s" by linarith
  then show ?case by (simp add: dec_value_Cons)
qed simp

lemma dec_value_0_iff: "\<forall>c \<in> set s. isdigit c \<Longrightarrow> dec_value s = 0 \<longleftrightarrow> (\<forall>c \<in> set s. c = CHR ''0'')"
proof (induction s)
  case (Cons c s)
  have "(of_char c - 48 :: nat) = 0 \<longleftrightarrow> c = CHR ''0''"
  proof
    assume "(of_char c - 48 :: nat) = 0"
    then have "(of_char c :: nat) = of_char (CHR ''0'')" using Cons.prems by (simp add: isdigit_def)
    then show "c = CHR ''0''" using of_char_eq_iff by blast
  qed simp
  then show ?case using Cons by (auto simp: dec_value_Cons)
qed simp

section \<open>Rounding up\<close>

lemma zero_tail_eq:
  "zero_tail s bump = (bump \<or> (\<exists>c \<in> set s. c \<noteq> CHR ''0''), replicate (length s) (CHR ''0''))"
  by (induction s bump rule: zero_tail.induct) (auto simp: Let_def)

lemma bump_digits_value:
  assumes "\<forall>c \<in> set (take p s). isdigit c" "p \<le> length s"
  shows "case bump_digits p True s of (b, s') \<Rightarrow>
    length s' = length s \<and> drop p s' = drop p s
    \<and> dec_value (take p s') + (if b then 10 ^ p else 0) = dec_value (take p s) + 1"
  using assms
proof (induction p arbitrary: s)
  case (Suc p)
  have tk: "take (Suc p) t = take p t @ [t ! p]" if "p < length t" for t :: string
    using that by (simp add: take_Suc_conv_app_nth)
  have val: "dec_value (take (Suc p) t) = dec_value (take p t) * 10 + (of_char (t ! p) - 48)"
    if "p < length t" for t
    using tk [OF that] by (simp add: dec_value_append dec_value_single)
  have dg: "isdigit (s ! p)" "\<forall>c \<in> set (take p s). isdigit c" using Suc.prems tk [of s] by auto
  show ?case
  proof (cases "s ! p = CHR ''9''")
    case True
    let ?s = "s[p := CHR ''0'']"
    have "\<forall>c \<in> set (take p ?s). isdigit c" using dg by simp
    then have ih: "case bump_digits p True ?s of (b, s') \<Rightarrow>
        length s' = length ?s \<and> drop p s' = drop p ?s
        \<and> dec_value (take p s') + (if b then 10 ^ p else 0) = dec_value (take p ?s) + 1"
      using Suc.IH [of ?s] Suc.prems by simp
    obtain b s' where bs: "bump_digits p True ?s = (b, s')" by fastforce
    have l: "length s' = length s" and d: "drop p s' = drop p ?s"
      and v: "dec_value (take p s') + (if b then 10 ^ p else 0) = dec_value (take p s) + 1"
      using ih bs by auto
    have "s' ! p = CHR ''0''" using d Suc.prems l by (metis Suc_le_eq hd_drop_conv_nth length_list_update nth_list_update_eq)
    moreover have "drop (Suc p) s' = drop (Suc p) s"
      using arg_cong [OF d, of "drop 1"] by (simp add: drop_update_cancel)
    ultimately show ?thesis using True bs l v Suc.prems by (auto simp: val)
  next
    case False
    then have lt: "(of_char (s ! p) :: nat) < 57"
      using dg(1) of_char_eq_iff [where ?'a = nat, of "s ! p" "CHR ''9''"] by (auto simp: isdigit_def le_less)
    then have "(of_char (char_of ((of_char (s ! p) :: nat) + 1)) :: nat) = of_char (s ! p) + 1"
      by (simp add: of_char_of)
    then show ?thesis using False lt dg(1) Suc.prems by (auto simp: val isdigit_def)
  qed
qed (simp add: dec_value_def)

definition round_up :: "nat \<Rightarrow> nat \<Rightarrow> nat" where
  "round_up m n = (n + m - 1) div m * m"

lemma round_up_split:
  assumes "t < m"
  shows "round_up m (h * m + t) = (h + (if t = 0 then 0 else 1)) * m"
proof -
  obtain k where m: "m = Suc k" using assms by (cases m) auto
  show ?thesis
  proof (cases "t = 0")
    case True
    have "(k + h * Suc k) div Suc k = h" by (simp del: mult_Suc_right)
    then show ?thesis using True by (simp add: round_up_def m add.commute)
  next
    case False
    then have e: "h * m + t + m - 1 = (t - 1) + (h + 1) * m" using assms by (simp add: algebra_simps)
    have "((t - 1) + (h + 1) * m) div m = h + 1"
      using assms by (simp only: div_mult_self1 [of m] div_less)
    then show ?thesis unfolding round_up_def e using False by simp
  qed
qed

lemma round_up_upper:
  assumes "0 < m"
  shows "n \<le> round_up m n \<and> round_up m n < n + m \<and> m dvd round_up m n"
proof -
  define h t where ht: "h = n div m" "t = n mod m"
  have n: "n = h * m + t" and t: "t < m" using assms by (simp_all add: ht)
  show ?thesis unfolding n round_up_split [OF t] distrib_right using t by simp
qed

lemma bump_digits_False [simp]: "bump_digits p False s = (False, s)"
  by (cases p) auto

lemma rounded_text:
  assumes dig: "\<forall>c \<in> set buf. isdigit c" and sd: "sd < length buf"
  shows "dec_value (let (bump, rest) = zero_tail (drop sd buf) False;
                (bump, buf) = bump_digits sd bump (take sd buf @ rest)
            in if bump then CHR ''1'' # buf else buf)
    = round_up (10 ^ (length buf - sd)) (dec_value buf)"
proof -
  let ?k = "length buf - sd" and ?h = "dec_value (take sd buf)" and ?t = "dec_value (drop sd buf)"
  let ?b = "\<exists>c \<in> set (drop sd buf). c \<noteq> CHR ''0''"
  have dt: "\<forall>c \<in> set (drop sd buf). isdigit c" "\<forall>c \<in> set (take sd buf). isdigit c"
    using dig set_drop_subset [of sd buf] set_take_subset [of sd buf] by blast+
  have t: "?t < 10 ^ ?k" using dec_value_less [OF dt(1)] by simp
  have b: "?b \<longleftrightarrow> ?t \<noteq> 0" using dec_value_0_iff [OF dt(1)] by simp
  have sp: "dec_value buf = ?h * 10 ^ ?k + ?t"
    using dec_value_append [of "take sd buf" "drop sd buf"] by simp
  let ?s = "take sd buf @ replicate ?k (CHR ''0'')"
  have zt: "zero_tail (drop sd buf) False = (?b, replicate ?k (CHR ''0''))" by (simp add: zero_tail_eq)
  show ?thesis
  proof (cases ?b)
    case False
    then have "zero_tail (drop sd buf) False = (False, replicate ?k (CHR ''0''))" "?t = 0" using zt b by simp_all
    then show ?thesis using sp round_up_split [OF t, of ?h] by (simp add: dec_value_append)
  next
    case True
    obtain b' s' where bs: "bump_digits sd True ?s = (b', s')" by fastforce
    have "\<forall>c \<in> set (take sd ?s). isdigit c" "sd \<le> length ?s" using dt sd by auto
    from bump_digits_value [OF this] bs sd
    have l: "length s' = length buf" and d: "drop sd s' = replicate ?k (CHR ''0'')"
      and v: "dec_value (take sd s') + (if b' then 10 ^ sd else 0) = ?h + 1" by auto
    have "s' = take sd s' @ replicate ?k (CHR ''0'')" using d append_take_drop_id by metis
    then have "dec_value s' = dec_value (take sd s') * 10 ^ ?k"
      using dec_value_append [of "take sd s'" "replicate ?k (CHR ''0'')"] by simp
    moreover have "(10::nat) ^ length buf = 10 ^ sd * 10 ^ ?k" using sd by (simp flip: power_add)
    ultimately have "dec_value (if b' then CHR ''1'' # s' else s') = (?h + 1) * 10 ^ ?k"
      unfolding v [symmetric] using l by (simp add: dec_value_Cons algebra_simps)
    then show ?thesis using zt True bs b sp round_up_split [OF t, of ?h] by simp
  qed
qed


definition num_digits :: "nat \<Rightarrow> nat" where
  "num_digits n = length (to_string n)"

lemma num_digits_upper: "n < 10 ^ num_digits n"
  using dec_value_less [of "to_string n"] to_string_digits by (auto simp: num_digits_def)

lemma num_digits_lower: "0 < n \<Longrightarrow> 10 ^ (num_digits n - 1) \<le> n"
proof (induction n rule: to_string.induct)
  case (1 n)
  show ?case
  proof (cases "n < 10")
    case False
    then have "10 ^ (num_digits (n div 10) - 1) \<le> n div 10" using 1 by simp
    moreover have "num_digits n = Suc (num_digits (n div 10))"
      using False by (simp add: num_digits_def to_string.simps [of n])
    moreover have "0 < num_digits (n div 10)" by (simp add: num_digits_def)
    ultimately have "10 ^ (num_digits n - 1) \<le> n div 10 * 10"
      by (cases "num_digits (n div 10)") auto
    then show ?thesis by simp
  qed (use 1 in \<open>simp add: num_digits_def to_string.simps\<close>)
qed

lemma round_money_up_eq:
  "round_money_up a sd =
     (let r = round_up (10 ^ (num_digits (unat a) - unat sd)) (unat a)
      in if sd = 0 \<or> 2 ^ 64 \<le> r then None else Some (of_nat r))"
proof -
  let ?buf = "to_string (unat a)" and ?sd = "unat sd"
  let ?r = "round_up (10 ^ (num_digits (unat a) - ?sd)) (unat a)"
  let ?out = "if length ?buf > ?sd then
                     let (bump, rest) = zero_tail (drop ?sd ?buf) False;
                         (bump, buf) = bump_digits ?sd bump (take ?sd ?buf @ rest)
                     in if bump then CHR ''1'' # buf else buf
                   else ?buf"
  have v: "dec_value ?out = ?r"
    using rounded_text [of ?buf ?sd] to_string_digits by (auto simp: num_digits_def round_up_def)
  have r0: "?r \<noteq> 0" if "a \<noteq> 0"
    using round_up_upper [of "10 ^ (num_digits (unat a) - ?sd)" "unat a"] that unat_eq_0 [of a] by auto
  have "of_nat ?r \<noteq> (0::u64)" if "?r < 2 ^ 64" "a \<noteq> 0"
    using r0 that by (simp add: word_of_nat_eq_0_iff nat_dvd_not_less)
  then show ?thesis
    unfolding round_money_up_def Let_def [of ?buf] Let_def [of ?sd]
    by (simp add: Let_def [of ?out] strtoull_def v) (auto simp: Let_def)
qed

section \<open>Printing and parsing\<close>

lemma drop_zeros_split:
  "\<exists>F1 j. F = F1 @ replicate j (CHR ''0'') \<and> drop_zeros dp (A @ F) (length F) = (A @ F1, length F1)
     \<and> (length F1 \<le> dp \<or> F1 \<noteq> [] \<and> last F1 \<noteq> CHR ''0'')"
proof (induction F rule: rev_induct)
  case (snoc c F)
  show ?case
  proof (cases "dp < length (F @ [c]) \<and> c = CHR ''0''")
    case True
    then have "drop_zeros dp (A @ F @ [c]) (length (F @ [c])) = drop_zeros dp (A @ F) (length F)"
      by (subst drop_zeros.simps) (auto simp: butlast_append)
    moreover obtain F1 j where "F = F1 @ replicate j (CHR ''0'')" "drop_zeros dp (A @ F) (length F) = (A @ F1, length F1)"
        "length F1 \<le> dp \<or> F1 \<noteq> [] \<and> last F1 \<noteq> CHR ''0''" using snoc by blast
    ultimately show ?thesis
      using True by (intro exI [of _ F1] exI [of _ "Suc j"]) (simp add: replicate_append_same)
  next
    case False
    then show ?thesis by (intro exI [of _ "F @ [c]"] exI [of _ 0]) (subst drop_zeros.simps, auto)
  qed
qed (simp add: drop_zeros.simps)


definition digits :: "string \<Rightarrow> bool" where
  "digits s \<longleftrightarrow> (\<forall>c \<in> set s. isdigit c)"

lemma digits_append [simp]: "digits (s @ t) \<longleftrightarrow> digits s \<and> digits t"
  by (auto simp: digits_def)

lemma digits_zeros [simp]: "digits (replicate n (CHR ''0''))"
  by (auto simp: digits_def isdigit_def)

lemma point_not_digit: "digits s \<Longrightarrow> CHR ''.'' \<notin> set s"
  by (auto simp: digits_def isdigit_def)

text \<open>What \<open>boost\<close> documents: \<open>trim\<close> removes white space only, and \<open>lexical_cast\<close> reads a non-empty
  string of digits as its value, failing when that does not fit.\<close>

definition trim_law :: "(string \<Rightarrow> string) \<Rightarrow> bool" where
  "trim_law trim \<longleftrightarrow> (\<forall>s. (\<forall>c \<in> set s. isdigit c \<or> c = CHR ''.'') \<longrightarrow> trim s = s)"

definition lexical_cast_law :: "(string \<Rightarrow> u64 option) \<Rightarrow> bool" where
  "lexical_cast_law lexical_cast \<longleftrightarrow> (\<forall>s. s \<noteq> [] \<longrightarrow> digits s \<longrightarrow>
     lexical_cast s = (if dec_value s < 2 ^ 64 then Some (of_nat (dec_value s)) else None))"

definition read_fixed :: "nat \<Rightarrow> u64 option" where
  "read_fixed v = (if v < 2 ^ 64 then Some (of_nat v) else None)"

lemma get_xtype_digits:
  "lexical_cast_law lc \<Longrightarrow> digits s \<Longrightarrow> s \<noteq> [] \<Longrightarrow> get_xtype_from_string lc s = read_fixed (dec_value s)"
  by (auto simp: get_xtype_from_string_def lexical_cast_law_def digits_def read_fixed_def)

lemma takeWhile_point: "digits I \<Longrightarrow> takeWhile (\<lambda>c. c \<noteq> CHR ''.'') (I @ CHR ''.'' # F) = I"
  using point_not_digit [of I] by (simp add: takeWhile_tail takeWhile_append)

lemma parse_amount_point:
  assumes laws: "trim_law trim" "lexical_cast_law lc" and I: "digits I" "I \<noteq> []" and F: "digits F"
  shows "parse_amount trim lc dp (I @ ''.'' @ F) =
    (let v = dec_value (I @ F) * 10 ^ unat dp
     in if 10 ^ length F dvd v then read_fixed (v div 10 ^ length F) else None)"
proof -
  let ?s = "I @ ''.'' @ F" and ?n = "unat dp"
  have tr: "trim ?s = ?s" using I(1) F by (intro laws(1) [unfolded trim_law_def, rule_format]) (auto simp: digits_def)
  obtain F1 j where F1: "F = F1 @ replicate j (CHR ''0'')"
      "drop_zeros ?n ((I @ ''.'') @ F) (length F) = ((I @ ''.'') @ F1, length F1)"
      "length F1 \<le> ?n \<or> F1 \<noteq> [] \<and> last F1 \<noteq> CHR ''0''"
    using drop_zeros_split by blast
  have d1: "digits F1" using F F1(1) by simp
  let ?d = "dec_value (I @ F1)"
  have v: "dec_value (I @ F) * 10 ^ ?n = ?d * 10 ^ ?n * 10 ^ j"
    using F1(1) by (simp add: dec_value_append [of "I @ F1" "replicate j (CHR ''0'')", simplified])
  have pw: "(10::nat) ^ length F = 10 ^ length F1 * 10 ^ j" using F1(1) by (simp add: power_add)
  have lhs: "parse_amount trim lc dp ?s =
    (if ?n < length F1 then None else read_fixed (?d * 10 ^ (?n - length F1)))"
  proof -
    have "parse_amount trim lc dp ?s =
      (if ?n < length F1 then None
       else get_xtype_from_string lc (I @ F1 @ replicate (?n - length F1) (CHR ''0'')))"
      using I F1(2) takeWhile_point [OF I(1), of F] by (simp add: parse_amount_def tr [simplified] Let_def)
    then show ?thesis
      using get_xtype_digits [OF laws(2), of "I @ F1 @ replicate (?n - length F1) (CHR ''0'')"] I d1
        dec_value_append [of "I @ F1" "replicate (?n - length F1) (CHR ''0'')"] by simp
  qed
  show ?thesis
  proof (cases "?n < length F1")
    case False
    then have "(10::nat) ^ ?n = 10 ^ (?n - length F1) * 10 ^ length F1" by (simp flip: power_add)
    then have "dec_value (I @ F) * 10 ^ ?n = ?d * 10 ^ (?n - length F1) * 10 ^ length F"
      unfolding v pw by simp
    then show ?thesis unfolding lhs using False by simp
  next
    case True
    then have l: "F1 \<noteq> []" "last F1 \<noteq> CHR ''0''" using F1(3) by auto
    have ld: "digits [last F1]" using d1 l(1) by (simp add: digits_def)
    have "?d = dec_value (I @ butlast F1) * 10 + dec_value [last F1]"
      using dec_value_append [of "I @ butlast F1" "[last F1]"] l(1) by simp
    moreover have "dec_value [last F1] < 10" "dec_value [last F1] \<noteq> 0"
      using dec_value_less [of "[last F1]"] dec_value_0_iff [of "[last F1]"] ld l(2) by (auto simp: digits_def)
    ultimately have nd: "\<not> 10 dvd ?d" by (simp add: dvd_eq_mod_eq_0)
    have "(10::nat) ^ length F1 = 10 ^ Suc (length F1 - Suc ?n) * 10 ^ ?n"
      using True by (simp flip: power_add power_Suc)
    then have "10 * 10 ^ ?n dvd (10::nat) ^ length F1" by simp
    then have "10 * 10 ^ ?n dvd ?d * 10 ^ ?n" if "10 ^ length F1 dvd ?d * 10 ^ ?n" using that dvd_trans by blast
    then have "\<not> 10 ^ length F1 dvd ?d * 10 ^ ?n"
      using nd dvd_times_right_cancel_iff [of "10 ^ ?n" 10 ?d] by auto
    then have "\<not> 10 ^ length F dvd dec_value (I @ F) * 10 ^ ?n" unfolding v pw by simp
    then show ?thesis unfolding lhs using True by simp
  qed
qed

lemma parse_amount_no_point:
  assumes laws: "trim_law trim" "lexical_cast_law lc" and I: "digits I" "I \<noteq> []"
  shows "parse_amount trim lc dp I = read_fixed (dec_value I * 10 ^ unat dp)"
proof -
  have "trim I = I" using laws(1) I(1) unfolding trim_law_def digits_def by auto
  then have "parse_amount trim lc dp I = get_xtype_from_string lc (I @ replicate (unat dp) (CHR ''0''))"
    using I point_not_digit [OF I(1)] by (simp add: parse_amount_def Let_def)
  then show ?thesis
    using get_xtype_digits [OF laws(2), of "I @ replicate (unat dp) (CHR ''0'')"] I
    by (simp add: dec_value_append)
qed

lemma print_money_parts:
  assumes "valid_decimal_point dp"
  shows "\<exists>I F. digits I \<and> digits F \<and> I \<noteq> [] \<and> length F = unat dp \<and> dec_value (I @ F) = unat x
     \<and> print_money dp x (- 1) = (if dp = 0 then I else I @ ''.'' @ F)"
proof -
  define s where "s = (let s = to_string (unat x) in
     if length s < unat dp + 1 then replicate (unat dp + 1 - length s) (CHR ''0'') @ s else s)"
  have d: "digits s" using to_string_digits [of _ "unat x"]
    by (auto simp: s_def Let_def digits_def isdigit_def)
  have v: "dec_value s = unat x" by (simp add: s_def Let_def dec_value_append)
  have l: "unat dp < length s" by (simp add: s_def Let_def)
  let ?I = "take (length s - unat dp) s" and ?F = "drop (length s - unat dp) s"
  have "digits ?I" "digits ?F" using d append_take_drop_id [of "length s - unat dp" s] digits_append by metis+
  moreover have "print_money dp x (- 1) = (if dp = 0 then ?I else ?I @ ''.'' @ ?F)"
  proof -
    have "(if length (to_string (unat x)) < unat dp + 1
        then replicate (unat dp + 1 - length (to_string (unat x))) (CHR ''0'') @ to_string (unat x)
        else to_string (unat x)) = s" by (simp add: s_def Let_def)
    then show ?thesis
      unfolding print_money_def insert_money_decimal_point_def Let_def if_P [OF refl] by (simp only:) (simp add: unat_eq_0)
  qed
  ultimately show ?thesis using l v by (intro exI [of _ ?I] exI [of _ ?F]) auto
qed


section \<open>Denominations\<close>

lemma strip_zeros_split: "n \<noteq> 0 \<Longrightarrow> \<exists>k. n = strip_zeros n * 10 ^ k \<and> \<not> 10 dvd strip_zeros n"
proof (induction n rule: strip_zeros.induct)
  case (1 n)
  show ?case
  proof (cases "n mod 10 = 0")
    case True
    then have "n div 10 \<noteq> 0" "n = n div 10 * 10" using "1.prems" by auto
    then obtain k where "n div 10 = strip_zeros (n div 10) * 10 ^ k" "\<not> 10 dvd strip_zeros (n div 10)"
      using 1 True by auto
    then show ?thesis using True "1.prems" \<open>n = n div 10 * 10\<close>
      by (intro exI [of _ "Suc k"]) (simp add: strip_zeros.simps [of n])
  qed (use 1 in \<open>auto simp: strip_zeros.simps [of n] dvd_eq_mod_eq_0 intro: exI [of _ 0]\<close>)
qed

lemma strip_zeros_pow: "0 < d \<Longrightarrow> d < 10 \<Longrightarrow> strip_zeros (d * 10 ^ k) = d"
proof (induction k)
  case (Suc k)
  have "strip_zeros (d * 10 ^ Suc k) = strip_zeros (d * 10 ^ Suc k div 10)"
    using Suc.prems by (subst strip_zeros.simps) simp
  then show ?case using Suc by simp
qed (simp add: strip_zeros.simps)

section \<open>Properties\<close>

text \<open>C21: Printing and parsing amounts are inverse.  With any of the valid decimal points, parsing the
  output of \<open>print_money\<close> gives the amount back, for every 64-bit amount.\<close>

theorem money_roundtrip:
  assumes "trim_law trim" "lexical_cast_law lc" "valid_decimal_point dp"
  shows "parse_amount trim lc dp (print_money dp x (- 1)) = Some x"
proof -
  obtain I F where p: "digits I" "digits F" "I \<noteq> []" "length F = unat dp" "dec_value (I @ F) = unat x"
      "print_money dp x (- 1) = (if dp = 0 then I else I @ ''.'' @ F)"
    using print_money_parts [OF assms(3)] by blast
  have "read_fixed (unat x) = Some x" using unat_lt_u64 [of x] by (simp add: read_fixed_def)
  then show ?thesis
    using p parse_amount_point [OF assms(1,2) p(1,3,2), of dp] parse_amount_no_point [OF assms(1,2) p(1,3), of dp]
    by (cases "dp = 0") (simp_all add: Let_def)
qed

theorem money_roundtrip_witness:
  "parse_amount id (\<lambda>s. if dec_value s < 2 ^ 64 then Some (of_nat (dec_value s)) else None) 12
     (print_money 12 1234500000000 (- 1)) = Some 1234500000000"
  by (rule money_roundtrip) (simp_all add: trim_law_def lexical_cast_law_def valid_decimal_point_def)

text \<open>C22: Parsing is exact.  Digits, a point and more digits are read as the decimal number they denote
  times the unit: the amount is accepted exactly when that product is an integer below \<open>2^64\<close>, and no
  other rounding or overflow happens.\<close>

theorem parse_amount_exact:
  assumes "trim_law trim" "lexical_cast_law lc" "digits I" "I \<noteq> []" "digits F"
  shows "parse_amount trim lc dp (I @ ''.'' @ F) =
    (let v = dec_value (I @ F) * 10 ^ unat dp
     in if 10 ^ length F dvd v then read_fixed (v div 10 ^ length F) else None)"
  by (rule parse_amount_point [OF assms])

theorem parse_amount_exact_witness:
  "parse_amount id (\<lambda>s. if dec_value s < 2 ^ 64 then Some (of_nat (dec_value s)) else None) 3
     (''12'' @ ''.'' @ ''5000'') =
    (let v = dec_value (''12'' @ ''5000'') * 10 ^ unat (3::u32)
     in if 10 ^ length ''5000'' dvd v then read_fixed (v div 10 ^ length ''5000'') else None)"
  by (rule parse_amount_exact)
    (simp_all add: trim_law_def lexical_cast_law_def digits_def isdigit_def)

text \<open>C23: Rounding up.  \<open>round_money_up\<close> returns the least multiple of \<open>10^k\<close> that is not below the amount,
  where all but \<open>k\<close> of the amount's digits are kept as significant, and throws exactly when no
  significant digit is asked for or that multiple exceeds 64 bits.\<close>

theorem round_money_up_correct:
  "\<exists>k. num_digits (unat a) \<le> unat sd + k \<and> (k = 0 \<or> num_digits (unat a) = unat sd + k)
     \<and> round_money_up a sd =
         (let r = round_up (10 ^ k) (unat a) in if sd = 0 \<or> 2 ^ 64 \<le> r then None else Some (of_nat r))
     \<and> unat a \<le> round_up (10 ^ k) (unat a) \<and> round_up (10 ^ k) (unat a) < unat a + 10 ^ k
     \<and> 10 ^ k dvd round_up (10 ^ k) (unat a)"
  using round_money_up_eq [of a sd] round_up_upper [of "10 ^ (num_digits (unat a) - unat sd)" "unat a"]
  by (intro exI [of _ "num_digits (unat a) - unat sd"]) auto

text \<open>The denominations are the amounts with one significant digit.\<close>

theorem is_valid_decomposed_amount_iff:
  "is_valid_decomposed_amount a \<longleftrightarrow> (\<exists>d k. 0 < d \<and> d < 10 \<and> unat a = d * 10 ^ k)"
proof -
  have "a \<noteq> 0 \<Longrightarrow> 0 < strip_zeros (unat a)" using strip_zeros_split [of "unat a"] by (metis dvd_0_right neq0_conv unat_eq_0)
  then show ?thesis
    using strip_zeros_split [of "unat a"] strip_zeros_pow
    unfolding is_valid_decomposed_amount_def by (metis mult_eq_0_iff neq0_conv power_not_zero unat_eq_0 zero_neq_numeral)
qed

end
