(* ===== verification/Block_Weight.thy ===== *)
theory Block_Weight
  imports Block_Reward Rolling_Median Money
begin

text \<open>
  Block weights, fees and timestamps: the members of \<open>Blockchain\<close>
  (\<open>src/cryptonote_core/blockchain.cpp\<close>) that compute the medians of past weights, the next weight
  limit, the minimum fee and the time rules.  \<open>weight_state\<close> holds the block_info table and the
  members these functions read and write; the current hard-fork version and the clock are
  arguments.  The check of the miner transaction's reward, which uses these medians, and the coins it
  generates over a run of blocks are here as well.
\<close>

record block_info =
  bi_hash :: bytes
  bi_timestamp :: u64
  bi_coins :: u64
  bi_weight :: u64
  bi_long_term_block_weight :: u64

record weight_state =
  ws_info :: "block_info list"
  m_long_term_block_weights_window :: u64
  m_long_term_effective_median_block_weight :: u64
  m_current_block_cumul_weight_median :: u64
  m_current_block_cumul_weight_limit :: u64
  m_long_term_block_weights_cache_tip_hash :: bytes
  m_long_term_block_weights_cache_rolling_median :: rolling_median

definition ws_height :: "weight_state \<Rightarrow> u64" where
  "ws_height ws = of_nat (length (ws_info ws))"

text \<open>The range reads of the block_info table; a start beyond the chain throws.\<close>

definition get_block_info_64bit_fields ::
  "(block_info \<Rightarrow> u64) \<Rightarrow> weight_state \<Rightarrow> u64 \<Rightarrow> u64 \<Rightarrow> u64 list option" where
  "get_block_info_64bit_fields f ws start_height n =
     (if start_height \<ge> ws_height ws then None
      else Some (map f (take (unat n) (drop (unat start_height) (ws_info ws)))))"

definition get_block_weights :: "weight_state \<Rightarrow> u64 \<Rightarrow> u64 \<Rightarrow> u64 list option" where
  "get_block_weights = get_block_info_64bit_fields bi_weight"

definition get_long_term_block_weights :: "weight_state \<Rightarrow> u64 \<Rightarrow> u64 \<Rightarrow> u64 list option" where
  "get_long_term_block_weights = get_block_info_64bit_fields bi_long_term_block_weight"

definition get_block_info :: "weight_state \<Rightarrow> u64 \<Rightarrow> block_info option" where
  "get_block_info ws height = vec_at (ws_info ws) (unat height)"

section \<open>Medians of past weights\<close>

definition CRYPTONOTE_REWARD_BLOCKS_WINDOW :: u64 where "CRYPTONOTE_REWARD_BLOCKS_WINDOW = 100"
definition CRYPTONOTE_LONG_TERM_BLOCK_WEIGHT_WINDOW_SIZE :: u64 where "CRYPTONOTE_LONG_TERM_BLOCK_WEIGHT_WINDOW_SIZE = 100000"

definition get_last_n_blocks_weights :: "weight_state \<Rightarrow> u64 \<Rightarrow> u64 list option" where
  "get_last_n_blocks_weights ws n =
     (let h = ws_height ws
      in if h = 0 then Some []
         else get_block_weights ws (h - min h n) n)"

definition null_hash :: bytes where "null_hash = replicate 32 0"

definition cached_median :: "weight_state \<Rightarrow> (u64 \<times> weight_state) option" where
  "cached_median ws = do {
     m \<leftarrow> rm_median (m_long_term_block_weights_cache_rolling_median ws);
     Some (m, ws) }"

definition get_long_term_block_weight_median ::
  "u64 \<Rightarrow> u64 \<Rightarrow> weight_state \<Rightarrow> (u64 \<times> weight_state) option" where
  "get_long_term_block_weight_median start_height n ws =
     (if n = 0 then None
      else do {
        let blockchain_height = ws_height ws;
        let tip_height = start_height + n - 1;
        let rmsize = (of_nat (rm_sz (m_long_term_block_weights_cache_rolling_median ws)) :: u64);
        tip_hash \<leftarrow> (if tip_height < blockchain_height
                     then map_option bi_hash (get_block_info ws tip_height) else Some null_hash);
        let cached = (tip_height < blockchain_height \<and> n = rmsize
                      \<and> tip_hash = m_long_term_block_weights_cache_tip_hash ws);
        if cached then cached_median ws
        else do {
          incremental \<leftarrow>
            (if tip_height > 0 \<and> tip_height < blockchain_height
                \<and> (n = rmsize \<or> n = rmsize + 1 \<and> rmsize < CRYPTONOTE_LONG_TERM_BLOCK_WEIGHT_WINDOW_SIZE)
             then do {
               old \<leftarrow> get_block_info ws (tip_height - 1);
               Some (bi_hash old = m_long_term_block_weights_cache_tip_hash ws) }
             else Some False);
          if incremental then do {
            tip \<leftarrow> get_block_info ws tip_height;
            rm \<leftarrow> rm_insert (bi_long_term_block_weight tip) (m_long_term_block_weights_cache_rolling_median ws);
            cached_median (ws\<lparr>m_long_term_block_weights_cache_tip_hash := tip_hash,
                              m_long_term_block_weights_cache_rolling_median := rm\<rparr>) }
          else do {
            weights \<leftarrow> get_long_term_block_weights ws start_height n;
            rm \<leftarrow> ofold rm_insert weights (rm_clear (m_long_term_block_weights_cache_rolling_median ws));
            cached_median (ws\<lparr>m_long_term_block_weights_cache_tip_hash := tip_hash,
                              m_long_term_block_weights_cache_rolling_median := rm\<rparr>) } } })"

section \<open>The next weight limit\<close>




section \<open>Fees\<close>

definition DYNAMIC_FEE_REFERENCE_TRANSACTION_WEIGHT :: u64 where
  "DYNAMIC_FEE_REFERENCE_TRANSACTION_WEIGHT = 3000"

definition get_dynamic_base_fee :: "u64 \<Rightarrow> u64 \<Rightarrow> u64 option" where
  "get_dynamic_base_fee block_reward median_block_weight = do {
     let median_block_weight =
       (if median_block_weight < CRYPTONOTE_BLOCK_GRANTED_FULL_REWARD_ZONE_V5 then CRYPTONOTE_BLOCK_GRANTED_FULL_REWARD_ZONE_V5 else median_block_weight);
     let (lo, hi) = mul128 block_reward DYNAMIC_FEE_REFERENCE_TRANSACTION_WEIGHT;
     (hi, lo, _, _) \<leftarrow> div128_64 hi lo median_block_weight;
     (hi, lo, _, _) \<leftarrow> div128_64 hi lo median_block_weight;
     let lo = lo - lo div 20;
     Some (if lo = 0 then 1 else lo) }"





definition CRYPTONOTE_SCALING_2021_FEE_ROUNDING_PLACES :: u32 where
  "CRYPTONOTE_SCALING_2021_FEE_ROUNDING_PLACES = 2"

definition div_u64 :: "u64 \<Rightarrow> u64 \<Rightarrow> u64 option" where
  "div_u64 a b = (if b = 0 then None else Some (a div b))"

definition fee_estimate_2021_scaling :: "u64 \<Rightarrow> u64 \<Rightarrow> u64 \<Rightarrow> u64 list option" where
  "fee_estimate_2021_scaling base_reward Mnw Mlw = do {
     let Mfw = min Mnw Mlw;
     Fl \<leftarrow> div_u64 (base_reward * DYNAMIC_FEE_REFERENCE_TRANSACTION_WEIGHT) (Mfw * Mfw);
     Fn \<leftarrow> div_u64 (4 * base_reward * DYNAMIC_FEE_REFERENCE_TRANSACTION_WEIGHT) (Mfw * Mfw);
     Fm \<leftarrow> div_u64 (16 * base_reward * DYNAMIC_FEE_REFERENCE_TRANSACTION_WEIGHT) (CRYPTONOTE_BLOCK_GRANTED_FULL_REWARD_ZONE_V5 * Mfw);
     q \<leftarrow> div_u64 (4 * Fm * Mfw) (32 * DYNAMIC_FEE_REFERENCE_TRANSACTION_WEIGHT * Mnw div CRYPTONOTE_BLOCK_GRANTED_FULL_REWARD_ZONE_V5);
     let Fh = max (4 * Fm) q;
     fee0 \<leftarrow> round_money_up Fl CRYPTONOTE_SCALING_2021_FEE_ROUNDING_PLACES;
     fee1 \<leftarrow> round_money_up Fn CRYPTONOTE_SCALING_2021_FEE_ROUNDING_PLACES;
     fee2 \<leftarrow> round_money_up Fm CRYPTONOTE_SCALING_2021_FEE_ROUNDING_PLACES;
     fee3 \<leftarrow> round_money_up Fh CRYPTONOTE_SCALING_2021_FEE_ROUNDING_PLACES;
     Some [fee0, fee1, fee2, fee3] }"

definition BLOCK_REWARD_OVERESTIMATE :: u64 where "BLOCK_REWARD_OVERESTIMATE = 10 * 1000000000000"

text \<open>
  What the estimate throws: the check of its argument, the \<open>DB_ERROR\<close> of a range read that starts outside the chain, the \<open>BLOCK_DNE\<close> of a
  read of one block, and anything else (a division by zero, a failed rounding, undefined behaviour), which does not happen on a
  sound state.
\<close>

datatype estimate_error = Grace_Blocks_Invalid | Db_Error | Block_Dne | Undefined

definition raising :: "'e \<Rightarrow> 'a option \<Rightarrow> ('a \<Rightarrow> 'e + 'b) \<Rightarrow> 'e + 'b" where
  "raising e x f = (case x of None \<Rightarrow> Inl e | Some a \<Rightarrow> f a)"

definition get_dynamic_base_fee_estimate_2021_scaling :: "u8 \<Rightarrow> u64 \<Rightarrow> weight_state \<Rightarrow> estimate_error + u64 list" where
  "get_dynamic_base_fee_estimate_2021_scaling version grace_blocks ws =
     (if \<not> grace_blocks \<le> CRYPTONOTE_REWARD_BLOCKS_WINDOW then Inl Grace_Blocks_Invalid
      else let db_height = ws_height ws; grace = replicate (unat grace_blocks) 0 in
        raising Undefined (ofold rm_insert grace (m_long_term_block_weights_cache_rolling_median ws)) (\<lambda>rm.
        raising Undefined (if rm_sz rm = 0 then Some 0 else rm_median rm) (\<lambda>lt.
        let Mlw = max lt CRYPTONOTE_BLOCK_GRANTED_FULL_REWARD_ZONE_V5 in
        raising Db_Error (get_last_n_blocks_weights ws (100 - grace_blocks)) (\<lambda>weights.
        let Msw = max (median (weights @ grace)) Mlw;
            Mnw = min Msw (50 * Mlw) in
        raising Block_Dne
          (if db_height \<noteq> 0 then map_option bi_coins (get_block_info ws (db_height - 1)) else Some 0) (\<lambda>already_generated_coins.
        raising Undefined
          (get_block_reward (m_current_block_cumul_weight_limit ws div 2) 1 already_generated_coins version) (\<lambda>r.
        let base_reward = (case r of Some b \<Rightarrow> b | None \<Rightarrow> BLOCK_REWARD_OVERESTIMATE) in
        raising Undefined (fee_estimate_2021_scaling base_reward Mnw Mlw) Inr))))))"

section \<open>The miner transaction\<close>

definition HF_VERSION_EFFECTIVE_SHORT_TERM_MEDIAN_IN_PENALTY :: u8 where
  "HF_VERSION_EFFECTIVE_SHORT_TERM_MEDIAN_IN_PENALTY = 12"
definition HF_VERSION_EXACT_COINBASE :: u8 where "HF_VERSION_EXACT_COINBASE = 13"

text \<open>
  The block enters with the amounts of its miner transaction's outputs, whose sum wraps.  The result is the generated reward and whether it is
  partial, the values of the two reference arguments when the function returns \<open>true\<close>; the inner \<open>None\<close> is \<open>false\<close>.
\<close>

definition validate_miner_transaction ::
  "u64 list \<Rightarrow> u64 \<Rightarrow> u64 \<Rightarrow> u64 \<Rightarrow> u8 \<Rightarrow> weight_state \<Rightarrow> (u64 \<times> bool) option option" where
  "validate_miner_transaction amounts cumulative_block_weight fee already_generated_coins version ws =
     (let money_in_use = fold (\<lambda>amount money_in_use. money_in_use + amount) amounts 0
      in if version = 3 \<and> \<not> list_all is_valid_decomposed_amount amounts then Some None
         else do {
           median_weight \<leftarrow>
             (if version \<ge> HF_VERSION_EFFECTIVE_SHORT_TERM_MEDIAN_IN_PENALTY
              then Some (m_current_block_cumul_weight_median ws)
              else map_option median (get_last_n_blocks_weights ws CRYPTONOTE_REWARD_BLOCKS_WINDOW));
           r \<leftarrow> get_block_reward median_weight cumulative_block_weight already_generated_coins version;
           Some (case r of
             None \<Rightarrow> None
           | Some base_reward \<Rightarrow>
               if base_reward + fee < money_in_use then None
               else if version < 2 \<or> version \<ge> HF_VERSION_EXACT_COINBASE then
                 if base_reward + fee \<noteq> money_in_use then None else Some (base_reward, False)
               else if \<not> money_in_use - fee \<le> base_reward then None
               else Some (money_in_use - fee, base_reward + fee \<noteq> money_in_use)) })"

section \<open>Time\<close>

definition BLOCKCHAIN_TIMESTAMP_CHECK_WINDOW :: u64 where "BLOCKCHAIN_TIMESTAMP_CHECK_WINDOW = 60"
definition CRYPTONOTE_MAX_BLOCK_NUMBER :: u64 where "CRYPTONOTE_MAX_BLOCK_NUMBER = 500000000"
definition CRYPTONOTE_LOCKED_TX_ALLOWED_DELTA_BLOCKS :: u64 where "CRYPTONOTE_LOCKED_TX_ALLOWED_DELTA_BLOCKS = 1"
definition HF_VERSION_DETERMINISTIC_UNLOCK_TIME :: u8 where "HF_VERSION_DETERMINISTIC_UNLOCK_TIME = 13"

definition get_block_timestamps :: "weight_state \<Rightarrow> u64 \<Rightarrow> u64 \<Rightarrow> u64 list option" where
  "get_block_timestamps ws offset height =
     those (map (\<lambda>i. map_option bi_timestamp (vec_at (ws_info ws) i)) [unat offset..<unat height])"

text \<open>\<open>epee::misc_utils::median\<close> sorts the vector it is given, so \<open>timestamps.back()\<close> is taken from the sorted vector.\<close>

definition get_adjusted_time :: "u64 \<Rightarrow> u64 \<Rightarrow> weight_state \<Rightarrow> u64 option" where
  "get_adjusted_time time_now height ws =
     (if height < BLOCKCHAIN_TIMESTAMP_CHECK_WINDOW then Some time_now
      else do {
        timestamps \<leftarrow> get_block_timestamps ws (height - BLOCKCHAIN_TIMESTAMP_CHECK_WINDOW) height;
        let median_ts = median timestamps
              + (BLOCKCHAIN_TIMESTAMP_CHECK_WINDOW + 1) * of_nat DIFFICULTY_TARGET_V2 div 2;
        let timestamps = sort timestamps;
        let adjusted_current_block_ts = last timestamps + of_nat DIFFICULTY_TARGET_V2;
        Some (if adjusted_current_block_ts < median_ts then adjusted_current_block_ts else median_ts) })"

definition is_tx_spendtime_unlocked :: "u8 \<Rightarrow> u64 \<Rightarrow> u64 \<Rightarrow> u8 \<Rightarrow> weight_state \<Rightarrow> bool option" where
  "is_tx_spendtime_unlocked current_version time_now unlock_time hf_version ws =
     (if unlock_time < CRYPTONOTE_MAX_BLOCK_NUMBER
      then Some (ws_height ws - 1 + CRYPTONOTE_LOCKED_TX_ALLOWED_DELTA_BLOCKS \<ge> unlock_time)
      else do {
        current_time \<leftarrow> (if hf_version \<ge> HF_VERSION_DETERMINISTIC_UNLOCK_TIME
                          then get_adjusted_time time_now (ws_height ws) ws else Some time_now);
        let delta = of_nat (if current_version < 2 then DIFFICULTY_TARGET_V1 else DIFFICULTY_TARGET_V2)
                    * CRYPTONOTE_LOCKED_TX_ALLOWED_DELTA_BLOCKS;
        Some (current_time + delta \<ge> unlock_time) })"



section \<open>Reading ranges\<close>

definition chain_fits :: "weight_state \<Rightarrow> bool" where
  "chain_fits ws \<longleftrightarrow> length (ws_info ws) < 2 ^ 64"

lemma unat_ws_height: "chain_fits ws \<Longrightarrow> unat (ws_height ws) = length (ws_info ws)"
  by (simp add: chain_fits_def ws_height_def unat_of_nat_exact)

definition last_n :: "nat \<Rightarrow> 'a list \<Rightarrow> 'a list" where
  "last_n n xs = drop (length xs - n) xs"

lemma length_last_n [simp]: "length (last_n n xs) = min n (length xs)"
  by (simp add: last_n_def)

lemma last_n_append: "last_n n (xs @ [x]) = (if n = 0 then [] else last_n (n - 1) xs @ [x])"
  by (cases n) (auto simp: last_n_def)

lemma last_n_last_n: "n \<le> m \<Longrightarrow> last_n n (last_n m xs) = last_n n xs"
  by (cases "m \<le> length xs") (simp_all add: last_n_def)

lemma get_range_tail:
  assumes "chain_fits ws" "0 < unat n" "unat n \<le> length (ws_info ws)"
  shows "get_block_info_64bit_fields f ws (ws_height ws - n) n = Some (map f (last_n (unat n) (ws_info ws)))"
proof -
  have h: "unat (ws_height ws) = length (ws_info ws)" by (rule unat_ws_height [OF assms(1)])
  then have "unat (ws_height ws - n) = length (ws_info ws) - unat n"
    using assms(3) by (simp add: unat_sub word_le_nat_alt)
  then show ?thesis
    using h assms by (simp add: get_block_info_64bit_fields_def word_le_nat_alt last_n_def)
qed

lemma get_last_n_blocks_weights_eq:
  assumes "chain_fits ws" "n \<noteq> 0"
  shows "get_last_n_blocks_weights ws n = Some (map bi_weight (last_n (unat n) (ws_info ws)))"
proof (cases "ws_info ws = []")
  case True
  then show ?thesis by (simp add: get_last_n_blocks_weights_def ws_height_def last_n_def)
next
  case False
  have h: "unat (ws_height ws) = length (ws_info ws)" by (rule unat_ws_height [OF assms(1)])
  then have "ws_height ws \<noteq> 0" using False by auto
  then have "get_last_n_blocks_weights ws n = get_block_weights ws (ws_height ws - min (ws_height ws) n) n"
    by (simp add: get_last_n_blocks_weights_def Let_def)
  moreover have "unat (ws_height ws - min (ws_height ws) n) = length (ws_info ws) - unat n"
    using h by (auto simp: min_def unat_sub word_le_nat_alt)
  moreover have "0 < unat n" using assms(2) by (simp add: unat_gt_0)
  moreover have "0 < length (ws_info ws)" using False by simp
  then have "\<not> length (ws_info ws) \<le> length (ws_info ws) - unat n" using \<open>0 < unat n\<close> by arith
  ultimately show ?thesis
    using h False by (simp add: get_block_weights_def get_block_info_64bit_fields_def word_le_nat_alt last_n_def)
qed


section \<open>The cache of the long-term median\<close>

text \<open>
  A block hash determines the chain below the block: \<open>hist\<close> gives that chain, and every chain the node
  ever has agrees with it.  The cache holds the long-term weights of the last blocks of the chain its
  tip hash names, which need not be a block of the current chain.
\<close>

definition lt_weights :: "block_info list \<Rightarrow> u64 list" where
  "lt_weights = map bi_long_term_block_weight"

definition chain_of :: "(bytes \<Rightarrow> block_info list) \<Rightarrow> weight_state \<Rightarrow> bool" where
  "chain_of hist ws \<longleftrightarrow> (\<forall>i < length (ws_info ws). hist (bi_hash (ws_info ws ! i)) = take (Suc i) (ws_info ws))"

definition cache_ok :: "(bytes \<Rightarrow> block_info list) \<Rightarrow> weight_state \<Rightarrow> bool" where
  "cache_ok hist ws \<longleftrightarrow>
     (let rm = m_long_term_block_weights_cache_rolling_median ws;
          past = hist (m_long_term_block_weights_cache_tip_hash ws)
      in rm_inv rm \<and> rm_N rm = unat CRYPTONOTE_LONG_TERM_BLOCK_WEIGHT_WINDOW_SIZE
         \<and> rm_sz rm \<le> length past \<and> contents rm = last_n (rm_sz rm) (lt_weights past))"

definition expected_lt_median :: "weight_state \<Rightarrow> u64" where
  "expected_lt_median ws =
     median (last_n (unat CRYPTONOTE_LONG_TERM_BLOCK_WEIGHT_WINDOW_SIZE) (lt_weights (ws_info ws)))"

lemma length_contents: "rm_inv rm \<Longrightarrow> length (contents rm) = rm_sz rm"
  using contents_mset(2) by blast

lemma cached_median_ok:
  assumes "rm_inv (m_long_term_block_weights_cache_rolling_median ws)"
    and "contents (m_long_term_block_weights_cache_rolling_median ws) = xs" "xs \<noteq> []"
  shows "cached_median ws = Some (median xs, ws)"
  using rolling.med_law [OF assms(1)] assms(2,3) by (simp add: cached_median_def)


abbreviation lt_window :: nat where
  "lt_window \<equiv> unat CRYPTONOTE_LONG_TERM_BLOCK_WEIGHT_WINDOW_SIZE"

lemma lt_window_eq: "lt_window = 100000"
  by (simp add: CRYPTONOTE_LONG_TERM_BLOCK_WEIGHT_WINDOW_SIZE_def)

lemma hist_tip: "chain_of hist ws \<Longrightarrow> ws_info ws \<noteq> [] \<Longrightarrow> hist (bi_hash (last (ws_info ws))) = ws_info ws"
  by (simp add: chain_of_def last_conv_nth)

lemma cache_refreshed:
  assumes chain: "chain_of hist ws" "ws_info ws \<noteq> []"
    and rm: "rm_inv rm" "rm_N rm = lt_window"
      "contents rm = last_n (min lt_window (length (ws_info ws))) (lt_weights (ws_info ws))"
    and hash: "th = bi_hash (last (ws_info ws))"
  defines "ws' \<equiv> ws\<lparr>m_long_term_block_weights_cache_tip_hash := th,
                    m_long_term_block_weights_cache_rolling_median := rm\<rparr>"
  shows "cached_median ws' = Some (expected_lt_median ws, ws') \<and> cache_ok hist ws'"
proof -
  let ?L = "lt_weights (ws_info ws)" and ?h = "length (ws_info ws)"
  have lL: "length ?L = ?h" by (simp add: lt_weights_def)
  have l: "0 < ?h" using chain(2) by simp
  have c: "contents rm = last_n lt_window ?L" unfolding rm(3) by (simp add: last_n_def lL min_def)
  have ne: "contents rm \<noteq> []" unfolding c length_greater_0_conv [symmetric] using l lL by (simp add: lt_window_eq del: length_greater_0_conv)
  have sz: "rm_sz rm = min lt_window ?h" using length_contents [OF rm(1)] unfolding c using lL by simp
  have "hist th = ws_info ws" unfolding hash by (rule hist_tip [OF chain])
  then have "cache_ok hist ws'"
    using rm sz by (simp add: cache_ok_def ws'_def)
  moreover have "cached_median ws' = Some (expected_lt_median ws, ws')"
    unfolding expected_lt_median_def using ne c rm(1) by (intro cached_median_ok) (simp_all add: ws'_def)
  ultimately show ?thesis by blast
qed

lemma cache_insert:
  assumes ok: "cache_ok hist ws" and past: "hist (m_long_term_block_weights_cache_tip_hash ws) = past"
    and sz: "rm_sz (m_long_term_block_weights_cache_rolling_median ws) = k"
    and n: "min lt_window (Suc (length past)) = k \<or> min lt_window (Suc (length past)) = Suc k \<and> k < lt_window"
  shows "\<exists>rm. rm_insert (bi_long_term_block_weight b) (m_long_term_block_weights_cache_rolling_median ws) = Some rm
    \<and> rm_inv rm \<and> rm_N rm = lt_window
    \<and> contents rm = last_n (min lt_window (Suc (length past))) (lt_weights (past @ [b]))"
proof -
  let ?rm = "m_long_term_block_weights_cache_rolling_median ws" and ?v = "bi_long_term_block_weight b"
  have inv: "rm_inv ?rm" "rm_N ?rm = lt_window" "k \<le> length past" "contents ?rm = last_n k (lt_weights past)"
    using ok past sz by (auto simp: cache_ok_def Let_def)
  obtain rm where rm: "rm_insert ?v ?rm = Some rm" "rm_inv rm" "rm_N rm = rm_N ?rm"
      "contents rm = drop (Suc (length (contents ?rm)) - rm_N ?rm) (contents ?rm @ [?v])"
    using rolling.ins_law [OF inv(1), of ?v] by blast
  have lp: "length (lt_weights past) = length past" by (simp add: lt_weights_def)
  have kW: "k \<le> lt_window" using rolling.items_le [OF inv(1)] length_contents [OF inv(1)] sz inv(2) by simp
  have "contents rm = drop (Suc k - lt_window) (last_n (Suc k) (lt_weights (past @ [b])))"
    unfolding rm(4) inv(2,4) using inv(3) by (simp add: last_n_append lt_weights_def [of] last_n_def)
  also have "\<dots> = last_n (min lt_window (Suc (length past))) (lt_weights (past @ [b]))"
    using n kW inv(3) by (auto simp: last_n_def lt_weights_def min_def split: if_splits)
  finally show ?thesis using rm inv(2) by simp
qed


lemma lt_median_correct:
  assumes fits: "chain_fits ws" and ne: "ws_info ws \<noteq> []" and chain: "chain_of hist ws" and ok: "cache_ok hist ws"
    and n: "n = min CRYPTONOTE_LONG_TERM_BLOCK_WEIGHT_WINDOW_SIZE (ws_height ws)"
  shows "\<exists>ws'. get_long_term_block_weight_median (ws_height ws - n) n ws = Some (expected_lt_median ws, ws')
    \<and> cache_ok hist ws' \<and> (\<exists>th rm. ws' = ws\<lparr>m_long_term_block_weights_cache_tip_hash := th,
                    m_long_term_block_weights_cache_rolling_median := rm\<rparr>)"
proof -
  let ?h = "length (ws_info ws)" and ?rm = "m_long_term_block_weights_cache_rolling_median ws"
  let ?tip = "last (ws_info ws)" and ?ct = "m_long_term_block_weights_cache_tip_hash ws"
  have h: "unat (ws_height ws) = ?h" by (rule unat_ws_height [OF fits])
  have l: "0 < ?h" using ne by simp
  have un: "unat n = min lt_window ?h" unfolding n using h by (auto simp: min_def word_le_nat_alt)
  have "0 < unat n" unfolding un lt_window_eq using l by simp
  then have n0: "n \<noteq> 0" by auto
  have th: "ws_height ws - n + n - 1 = ws_height ws - 1" by simp
  have uth: "unat (ws_height ws - 1) = ?h - 1" using h l by (simp add: unat_sub word_le_nat_alt Suc_le_eq)
  have tl: "ws_height ws - 1 < ws_height ws" using uth h l by (simp add: word_less_nat_alt)
  have info_tip: "get_block_info ws (ws_height ws - 1) = Some ?tip"
    using uth l ne by (simp add: get_block_info_def vec_at_def last_conv_nth)
  have inv: "rm_inv ?rm" "rm_N ?rm = lt_window" "rm_sz ?rm \<le> length (hist ?ct)"
      "contents ?rm = last_n (rm_sz ?rm) (lt_weights (hist ?ct))"
    using ok by (auto simp: cache_ok_def Let_def)
  have szW: "rm_sz ?rm \<le> lt_window" using rolling.items_le [OF inv(1)] length_contents [OF inv(1)] inv(2) by simp
  let ?rmsize = "of_nat (rm_sz ?rm) :: u64"
  have usz: "unat ?rmsize = rm_sz ?rm" using szW by (simp add: unat_of_nat_exact lt_window_eq)
  have eqs: "n = ?rmsize \<longleftrightarrow> min lt_window ?h = rm_sz ?rm" using un usz word_unat_eq_iff [of n ?rmsize] by simp
  let ?upd = "\<lambda>rm. ws\<lparr>m_long_term_block_weights_cache_tip_hash := bi_hash ?tip,
                    m_long_term_block_weights_cache_rolling_median := rm\<rparr>"
  note body = get_long_term_block_weight_median_def [of "ws_height ws - n" n ws, unfolded th Let_def, simplified n0 tl info_tip, simplified]
  note fresh = cache_refreshed [OF chain ne _ _ _ refl]
  show ?thesis
  proof (cases "n = ?rmsize \<and> bi_hash ?tip = ?ct")
    case True
    then have "hist ?ct = ws_info ws" using hist_tip [OF chain ne] by simp
    then have "contents ?rm = last_n (min lt_window ?h) (lt_weights (ws_info ws))" using inv(4) True eqs by simp
    then have "cached_median (?upd ?rm) = Some (expected_lt_median ws, ?upd ?rm) \<and> cache_ok hist (?upd ?rm)"
      by (rule fresh [OF inv(1,2)])
    moreover have "?upd ?rm = ws" using True by simp
    moreover have "get_long_term_block_weight_median (ws_height ws - n) n ws = cached_median ws"
      unfolding body using True by simp
    ultimately show ?thesis by metis
  next
    case nc: False
    let ?old = "ws_info ws ! (?h - 2)"
    let ?inc = "1 < ?h \<and> (n = ?rmsize \<or> n = ?rmsize + 1 \<and> ?rmsize < CRYPTONOTE_LONG_TERM_BLOCK_WEIGHT_WINDOW_SIZE)"
    have pos: "0 < ws_height ws - 1 \<longleftrightarrow> 1 < ?h" using uth by (simp add: word_less_nat_alt)
    have old: "get_block_info ws (ws_height ws - 2) = Some ?old" if "1 < ?h"
    proof -
      have "unat (ws_height ws - 2) = ?h - 2" using h that by (simp add: unat_sub word_le_nat_alt)
      then show ?thesis using that by (simp add: get_block_info_def vec_at_def)
    qed
    show ?thesis
    proof (cases "?inc \<and> bi_hash ?old = ?ct")
      case True
      have past: "hist ?ct = butlast (ws_info ws)"
      proof -
        have "?h - 2 < ?h" using True by arith
        then have "hist (bi_hash ?old) = take (Suc (?h - 2)) (ws_info ws)" using chain unfolding chain_of_def by blast
        moreover have "Suc (?h - 2) = ?h - 1" using True by arith
        ultimately show ?thesis using True by (simp add: butlast_conv_take)
      qed
      have lp: "Suc (length (butlast (ws_info ws))) = ?h" using l by simp
      have "min lt_window ?h = rm_sz ?rm \<or> min lt_window ?h = Suc (rm_sz ?rm) \<and> rm_sz ?rm < lt_window"
      proof (cases "n = ?rmsize")
        case False
        then have "n = ?rmsize + 1" "rm_sz ?rm < lt_window" using True usz by (auto simp: word_less_nat_alt)
        moreover have "unat (?rmsize + 1) = Suc (rm_sz ?rm)"
          using usz szW by (subst unat_add_exact) (simp_all add: lt_window_eq)
        ultimately show ?thesis using un by simp
      qed (use eqs in simp)
      then obtain rm where "rm_insert (bi_long_term_block_weight ?tip) ?rm = Some rm" "rm_inv rm" "rm_N rm = lt_window"
          "contents rm = last_n (min lt_window ?h) (lt_weights (ws_info ws))"
        using cache_insert [OF ok past refl, of ?tip] ne lp by auto
      moreover have "get_long_term_block_weight_median (ws_height ws - n) n ws = cached_median (?upd rm)"
        unfolding body using nc True old pos calculation(1) by auto
      ultimately show ?thesis using fresh [of rm] by metis
    next
      case False
      let ?L = "last_n (min lt_window ?h) (lt_weights (ws_info ws))"
      have get: "get_long_term_block_weights ws (ws_height ws - n) n = Some ?L"
        using get_range_tail [OF fits, of n] un \<open>0 < unat n\<close>
        by (simp add: get_long_term_block_weights_def lt_weights_def last_n_def drop_map)
      have "0 < rm_N ?rm" "length (rm_data ?rm) = rm_N ?rm" using inv(1) by (auto simp: rm_inv_def rm_bij_def)
      then have clr: "rm_inv (rm_clear ?rm)" "contents (rm_clear ?rm) = []" "rm_N (rm_clear ?rm) = lt_window"
        using rm_clear_inv [of ?rm] inv(2) by (auto simp: lt_window_eq)
      obtain rm where rm: "ofold rm_insert ?L (rm_clear ?rm) = Some rm" "rm_inv rm" "rm_N rm = lt_window"
          "contents rm = drop (length ?L - lt_window) ?L"
        using rolling.ins_all [OF clr(1), of ?L] clr by auto
      then have "contents rm = ?L" by simp
      moreover have "get_long_term_block_weight_median (ws_height ws - n) n ws = cached_median (?upd rm)"
        unfolding body using False nc old pos get rm(1) by (cases ?inc) auto
      ultimately show ?thesis using fresh [of rm] rm(2,3) by metis
    qed
  qed
qed


text \<open>The node asks for the median after each change of the chain, whatever the change was.\<close>

primrec lt_medians :: "block_info list list \<Rightarrow> weight_state \<Rightarrow> u64 list option" where
  "lt_medians [] ws = Some []"
| "lt_medians (c # cs) ws = do {
     let ws = ws\<lparr>ws_info := c\<rparr>;
     let n = min CRYPTONOTE_LONG_TERM_BLOCK_WEIGHT_WINDOW_SIZE (ws_height ws);
     (m, ws) \<leftarrow> get_long_term_block_weight_median (ws_height ws - n) n ws;
     ms \<leftarrow> lt_medians cs ws;
     Some (m # ms) }"

definition chain_median :: "block_info list \<Rightarrow> u64" where
  "chain_median c = median (last_n lt_window (lt_weights c))"

definition agrees :: "(bytes \<Rightarrow> block_info list) \<Rightarrow> block_info list \<Rightarrow> bool" where
  "agrees hist c \<longleftrightarrow> c \<noteq> [] \<and> length c < 2 ^ 64 \<and> (\<forall>i < length c. hist (bi_hash (c ! i)) = take (Suc i) c)"

lemma lt_medians_ok:
  assumes "\<forall>c \<in> set cs. agrees hist c" "cache_ok hist ws"
  shows "lt_medians cs ws = Some (map chain_median cs)"
  using assms
proof (induction cs arbitrary: ws)
  case (Cons c cs)
  let ?ws = "ws\<lparr>ws_info := c\<rparr>"
  have c: "chain_fits ?ws" "ws_info ?ws \<noteq> []" "chain_of hist ?ws"
    using Cons.prems(1) by (auto simp: agrees_def chain_fits_def chain_of_def)
  have ok: "cache_ok hist ?ws" using Cons.prems(2) by (simp add: cache_ok_def)
  obtain ws' where "get_long_term_block_weight_median (ws_height ?ws - min CRYPTONOTE_LONG_TERM_BLOCK_WEIGHT_WINDOW_SIZE (ws_height ?ws))
        (min CRYPTONOTE_LONG_TERM_BLOCK_WEIGHT_WINDOW_SIZE (ws_height ?ws)) ?ws = Some (expected_lt_median ?ws, ws')"
      "cache_ok hist ws'"
    using lt_median_correct [OF c ok refl] by blast
  moreover have "lt_medians cs ws' = Some (map chain_median cs)" using Cons calculation(2) by simp
  ultimately show ?case by (simp add: Let_def chain_median_def expected_lt_median_def)
qed simp

lemma fresh_cache_ok:
  assumes "new_rolling_median d p h CRYPTONOTE_LONG_TERM_BLOCK_WEIGHT_WINDOW_SIZE = Some (m_long_term_block_weights_cache_rolling_median ws)"
  shows "cache_ok hist ws"
proof -
  have "0 < CRYPTONOTE_LONG_TERM_BLOCK_WEIGHT_WINDOW_SIZE" by (simp add: CRYPTONOTE_LONG_TERM_BLOCK_WEIGHT_WINDOW_SIZE_def)
  from new_rolling_median_inv [OF this, of d p h] assms
  have "rm_inv (m_long_term_block_weights_cache_rolling_median ws)" "contents (m_long_term_block_weights_cache_rolling_median ws) = []"
      "rm_N (m_long_term_block_weights_cache_rolling_median ws) = lt_window" by (auto simp: lt_window_eq)
  moreover from this have "rm_sz (m_long_term_block_weights_cache_rolling_median ws) = 0" using length_contents by fastforce
  ultimately show ?thesis by (simp add: cache_ok_def last_n_def)
qed

section \<open>The weight limit\<close>

definition zone :: nat where "zone = 300000"

lemma unat_zone: "unat CRYPTONOTE_BLOCK_GRANTED_FULL_REWARD_ZONE_V5 = zone" by (simp add: CRYPTONOTE_BLOCK_GRANTED_FULL_REWARD_ZONE_V5_def zone_def)

lemma unat_max: "unat (max a b :: 'a::len word) = max (unat a) (unat b)"
  by (simp add: max_def word_le_nat_alt)

lemma unat_min: "unat (min a b :: 'a::len word) = min (unat a) (unat b)"
  by (simp add: min_def word_le_nat_alt)







section \<open>Fees\<close>

definition base_fee :: "nat \<Rightarrow> nat \<Rightarrow> nat" where
  "base_fee reward m = (let q = reward * 3000 div (max zone m * max zone m) in max 1 (q - q div 20))"

lemma unat_split_hi0:
  fixes hi lo :: u64
  assumes "unat hi * 2 ^ 64 + unat lo = n" "n < 2 ^ 64"
  shows "unat lo = n"
  using assms by (cases "unat hi") auto

lemma get_dynamic_base_fee_eq:
  "\<exists>f. get_dynamic_base_fee r m = Some f \<and> unat f = base_fee (unat r) (unat m)"
proof -
  define M where "M = (if m < CRYPTONOTE_BLOCK_GRANTED_FULL_REWARD_ZONE_V5 then CRYPTONOTE_BLOCK_GRANTED_FULL_REWARD_ZONE_V5 else m)"
  have M: "unat M = max zone (unat m)" using unat_zone by (auto simp: M_def word_less_nat_alt)
  have Mz: "zone \<le> unat M" unfolding M by simp
  then have M0: "M \<noteq> 0" by (auto simp: zone_def)
  obtain lo hi where p: "mul128 r DYNAMIC_FEE_REFERENCE_TRANSACTION_WEIGHT = (lo, hi)" by fastforce
  have v: "unat hi * 2 ^ 64 + unat lo = unat r * 3000"
    using mul128_product [of r DYNAMIC_FEE_REFERENCE_TRANSACTION_WEIGHT] p
    by (simp add: DYNAMIC_FEE_REFERENCE_TRANSACTION_WEIGHT_def)
  obtain h1 l1 r1 where d1: "div128_64 hi lo M = Some (h1, l1, 0, r1)" "unat h1 * 2 ^ 64 + unat l1 = unat r * 3000 div unat M"
    using div128_64_spec [OF M0, of hi lo] unfolding v by blast
  obtain h2 l2 r2 where d2: "div128_64 h1 l1 M = Some (h2, l2, 0, r2)"
      "unat h2 * 2 ^ 64 + unat l2 = unat r * 3000 div unat M div unat M"
    using div128_64_spec [OF M0, of h1 l1] unfolding d1(2) by blast
  let ?q = "unat r * 3000 div (unat M * unat M)"
  have "unat r * 3000 div unat M \<le> unat r * 3000 div 3000"
    using Mz by (intro div_le_mono2) (simp_all add: zone_def)
  then have "unat r * 3000 div unat M \<le> unat r" by simp
  then have "unat r * 3000 div unat M div unat M \<le> unat r" using div_le_dividend le_trans by blast
  then have "unat r * 3000 div unat M div unat M < 2 ^ 64" using unat_lt_u64 [of r] by simp
  then have l2: "unat l2 = ?q" using unat_split_hi0 [OF d2(2)] by (simp add: div_mult2_eq)
  have "unat (l2 - l2 div 20) = ?q - ?q div 20"
    using l2 by (subst unat_sub) (simp_all add: word_le_nat_alt unat_div)
  then have "unat (if l2 - l2 div 20 = 0 then 1 else l2 - l2 div 20) = base_fee (unat r) (unat m)"
    unfolding unat_at_least_1 base_fee_def Let_def M by simp
  then show ?thesis
    by (simp add: get_dynamic_base_fee_def Let_def M_def [symmetric] p d1(1) d2(1))
qed



lemma get_block_reward_1: "get_block_reward m 1 g v = Some (Some (base_block_reward g v))"
  using min_weight_pos [of v] by (auto simp: get_block_reward_def Let_def word_le_nat_alt word_less_nat_alt)

definition top_coins :: "weight_state \<Rightarrow> u64" where
  "top_coins ws = (if ws_info ws = [] then 0 else bi_coins (last (ws_info ws)))"

lemma top_coins_read:
  assumes "chain_fits ws"
  shows "(if ws_height ws \<noteq> 0 then map_option bi_coins (get_block_info ws (ws_height ws - 1)) else Some 0) = Some (top_coins ws)"
proof (cases "ws_info ws = []")
  case True
  then show ?thesis by (simp add: ws_height_def top_coins_def)
next
  case False
  have h: "unat (ws_height ws) = length (ws_info ws)" by (rule unat_ws_height [OF assms])
  have l: "0 < length (ws_info ws)" using False by simp
  have "unat (ws_height ws - 1) = length (ws_info ws) - 1" using h l by (simp add: unat_sub word_le_nat_alt Suc_le_eq)
  moreover have "ws_height ws \<noteq> 0" using h l by auto
  ultimately show ?thesis using False l by (simp add: get_block_info_def vec_at_def top_coins_def last_conv_nth)
qed




section \<open>The fee estimate\<close>

definition fee_level_low :: "nat \<Rightarrow> nat \<Rightarrow> nat" where "fee_level_low R m = R * 3000 div (m * m)"
definition fee_level_normal :: "nat \<Rightarrow> nat \<Rightarrow> nat" where "fee_level_normal R m = 4 * R * 3000 div (m * m)"
definition fee_level_medium :: "nat \<Rightarrow> nat \<Rightarrow> nat" where "fee_level_medium R m = 16 * R * 3000 div (zone * m)"
definition fee_level_high :: "nat \<Rightarrow> nat \<Rightarrow> nat \<Rightarrow> nat" where
  "fee_level_high R n m =
     max (4 * fee_level_medium R m) (4 * fee_level_medium R m * m div (32 * 3000 * n div zone))"

lemma unat_div_u64: "b \<noteq> 0 \<Longrightarrow> div_u64 a b = Some (a div b)"
  by (simp add: div_u64_def)

lemma round_money_up_2:
  assumes "unat a < 2 ^ 62"
  shows "\<exists>r. round_money_up a 2 = Some r \<and> unat r = round_up (10 ^ (num_digits (unat a) - 2)) (unat a)"
proof -
  let ?k = "num_digits (unat a) - 2" and ?r = "round_up (10 ^ (num_digits (unat a) - 2)) (unat a)"
  have "?r < unat a + 10 ^ ?k" using round_up_upper [of "10 ^ ?k" "unat a"] by simp
  moreover have "(10::nat) ^ ?k \<le> max 1 (unat a)"
  proof (cases "unat a = 0")
    case True
    then show ?thesis by (simp add: num_digits_def to_string.simps)
  next
    case False
    have "(10::nat) ^ ?k \<le> 10 ^ (num_digits (unat a) - 1)" by (rule power_increasing) simp_all
    then show ?thesis using num_digits_lower [of "unat a"] False by linarith
  qed
  ultimately have "?r < 2 ^ 64" using assms by simp
  then have "unat (of_nat ?r :: u64) = ?r" by (simp add: unat_of_nat_exact)
  then show ?thesis using \<open>?r < 2 ^ 64\<close> by (simp add: round_money_up_eq Let_def)
qed

lemma round_digits_mono:
  assumes "a \<le> b"
  shows "round_up (10 ^ (num_digits a - 2)) a \<le> round_up (10 ^ (num_digits b - 2)) b"
proof -
  have up: "round_up m n \<le> k * m" if "n \<le> k * m" "0 < m" for m n k :: nat
  proof -
    have "(n + m - 1) div m \<le> (k * m + (m - 1)) div m" using that by (intro div_le_mono) auto
    also have "\<dots> = k" using that(2) by (subst add.commute, subst div_mult_self1) simp_all
    finally show ?thesis by (simp add: round_up_def)
  qed
  consider "num_digits a = num_digits b" | "num_digits a < num_digits b" | "num_digits b < num_digits a" by linarith
  then show ?thesis
  proof cases
    case 1
    have "b \<le> round_up (10 ^ (num_digits b - 2)) b \<and> 10 ^ (num_digits b - 2) dvd round_up (10 ^ (num_digits b - 2)) b"
      using round_up_upper [of "10 ^ (num_digits b - 2)" b] by simp
    then obtain k where "round_up (10 ^ (num_digits b - 2)) b = k * 10 ^ (num_digits b - 2)" "b \<le> round_up (10 ^ (num_digits b - 2)) b"
      by (metis dvd_def mult.commute)
    then show ?thesis using up [of a k "10 ^ (num_digits b - 2)"] assms 1 by simp
  next
    case 2
    have "(10::nat) ^ num_digits a = 10 ^ (num_digits a - (num_digits a - 2)) * 10 ^ (num_digits a - 2)"
      by (simp flip: power_add)
    then have "round_up (10 ^ (num_digits a - 2)) a \<le> 10 ^ num_digits a"
      using up [of a "10 ^ (num_digits a - (num_digits a - 2))" "10 ^ (num_digits a - 2)"] num_digits_upper [of a] by simp
    also have "\<dots> \<le> 10 ^ (num_digits b - 1)" using 2 by (intro power_increasing) simp_all
    also have "\<dots> \<le> b"
    proof (cases "b = 0")
      case True
      then show ?thesis using 2 by (simp add: num_digits_def to_string.simps [of 0])
    qed (use num_digits_lower [of b] in simp)
    also have "\<dots> \<le> round_up (10 ^ (num_digits b - 2)) b" using round_up_upper [of "10 ^ (num_digits b - 2)" b] by simp
    finally show ?thesis .
  next
    case 3
    have "0 < a" using 3 by (cases "a = 0") (simp_all add: num_digits_def to_string.simps [of 0] Suc_le_eq)
    have "b < 10 ^ num_digits b" by (rule num_digits_upper)
    also have "\<dots> \<le> 10 ^ (num_digits a - 1)" using 3 by (intro power_increasing) simp_all
    also have "\<dots> \<le> a" by (rule num_digits_lower [OF \<open>0 < a\<close>])
    finally show ?thesis using assms by simp
  qed
qed


lemma fee_levels_mono:
  assumes "zone \<le> m"
  shows "fee_level_low R m \<le> fee_level_normal R m" "fee_level_normal R m \<le> fee_level_medium R m"
    "fee_level_medium R m \<le> fee_level_high R n m"
proof -
  show "fee_level_low R m \<le> fee_level_normal R m"
    unfolding fee_level_low_def fee_level_normal_def by (rule div_le_mono) simp
  have "fee_level_normal R m = 4 * R * 3000 * zone div (m * m * zone)"
    by (simp add: fee_level_normal_def zone_def)
  also have "\<dots> \<le> 16 * R * 3000 * m div (m * m * zone)"
    using assms by (intro div_le_mono) (simp add: zone_def)
  also have "\<dots> = 16 * R * 3000 * m div (zone * m * m)" by (simp add: mult.commute mult.left_commute)
  also have "\<dots> = fee_level_medium R m"
    using assms by (simp add: fee_level_medium_def zone_def div_mult_mult2)
  finally show "fee_level_normal R m \<le> fee_level_medium R m" .
  show "fee_level_medium R m \<le> fee_level_high R n m" by (simp add: fee_level_high_def)
qed

lemma fee_level_high_bound:
  assumes "zone \<le> m" "R < 2 ^ 46"
  shows "4 * fee_level_medium R m * m < 2 ^ 46" "fee_level_high R n m < 2 ^ 62"
proof -
  let ?M = "fee_level_medium R m"
  have "?M * (zone * m) \<le> 16 * R * 3000" by (simp add: fee_level_medium_def)
  then have "?M * m * 25 \<le> 4 * R" by (simp add: zone_def algebra_simps)
  moreover have "4 * ?M * m = 4 * (?M * m)" by simp
  ultimately show a: "4 * ?M * m < 2 ^ 46" using assms(2) by linarith
  have "?M * 1 \<le> ?M * m" using assms(1) by (intro mult_le_mono2) (simp add: zone_def)
  then have "4 * ?M < 2 ^ 46" using a \<open>4 * ?M * m = 4 * (?M * m)\<close> by linarith
  moreover have "4 * ?M * m div (32 * 3000 * n div zone) < 2 ^ 46"
    using a div_le_dividend le_less_trans by blast
  ultimately show "fee_level_high R n m < 2 ^ 62" by (simp add: fee_level_high_def)
qed

lemma fee_estimate_eq:
  assumes z: "zone \<le> unat Mlw" "zone \<le> unat Mnw" "unat Mnw < 2 ^ 32" and R: "unat R < 2 ^ 46"
  shows "\<exists>f0 f1 f2 f3. fee_estimate_2021_scaling R Mnw Mlw = Some [f0, f1, f2, f3]
    \<and> map unat [f0, f1, f2, f3] = map (\<lambda>f. round_up (10 ^ (num_digits f - 2)) f)
        [fee_level_low (unat R) (unat (min Mnw Mlw)), fee_level_normal (unat R) (unat (min Mnw Mlw)),
         fee_level_medium (unat R) (unat (min Mnw Mlw)), fee_level_high (unat R) (unat Mnw) (unat (min Mnw Mlw))]"
proof -
  let ?R = "unat R" and ?m = "unat (min Mnw Mlw)" and ?n = "unat Mnw" and ?T = "DYNAMIC_FEE_REFERENCE_TRANSACTION_WEIGHT"
  have T: "unat ?T = 3000" by (simp add: DYNAMIC_FEE_REFERENCE_TRANSACTION_WEIGHT_def)
  define Mfw where mn: "Mfw = min Mnw Mlw"
  have m: "zone \<le> ?m" "?m \<le> ?n" "?n < 2 ^ 32" using z by (simp_all add: unat_min)
  have fm: "unat Mfw = ?m" by (simp only: mn)
  have mm: "?m * ?m < 2 ^ 32 * 2 ^ 32" using m by (intro mult_strict_mono) simp_all
  have umm: "unat (Mfw * Mfw) = ?m * ?m" using mm fm by (subst unat_mult_exact) simp_all
  have uzm: "unat (CRYPTONOTE_BLOCK_GRANTED_FULL_REWARD_ZONE_V5 * Mfw) = zone * ?m"
    using m fm by (subst unat_mult_exact) (simp_all add: unat_zone zone_def)
  have m0: "0 < ?m" using m(1) by (simp add: zone_def)
  have nz: "Mfw * Mfw \<noteq> 0" "CRYPTONOTE_BLOCK_GRANTED_FULL_REWARD_ZONE_V5 * Mfw \<noteq> 0"
    using umm uzm m0 by (auto simp: zone_def simp flip: unat_eq_0)
  have u1: "unat (R * ?T) = ?R * 3000" using R T by (subst unat_mult_exact) simp_all
  have u4: "unat (4 * R * ?T) = 4 * ?R * 3000"
    using R T by (subst unat_mult_exact, subst unat_mult_exact) (simp_all add: unat_mult_exact)
  have u16: "unat (16 * R * ?T) = 16 * ?R * 3000"
    using R T by (subst unat_mult_exact, subst unat_mult_exact) (simp_all add: unat_mult_exact)
  define Fl Fn Fm where F: "Fl = R * ?T div (Mfw * Mfw)" "Fn = 4 * R * ?T div (Mfw * Mfw)"
    "Fm = 16 * R * ?T div (CRYPTONOTE_BLOCK_GRANTED_FULL_REWARD_ZONE_V5 * Mfw)"
  have ul: "unat Fl = fee_level_low ?R ?m" "unat Fn = fee_level_normal ?R ?m" "unat Fm = fee_level_medium ?R ?m"
    unfolding F fee_level_low_def fee_level_normal_def fee_level_medium_def
    by (simp_all only: unat_div u1 u4 u16 umm uzm)
  note hb = fee_level_high_bound [OF m(1) R]
  note mono = fee_levels_mono [OF m(1), of ?R]
  have lv: "fee_level_medium ?R ?m < 2 ^ 60" using hb(2) by (simp add: fee_level_high_def)
  have u4F: "unat (4 * Fm) = 4 * fee_level_medium ?R ?m" using lv ul by (subst unat_mult_exact) simp_all
  have u4Fm: "unat (4 * Fm * Mfw) = 4 * fee_level_medium ?R ?m * ?m"
    using u4F hb(1) fm by (subst unat_mult_exact) simp_all
  define D where "D = 32 * ?T * Mnw div CRYPTONOTE_BLOCK_GRANTED_FULL_REWARD_ZONE_V5"
  have uD: "unat D = 32 * 3000 * ?n div zone"
    using m(3) T unfolding D_def
    by (simp only: unat_div unat_zone) (subst unat_mult_exact, simp_all add: unat_mult_exact)
  have "0 < 32 * 3000 * ?n div zone" using z by (simp add: zone_def div_greater_zero_iff)
  then have D0: "D \<noteq> 0" using uD by auto
  define Fh where "Fh = max (4 * Fm) (4 * Fm * Mfw div D)"
  have uh: "unat Fh = fee_level_high ?R ?n ?m"
    by (simp add: Fh_def unat_max unat_div u4F u4Fm uD fee_level_high_def)
  have est: "fee_estimate_2021_scaling R Mnw Mlw = do {
     fee0 \<leftarrow> round_money_up Fl 2; fee1 \<leftarrow> round_money_up Fn 2; fee2 \<leftarrow> round_money_up Fm 2; fee3 \<leftarrow> round_money_up Fh 2;
     Some [fee0, fee1, fee2, fee3] }"
    unfolding fee_estimate_2021_scaling_def Let_def mn [symmetric] unat_div_u64 [OF nz(1)] unat_div_u64 [OF nz(2)]
      CRYPTONOTE_SCALING_2021_FEE_ROUNDING_PLACES_def F [symmetric] bind.bind_lunit
    using unat_div_u64 [OF D0] by (simp add: F(3) [symmetric] D_def [symmetric] Fh_def [symmetric])
  have lt: "unat Fl < 2 ^ 62" "unat Fn < 2 ^ 62" "unat Fm < 2 ^ 62" "unat Fh < 2 ^ 62"
    unfolding ul uh using hb(2) [of ?n] mono(1,2) mono(3) [of ?n] by linarith+
  obtain f0 f1 f2 f3 where "round_money_up Fl 2 = Some f0" "round_money_up Fn 2 = Some f1"
      "round_money_up Fm 2 = Some f2" "round_money_up Fh 2 = Some f3"
      "unat f0 = round_up (10 ^ (num_digits (unat Fl) - 2)) (unat Fl)"
      "unat f1 = round_up (10 ^ (num_digits (unat Fn) - 2)) (unat Fn)"
      "unat f2 = round_up (10 ^ (num_digits (unat Fm) - 2)) (unat Fm)"
      "unat f3 = round_up (10 ^ (num_digits (unat Fh) - 2)) (unat Fh)"
    using round_money_up_2 [OF lt(1)] round_money_up_2 [OF lt(2)] round_money_up_2 [OF lt(3)] round_money_up_2 [OF lt(4)] by blast
  then show ?thesis unfolding est using ul uh by simp
qed


lemma median_lt:
  assumes "\<forall>x \<in> set xs. unat x < b" "0 < b"
  shows "unat (median xs) < b"
proof (cases "length xs \<le> 1")
  case True
  then show ?thesis using assms by (cases xs) (auto simp: median_def)
next
  case False
  let ?n = "length xs div 2"
  have n: "?n < length (sort xs)" "?n - 1 < length (sort xs)" using False by auto
  have "unat (sort xs ! ?n) < b" "unat (sort xs ! (?n - 1)) < b"
    using assms(1) nth_mem [OF n(1)] nth_mem [OF n(2)] by simp_all
  then show ?thesis using False by (auto simp: median_def Let_def unat_get_mid)
qed

definition grace_mlw :: "nat \<Rightarrow> weight_state \<Rightarrow> u64" where
  "grace_mlw g ws = (let rm = m_long_term_block_weights_cache_rolling_median ws in
     max (median (last_n (rm_N rm) (contents rm @ replicate g 0))) CRYPTONOTE_BLOCK_GRANTED_FULL_REWARD_ZONE_V5)"

definition grace_mnw :: "nat \<Rightarrow> weight_state \<Rightarrow> u64" where
  "grace_mnw g ws = min (max (median (map bi_weight (last_n (100 - g) (ws_info ws)) @ replicate g 0)) (grace_mlw g ws)) (50 * grace_mlw g ws)"

lemma grace_rolling:
  assumes "rm_inv rm"
  shows "\<exists>s. ofold rm_insert (replicate g 0) rm = Some s
    \<and> (if rm_sz s = 0 then Some 0 else rm_median s) = Some (median (last_n (rm_N rm) (contents rm @ replicate g 0)))"
proof -
  obtain s where s: "ofold rm_insert (replicate g 0) rm = Some s" "rm_inv s"
      "contents s = last_n (rm_N rm) (contents rm @ replicate g 0)"
    using rolling.ins_all [OF assms, of "replicate g 0"] by (auto simp: last_n_def)
  have "(if rm_sz s = 0 then Some 0 else rm_median s) = Some (median (contents s))"
    using rolling.med_law [OF s(2)] length_contents [OF s(2)] by (cases "contents s = []") (auto simp: median_def)
  then show ?thesis using s(1,3) by simp
qed

lemma grace_mlw_bounds:
  assumes "\<forall>x \<in> set (contents (m_long_term_block_weights_cache_rolling_median ws)). unat x < 2 ^ 26"
  shows "zone \<le> unat (grace_mlw g ws)" "unat (grace_mlw g ws) < 2 ^ 26"
    "zone \<le> unat (grace_mnw g ws)" "unat (grace_mnw g ws) < 2 ^ 32"
proof -
  let ?rm = "m_long_term_block_weights_cache_rolling_median ws"
  have "set (last_n (rm_N ?rm) (contents ?rm @ replicate g 0)) \<subseteq> set (contents ?rm) \<union> {0}"
    using set_drop_subset by (fastforce simp: last_n_def)
  then have "\<forall>x \<in> set (last_n (rm_N ?rm) (contents ?rm @ replicate g 0)). unat x < 2 ^ 26" using assms by auto
  then have "unat (median (last_n (rm_N ?rm) (contents ?rm @ replicate g 0))) < 2 ^ 26" by (rule median_lt) simp
  then show b: "zone \<le> unat (grace_mlw g ws)" "unat (grace_mlw g ws) < 2 ^ 26"
    by (simp_all add: grace_mlw_def Let_def unat_max unat_zone) (simp add: zone_def)
  have "unat (50 * grace_mlw g ws) = 50 * unat (grace_mlw g ws)" using b(2) by (subst unat_mult_exact) simp_all
  then show "zone \<le> unat (grace_mnw g ws)" "unat (grace_mnw g ws) < 2 ^ 32"
    using b by (simp_all add: grace_mnw_def unat_min unat_max)
qed

lemma estimate_ok:
  assumes fits: "chain_fits ws" and inv: "rm_inv (m_long_term_block_weights_cache_rolling_median ws)"
    and small: "\<forall>x \<in> set (contents (m_long_term_block_weights_cache_rolling_median ws)). unat x < 2 ^ 26"
    and g: "unat grace < 100"
  shows "\<exists>fees. get_dynamic_base_fee_estimate_2021_scaling v grace ws = Inr fees \<and> length fees = 4
    \<and> fee_estimate_2021_scaling (base_block_reward (top_coins ws) v) (grace_mnw (unat grace) ws) (grace_mlw (unat grace) ws) = Some fees"
proof -
  let ?g = "unat grace" and ?rm = "m_long_term_block_weights_cache_rolling_median ws"
  obtain s where s: "ofold rm_insert (replicate ?g 0) ?rm = Some s"
      "(if rm_sz s = 0 then Some 0 else rm_median s) = Some (median (last_n (rm_N ?rm) (contents ?rm @ replicate ?g 0)))"
    using grace_rolling [OF inv, of ?g] by blast
  have le: "\<not> \<not> grace \<le> CRYPTONOTE_REWARD_BLOCKS_WINDOW" using g by (simp add: CRYPTONOTE_REWARD_BLOCKS_WINDOW_def word_le_nat_alt)
  have u: "unat (100 - grace) = 100 - ?g" using g by (subst unat_sub) (simp_all add: word_le_nat_alt)
  then have "100 - grace \<noteq> 0" using g by (metis unat_0 zero_less_diff less_irrefl)
  then have w: "get_last_n_blocks_weights ws (100 - grace) = Some (map bi_weight (last_n (100 - ?g) (ws_info ws)))"
    using get_last_n_blocks_weights_eq [OF fits] u by simp
  note b = grace_mlw_bounds [OF small, of ?g]
  obtain f0 f1 f2 f3 where f: "fee_estimate_2021_scaling (base_block_reward (top_coins ws) v) (grace_mnw ?g ws) (grace_mlw ?g ws) = Some [f0, f1, f2, f3]"
    using fee_estimate_eq [OF b(1,3,4) base_reward_bounds(2)] by blast
  have "get_dynamic_base_fee_estimate_2021_scaling v grace ws = Inr [f0, f1, f2, f3]"
    unfolding get_dynamic_base_fee_estimate_2021_scaling_def if_not_P [OF le] Let_def s(1) raising_def option.case s(2) w top_coins_read [OF fits]
      get_block_reward_1 grace_mlw_def [unfolded Let_def, of ?g ws, symmetric] grace_mnw_def [symmetric] f ..
  then show ?thesis using f by simp
qed

lemma estimate_fails:
  assumes fits: "chain_fits ws" and ne: "ws_info ws \<noteq> []" and inv: "rm_inv (m_long_term_block_weights_cache_rolling_median ws)"
    and small: "\<forall>x \<in> set (contents (m_long_term_block_weights_cache_rolling_median ws)). unat x < 2 ^ 26"
    and g: "\<not> unat grace < 100"
  shows "get_dynamic_base_fee_estimate_2021_scaling v grace ws = Inl (if unat grace = 100 then Db_Error else Grace_Blocks_Invalid)"
proof (cases "unat grace = 100")
  case False
  then have "\<not> grace \<le> CRYPTONOTE_REWARD_BLOCKS_WINDOW" using g by (simp add: CRYPTONOTE_REWARD_BLOCKS_WINDOW_def word_le_nat_alt)
  then show ?thesis using False by (simp add: get_dynamic_base_fee_estimate_2021_scaling_def)
next
  case True
  let ?rm = "m_long_term_block_weights_cache_rolling_median ws"
  obtain s where s: "ofold rm_insert (replicate (unat grace) 0) ?rm = Some s"
      "(if rm_sz s = 0 then Some 0 else rm_median s) = Some (median (last_n (rm_N ?rm) (contents ?rm @ replicate (unat grace) 0)))"
    using grace_rolling [OF inv, of "unat grace"] by blast
  have "unat (ws_height ws) \<noteq> 0" using unat_ws_height [OF fits] ne by simp
  then have "ws_height ws \<noteq> 0" by auto
  moreover have g100: "grace = 100" using True by (simp add: word_unat_eq_iff)
  ultimately have w: "get_last_n_blocks_weights ws (100 - grace) = None"
    by (simp add: get_last_n_blocks_weights_def get_block_weights_def get_block_info_64bit_fields_def)
  have le: "\<not> \<not> grace \<le> CRYPTONOTE_REWARD_BLOCKS_WINDOW" by (simp add: g100 CRYPTONOTE_REWARD_BLOCKS_WINDOW_def)
  show ?thesis
    unfolding get_dynamic_base_fee_estimate_2021_scaling_def if_not_P [OF le] Let_def s(1) raising_def option.case s(2) w
    using True by simp
qed

section \<open>Timestamps\<close>

lemma get_block_timestamps_eq:
  assumes "chain_fits ws" "unat offset \<le> length (ws_info ws)"
  shows "get_block_timestamps ws offset (ws_height ws) = Some (map bi_timestamp (drop (unat offset) (ws_info ws)))"
proof -
  have "those (map (\<lambda>i. map_option f (vec_at xs i)) [k..<length xs]) = Some (map f (drop k xs))"
    if "k \<le> length xs" for f :: "block_info \<Rightarrow> u64" and xs k
    using that
  proof (induction k rule: inc_induct)
    case (step n)
    then show ?case by (simp add: upt_conv_Cons vec_at_def Cons_nth_drop_Suc [symmetric])
  qed simp
  then show ?thesis using assms(2) unat_ws_height [OF assms(1)] by (simp add: get_block_timestamps_def)
qed

definition last_timestamps :: "weight_state \<Rightarrow> u64 list" where
  "last_timestamps ws = map bi_timestamp (last_n 60 (ws_info ws))"


lemma last_sort: "xs \<noteq> [] \<Longrightarrow> last (sort xs) = Max (set xs)" for xs :: "u64 list"
proof -
  assume "xs \<noteq> []"
  then have ne: "sort xs \<noteq> []" by (metis length_0_conv length_sort)
  have "y \<le> last (sort xs)" if y: "y \<in> set xs" for y
  proof -
    obtain i where "i < length (sort xs)" "y = sort xs ! i" using y by (metis in_set_conv_nth set_sort)
    then show ?thesis using sorted_nth_mono [OF sorted_sort, of i "length (sort xs) - 1" xs] ne by (simp add: last_conv_nth)
  qed
  moreover have "last (sort xs) \<in> set xs" using last_in_set [OF ne] by simp
  ultimately show ?thesis using Max_eqI [of "set xs" "last (sort xs)"] by simp
qed

lemma min_less: "min a b = (if a < b then a else b)" for a b :: u64
  by (auto simp: min_def)

text \<open>
  The adjusted time of a chain of 60 blocks or more: the median of the last 60 timestamps moved by 3660 seconds, or 120 seconds after the
  latest of these timestamps, whichever is earlier.  The latest timestamp need not be the one of the previous block.
\<close>

theorem adjusted_time_eq:
  assumes "chain_fits ws" "60 \<le> length (ws_info ws)"
  shows "get_adjusted_time now (ws_height ws) ws
    = Some (min (Max (set (last_timestamps ws)) + 120) (median (last_timestamps ws) + 3660))"
proof -
  have h: "unat (ws_height ws) = length (ws_info ws)" by (rule unat_ws_height [OF assms(1)])
  then have ge: "\<not> ws_height ws < BLOCKCHAIN_TIMESTAMP_CHECK_WINDOW"
    using assms(2) by (simp add: BLOCKCHAIN_TIMESTAMP_CHECK_WINDOW_def word_less_nat_alt)
  have "unat (ws_height ws - BLOCKCHAIN_TIMESTAMP_CHECK_WINDOW) = length (ws_info ws) - 60"
    using h assms(2) by (simp add: BLOCKCHAIN_TIMESTAMP_CHECK_WINDOW_def unat_sub word_le_nat_alt)
  then have ts: "get_block_timestamps ws (ws_height ws - BLOCKCHAIN_TIMESTAMP_CHECK_WINDOW) (ws_height ws) = Some (last_timestamps ws)"
    using get_block_timestamps_eq [OF assms(1)] by (simp add: last_timestamps_def last_n_def)
  have "length (last_timestamps ws) = 60" using assms(2) by (simp add: last_timestamps_def)
  then have ne: "last_timestamps ws \<noteq> []" by auto
  show ?thesis
    unfolding get_adjusted_time_def if_not_P [OF ge] ts Let_def bind.bind_lunit last_sort [OF ne]
    using min_less [of "Max (set (last_timestamps ws)) + 120" "median (last_timestamps ws) + 3660"]
    by (simp add: BLOCKCHAIN_TIMESTAMP_CHECK_WINDOW_def DIFFICULTY_TARGET_V2_def)
qed

section \<open>Emission\<close>

lemma fold_money: "fold (\<lambda>amount money_in_use. money_in_use + amount) xs s = s + sum_list xs" for s :: u64
  by (induction xs arbitrary: s) (simp_all add: add.assoc)

lemma validate_accepts:
  assumes "validate_miner_transaction amounts w fee g v ws = Some (Some (r, p))"
  shows "\<exists>m B. get_block_reward m w g v = Some (Some B) \<and> r \<le> B \<and> sum_list amounts = r + fee \<and> (p \<longleftrightarrow> r \<noteq> B)
    \<and> (v < 2 \<or> 13 \<le> v \<longrightarrow> r = B)"
proof -
  let ?c = "\<lambda>B. if B + fee < sum_list amounts then None
        else if v < 2 \<or> v \<ge> HF_VERSION_EXACT_COINBASE then
          if B + fee \<noteq> sum_list amounts then None else Some (B, False)
        else if \<not> sum_list amounts - fee \<le> B then None
        else Some (sum_list amounts - fee, B + fee \<noteq> sum_list amounts)"
  have n3: "\<not> (v = 3 \<and> \<not> list_all is_valid_decomposed_amount amounts)"
  proof
    assume "v = 3 \<and> \<not> list_all is_valid_decomposed_amount amounts"
    then have "validate_miner_transaction amounts w fee g v ws = Some None" unfolding validate_miner_transaction_def Let_def by (rule if_P)
    then show False using assms by simp
  qed
  obtain m r0 where r0: "get_block_reward m w g v = Some r0" "Some (case r0 of None \<Rightarrow> None | Some B \<Rightarrow> ?c B) = Some (Some (r, p))"
    using assms unfolding validate_miner_transaction_def fold_money Let_def if_not_P [OF n3] add_0 bind_eq_Some_conv by blast
  then obtain B where B: "r0 = Some B" by (cases r0) simp_all
  have e: "B + fee = sum_list amounts \<longleftrightarrow> sum_list amounts - fee = B" by (metis add_diff_cancel_right' diff_add_cancel)
  have "?c B = Some (r, p)" using r0(2) unfolding B by simp
  then have "r \<le> B \<and> sum_list amounts = r + fee \<and> (p \<longleftrightarrow> r \<noteq> B) \<and> (v < 2 \<or> 13 \<le> v \<longrightarrow> r = B)"
    by (auto simp: e HF_VERSION_EXACT_COINBASE_def split: if_splits)
  then show ?thesis using r0(1) unfolding B by blast
qed

text \<open>
  A run of blocks that \<open>handle_block_to_main_chain\<close> accepts: each has its miner transaction, weight, fees and version and meets a state of
  its own; the total of generated coins is stored with the block and read back for the next one.
\<close>

record mined_block =
  mb_amounts :: "u64 list"
  mb_weight :: u64
  mb_fee :: u64
  mb_version :: u8
  mb_state :: weight_state

fun mine_blocks :: "mined_block list \<Rightarrow> u64 \<Rightarrow> (u64 list \<times> u64) option" where
  "mine_blocks [] g = Some ([], g)"
| "mine_blocks (b # bs) g = do {
     r \<leftarrow> validate_miner_transaction (mb_amounts b) (mb_weight b) (mb_fee b) g (mb_version b) (mb_state b);
     (base_reward, _) \<leftarrow> r;
     (rs, g') \<leftarrow> mine_blocks bs (add_generated_coins g base_reward);
     Some (base_reward # rs, g') }"

lemma base_reward_mono: "g \<le> g' \<Longrightarrow> base_block_reward g' v \<le> base_block_reward g v"
  using base_reward_antimono [of g g' v] by (simp add: word_le_nat_alt)

lemma mine_blocks_spec:
  assumes "mine_blocks bs g = Some (rs, g')"
  shows "g \<le> g' \<and> unat g' = min (unat g + sum_list (map unat rs)) (2 ^ 64 - 1)
    \<and> list_all2 (\<lambda>b r. r \<le> base_block_reward g (mb_version b) \<and> sum_list (mb_amounts b) = r + mb_fee b) bs rs"
  using assms
proof (induction bs arbitrary: g rs)
  case Nil
  then show ?case using unat_lt_u64 [of g] by simp
next
  case (Cons b bs)
  obtain r p rs' where r: "validate_miner_transaction (mb_amounts b) (mb_weight b) (mb_fee b) g (mb_version b) (mb_state b) = Some (Some (r, p))"
      "mine_blocks bs (add_generated_coins g r) = Some (rs', g')" "rs = r # rs'"
    using Cons.prems by (auto simp: bind_eq_Some_conv)
  let ?g = "add_generated_coins g r"
  have v: "r \<le> base_block_reward g (mb_version b)" "sum_list (mb_amounts b) = r + mb_fee b"
    using validate_accepts [OF r(1)] get_block_reward_le by (auto simp: word_le_nat_alt intro: le_trans)
  have g: "unat ?g = min (unat g + unat r) (2 ^ 64 - 1)" by (rule unat_add_generated)
  then have gg: "g \<le> ?g" using unat_lt_u64 [of g] by (simp add: word_le_nat_alt)
  note ih = Cons.IH [OF r(2)]
  have "unat g' = min (unat g + sum_list (map unat rs)) (2 ^ 64 - 1)" using ih g r(3) by (auto simp: min_def)
  moreover have "list_all2 (\<lambda>b r. r \<le> base_block_reward g (mb_version b) \<and> sum_list (mb_amounts b) = r + mb_fee b) bs rs'"
    using ih base_reward_mono [OF gg] by (auto elim!: list_all2_mono intro: order_trans)
  ultimately show ?case using gg ih v r(3) by auto
qed

section \<open>Properties\<close>

text \<open>C12: The cached long-term median is the median.  Starting from a fresh cache, let the chain change in any
  way between requests: blocks added, popped, or a switch to another branch.  Each request for the
  window of the current chain returns the median of the long-term weights of its last 100000
  blocks, whether the answer came from the cache, from one insertion or from a full
  recomputation, provided that equal block hashes mean equal chains below them.\<close>

theorem lt_median_cache_sound:
  assumes "\<forall>c \<in> set cs. agrees hist c"
    and "new_rolling_median d p h CRYPTONOTE_LONG_TERM_BLOCK_WEIGHT_WINDOW_SIZE = Some (m_long_term_block_weights_cache_rolling_median ws)"
  shows "lt_medians cs ws = Some (map chain_median cs)"
  by (rule lt_medians_ok [OF assms(1) fresh_cache_ok [OF assms(2)]])

definition sample_info :: "nat \<Rightarrow> u64 \<Rightarrow> block_info" where
  "sample_info n w = \<lparr>bi_hash = [of_nat n], bi_timestamp = 1000, bi_coins = 0, bi_weight = w, bi_long_term_block_weight = w\<rparr>"

definition sample_weights :: weight_state where
  "sample_weights = \<lparr>ws_info = [sample_info 1 400000],
     m_long_term_block_weights_window = CRYPTONOTE_LONG_TERM_BLOCK_WEIGHT_WINDOW_SIZE,
     m_long_term_effective_median_block_weight = 300000, m_current_block_cumul_weight_median = 300000,
     m_current_block_cumul_weight_limit = 600000, m_long_term_block_weights_cache_tip_hash = null_hash,
     m_long_term_block_weights_cache_rolling_median =
       the (new_rolling_median [] (\<lambda>_. 0) (\<lambda>_. 0) CRYPTONOTE_LONG_TERM_BLOCK_WEIGHT_WINDOW_SIZE)\<rparr>"

lemma sample_cache:
  "new_rolling_median [] (\<lambda>_. 0) (\<lambda>_. 0) CRYPTONOTE_LONG_TERM_BLOCK_WEIGHT_WINDOW_SIZE
    = Some (m_long_term_block_weights_cache_rolling_median sample_weights)"
  by (simp add: sample_weights_def new_rolling_median_def i32_def CRYPTONOTE_LONG_TERM_BLOCK_WEIGHT_WINDOW_SIZE_def)

theorem lt_median_cache_sound_witness:
  "\<exists>b1 b2 b2'. bi_long_term_block_weight b2 \<noteq> bi_long_term_block_weight b2' \<and>
     lt_medians [[b1], [b1, b2], [b1], [b1, b2']] sample_weights
     = Some (map chain_median [[b1], [b1, b2], [b1], [b1, b2']])"
proof -
  let ?b1 = "sample_info 1 400000" and ?b2 = "sample_info 2 300000" and ?b3 = "sample_info 3 500000"
  let ?hist = "\<lambda>h. if h = [1] then [?b1] else if h = [2] then [?b1, ?b2] else [?b1, ?b3]"
  have "\<forall>c \<in> set [[?b1], [?b1, ?b2], [?b1], [?b1, ?b3]]. agrees ?hist c"
    by (auto simp: agrees_def sample_info_def less_Suc_eq)
  then have "lt_medians [[?b1], [?b1, ?b2], [?b1], [?b1, ?b3]] sample_weights
      = Some (map chain_median [[?b1], [?b1, ?b2], [?b1], [?b1, ?b3]])"
    by (rule lt_median_cache_sound) (rule sample_cache)
  moreover have "bi_long_term_block_weight ?b2 \<noteq> bi_long_term_block_weight ?b3" by (simp add: sample_info_def)
  ultimately show ?thesis by blast
qed



text \<open>C16: Emission.  Over any run of accepted blocks, of any versions, weights, fees and medians, the recorded total of generated coins
  grows by exactly the rewards until it stays at \<open>2^64 - 1\<close>, so it never decreases and never wraps around.  Each miner
  transaction pays out its block's reward and fees, modulo \<open>2^64\<close> like the sum of its outputs, and no more; each reward is at most the base
  reward for its version at the start of the run.  The base reward never rises again, and never falls below the tail subsidy of 0.3 coins per
  minute.\<close>

theorem emission_bounded:
  assumes "mine_blocks bs g = Some (rs, g')"
  shows "g \<le> g' \<and> unat g' = min (unat g + sum_list (map unat rs)) (2 ^ 64 - 1)
    \<and> list_all2 (\<lambda>b r. r \<le> base_block_reward g (mb_version b) \<and> sum_list (mb_amounts b) = r + mb_fee b) bs rs
    \<and> base_block_reward g' v \<le> base_block_reward g v \<and> 300000000000 * target_minutes v \<le> unat (base_block_reward g' v)"
  using mine_blocks_spec [OF assms] base_reward_mono [of g g' v] base_reward_bounds(1) by blast

definition sample_mined :: "u64 \<Rightarrow> u64 \<Rightarrow> u8 \<Rightarrow> mined_block" where
  "sample_mined amount fee version = \<lparr>mb_amounts = [amount], mb_weight = 1000, mb_fee = fee, mb_version = version, mb_state = sample_weights\<rparr>"

theorem emission_bounded_witness:
  "\<exists>bs rs g'. map mb_version bs = [12, 16] \<and> mine_blocks bs 18400000000000000000 = Some (rs, g') \<and> unat g' = 18400000000000000000 + sum_list (map unat rs)
    \<and> rs = [5, 600000000000] \<and> 600000000000 \<le> unat (base_block_reward g' 16)"
proof -
  let ?bs = "[sample_mined 12 7 12, sample_mined 600000000009 9 16]"
  have "mine_blocks ?bs 18400000000000000000 = Some ([5, 600000000000], 18400000600000000005)"
    by (simp add: sample_mined_def validate_miner_transaction_def get_block_reward_def get_min_block_weight_def sample_weights_def Let_def
        CRYPTONOTE_BLOCK_GRANTED_FULL_REWARD_ZONE_V5_def HF_VERSION_EXACT_COINBASE_def HF_VERSION_EFFECTIVE_SHORT_TERM_MEDIAN_IN_PENALTY_def
        base_block_reward_def target_minutes_eq emission_speed_factor_eq MONEY_SUPPLY_def FINAL_SUBSIDY_PER_MINUTE_def add_generated_coins_def)
  from this emission_bounded [OF this, of 16] show ?thesis
    by (intro exI [of _ ?bs] exI [of _ "[5, 600000000000]"] exI [of _ 18400000600000000005])
      (simp add: sample_mined_def target_minutes_eq)
qed



text \<open>The rounding of the fee per byte: with a reward of 1.2 coins and a median of 1425000, 95\% of the exact quotient is about 1684.2,
  which the code rounds down.\<close>

theorem dynamic_base_fee_rounds_down:
  "get_dynamic_base_fee 1200000000000 1425000 = Some 1684"
proof -
  obtain f where "get_dynamic_base_fee 1200000000000 1425000 = Some f" "unat f = 1684"
    using get_dynamic_base_fee_eq [of 1200000000000 1425000] by (auto simp: base_fee_def Let_def zone_def)
  then show ?thesis by (simp add: word_unat_eq_iff)
qed

text \<open>C18: The fee estimate from a base reward and the two medians \<open>Mnw\<close> and \<open>Mlw\<close>.  With both medians at least the penalty-free
  zone, in either order, \<open>Mnw\<close> below \<open>2^32\<close> and any possible base reward, nothing wraps or throws.  With \<open>m\<close> the smaller median, the
  low, normal and medium levels are the quotients \<open>3000 R / m^2\<close>, \<open>4 * 3000 R / m^2\<close> and \<open>16 * 3000 R / (zone m)\<close> rounded down; the high
  level is the larger of \<open>4 f\<close> and \<open>4 f m / (32 * 3000 Mnw / zone)\<close>, where \<open>f\<close> is the medium level so rounded and both divisions round
  down.  Each level is then rounded up to two significant digits, and the fees never decrease
  from one level to the next.\<close>

theorem fee_estimate_correct:
  assumes "zone \<le> unat Mlw" "zone \<le> unat Mnw" "unat Mnw < 2 ^ 32" "unat R < 2 ^ 46"
  shows "\<exists>f0 f1 f2 f3. fee_estimate_2021_scaling R Mnw Mlw = Some [f0, f1, f2, f3]
    \<and> (let r = unat R; n = unat Mnw; m = min n (unat Mlw); medium = 16 * r * 3000 div (zone * m) in
       map unat [f0, f1, f2, f3] = map (\<lambda>f. round_up (10 ^ (num_digits f - 2)) f)
         [r * 3000 div (m * m), 4 * r * 3000 div (m * m), medium,
          max (4 * medium) (4 * medium * m div (32 * 3000 * n div zone))])
    \<and> f0 \<le> f1 \<and> f1 \<le> f2 \<and> f2 \<le> f3"
proof -
  let ?m = "unat (min Mnw Mlw)"
  obtain f0 f1 f2 f3 where f: "fee_estimate_2021_scaling R Mnw Mlw = Some [f0, f1, f2, f3]"
    "map unat [f0, f1, f2, f3] = map (\<lambda>f. round_up (10 ^ (num_digits f - 2)) f)
        [fee_level_low (unat R) ?m, fee_level_normal (unat R) ?m, fee_level_medium (unat R) ?m, fee_level_high (unat R) (unat Mnw) ?m]"
    using fee_estimate_eq [OF assms] by blast
  have "zone \<le> ?m" using assms(1,2) by (simp add: unat_min)
  note mono = fee_levels_mono [OF this, of "unat R"]
  note eqs = f(2) [unfolded list.map list.inject]
  have "f0 \<le> f1" "f1 \<le> f2" "f2 \<le> f3"
    using eqs unfolding word_le_nat_alt
    by (simp_all only: round_digits_mono [OF mono(1)] round_digits_mono [OF mono(2)] round_digits_mono [OF mono(3)])
  then show ?thesis
    using f unfolding unat_min Let_def fee_level_low_def fee_level_normal_def fee_level_high_def fee_level_medium_def by blast
qed

theorem fee_estimate_correct_witness:
  "\<exists>f0 f1 f2 f3. fee_estimate_2021_scaling 600000000000 300000 400000 = Some [f0, f1, f2, f3]
    \<and> (let r = unat (600000000000 :: u64); n = unat (300000 :: u64); m = min n (unat (400000 :: u64));
           medium = 16 * r * 3000 div (zone * m) in
       map unat [f0, f1, f2, f3] = map (\<lambda>f. round_up (10 ^ (num_digits f - 2)) f)
         [r * 3000 div (m * m), 4 * r * 3000 div (m * m), medium,
          max (4 * medium) (4 * medium * m div (32 * 3000 * n div zone))])
    \<and> f0 \<le> f1 \<and> f1 \<le> f2 \<and> f2 \<le> f3"
  by (rule fee_estimate_correct) (simp_all add: zone_def)

text \<open>C19: The fee estimate by grace period.  On a non-empty chain with a sound cache of weights below \<open>2^26\<close>, a grace period of fewer than
  100 blocks gives the fees for the base reward after the top block and the two medians that have a zero for each grace block.  One
  of more than 100 blocks is refused by the check.  One of exactly 100 blocks passes the check and then always fails: the
  window of past blocks is empty, its read starts at the chain height, and the database throws.\<close>

theorem fee_estimate_by_grace:
  assumes "chain_fits ws" "ws_info ws \<noteq> []" "rm_inv (m_long_term_block_weights_cache_rolling_median ws)"
    and "\<forall>x \<in> set (contents (m_long_term_block_weights_cache_rolling_median ws)). unat x < 2 ^ 26"
  shows "if unat grace < 100 then
      \<exists>fees. get_dynamic_base_fee_estimate_2021_scaling v grace ws = Inr fees \<and> length fees = 4
        \<and> fee_estimate_2021_scaling (base_block_reward (top_coins ws) v) (grace_mnw (unat grace) ws) (grace_mlw (unat grace) ws) = Some fees
    else get_dynamic_base_fee_estimate_2021_scaling v grace ws
      = Inl (if unat grace = 100 then Db_Error else Grace_Blocks_Invalid)"
  using estimate_ok [OF assms(1,3,4)] estimate_fails [OF assms] by simp

theorem fee_estimate_by_grace_witness:
  "(\<exists>fees. get_dynamic_base_fee_estimate_2021_scaling 16 10 sample_weights = Inr fees \<and> length fees = 4)
    \<and> get_dynamic_base_fee_estimate_2021_scaling 16 100 sample_weights = Inl Db_Error
    \<and> get_dynamic_base_fee_estimate_2021_scaling 16 101 sample_weights = Inl Grace_Blocks_Invalid"
proof -
  let ?rm = "m_long_term_block_weights_cache_rolling_median sample_weights"
  have "rm_inv ?rm" "contents ?rm = []"
    using new_rolling_median_inv [of CRYPTONOTE_LONG_TERM_BLOCK_WEIGHT_WINDOW_SIZE "[]" "\<lambda>_. 0" "\<lambda>_. 0"] sample_cache
    by (simp_all add: CRYPTONOTE_LONG_TERM_BLOCK_WEIGHT_WINDOW_SIZE_def)
  moreover have "chain_fits sample_weights" "ws_info sample_weights \<noteq> []" by (simp_all add: sample_weights_def chain_fits_def)
  ultimately have a: "\<forall>x \<in> set (contents ?rm). unat x < 2 ^ 26" "rm_inv ?rm" "chain_fits sample_weights" "ws_info sample_weights \<noteq> []"
    by simp_all
  show ?thesis
    using fee_estimate_by_grace [OF a(3,4,2,1), of 10 16] fee_estimate_by_grace [OF a(3,4,2,1), of 100 16]
      fee_estimate_by_grace [OF a(3,4,2,1), of 101 16] by auto
qed



end
