(* ===== verification/Limb_Arith.thy ===== *)
theory Limb_Arith
  imports Prelude_Monero
begin

text \<open>
  Multi-limb integer arithmetic as the reference elliptic-curve code writes it
  (\<open>src/crypto/crypto-ops.c\<close>): arrays of signed limbs, sums of products, carry chains.  Signed
  overflow is undefined behaviour, so every result is checked: \<open>i32\<close> and \<open>i64\<close> have no value out
  of range, and a theorem that a function returns \<open>Some\<close> shows that no operation in it overflows.
  A right shift of a signed value is the arithmetic shift, division rounding down.  The second
  half is an interval analysis of such programs, proved sound once and evaluated per routine.
\<close>

section \<open>Checked arithmetic\<close>

definition sum64 :: "int list \<Rightarrow> int option" where
  "sum64 xs = ofold (\<lambda>x acc. do { x \<leftarrow> i64 x; i64 (acc + x) }) xs 0"

text \<open>\<open>s_i += x\<close>, \<open>s_i += x * m\<close>, \<open>s_i -= x * m\<close>.\<close>

definition add_at :: "nat \<Rightarrow> int \<Rightarrow> int list \<Rightarrow> int list option" where
  "add_at i x s = do { v \<leftarrow> vec_at s i; v \<leftarrow> i64 (v + x); Some (s[i := v]) }"

definition mul_add :: "nat \<Rightarrow> int \<Rightarrow> int \<Rightarrow> int list \<Rightarrow> int list option" where
  "mul_add i x m s = do { p \<leftarrow> i64 (x * m); add_at i p s }"

definition mul_sub :: "nat \<Rightarrow> int \<Rightarrow> int \<Rightarrow> int list \<Rightarrow> int list option" where
  "mul_sub i x m s = do { p \<leftarrow> i64 (x * m); add_at i (- p) s }"

text \<open>\<open>carry = (s_i + r) >> n; s_(i+1) += carry; s_i -= carry << n\<close>.\<close>

definition carry_limb :: "nat \<Rightarrow> int \<Rightarrow> nat \<Rightarrow> int list \<Rightarrow> int list option" where
  "carry_limb n r i s = do {
     v \<leftarrow> vec_at s i;
     t \<leftarrow> i64 (v + r);
     let carry = t div 2 ^ n;
     s \<leftarrow> add_at (Suc i) carry s;
     c \<leftarrow> i64 (carry * 2 ^ n);
     add_at i (- c) s }"

section \<open>Value of a limb vector\<close>

definition limb_value :: "(nat \<Rightarrow> int) \<Rightarrow> int list \<Rightarrow> int" where
  "limb_value wt s = (\<Sum>i < length s. s ! i * wt i)"

lemma limb_value_Nil [simp]: "limb_value wt [] = 0"
  by (simp add: limb_value_def)

lemma limb_value_snoc: "limb_value wt (s @ [x]) = limb_value wt s + x * wt (length s)"
  by (simp add: limb_value_def nth_append)

lemma limb_value_Cons: "limb_value wt (x # s) = x * wt 0 + limb_value (\<lambda>i. wt (Suc i)) s"
  unfolding limb_value_def length_Cons sum.lessThan_Suc_shift by simp

lemma limb_value_update:
  assumes "i < length s"
  shows "limb_value wt (s[i := s ! i + x]) = limb_value wt s + x * wt i"
proof -
  have "limb_value wt (s[i := s ! i + x]) = (\<Sum>j < length s. s ! j * wt j + (if j = i then x * wt i else 0))"
    unfolding limb_value_def length_list_update
    by (rule sum.cong [OF refl]) (auto simp: nth_list_update algebra_simps)
  also have "\<dots> = limb_value wt s + x * wt i"
    using assms by (simp add: sum.distrib limb_value_def)
  finally show ?thesis .
qed

lemma add_at_value:
  assumes "add_at i x s = Some s'"
  shows "limb_value wt s' = limb_value wt s + x * wt i" "length s' = length s"
proof -
  have i: "i < length s" using assms by (auto simp: add_at_def vec_at_def bind_eq_Some_conv split: if_splits)
  then have s': "s' = s[i := s ! i + x]"
    using assms by (auto simp: add_at_def i64_def split: if_splits)
  then show "limb_value wt s' = limb_value wt s + x * wt i" using limb_value_update [OF i] by simp
  show "length s' = length s" using s' by simp
qed

lemma mul_add_value:
  assumes "mul_add i x m s = Some s'"
  shows "limb_value wt s' = limb_value wt s + x * m * wt i" "length s' = length s"
  using assms add_at_value [of i "x * m" s s'] by (auto simp: mul_add_def i64_def split: if_splits)

lemma mul_sub_value:
  assumes "mul_sub i x m s = Some s'"
  shows "limb_value wt s' = limb_value wt s - x * m * wt i" "length s' = length s"
  using assms add_at_value [of i "- (x * m)" s s'] by (auto simp: mul_sub_def i64_def split: if_splits)

text \<open>A positional system: the weight of a limb is its own width above the one before.\<close>

locale positional =
  fixes width :: "nat \<Rightarrow> nat" and wt :: "nat \<Rightarrow> int"
  assumes wt_0: "wt 0 = 1" and wt_Suc: "wt (Suc i) = 2 ^ width i * wt i"
begin

lemma carry_value:
  assumes "carry_limb (width i) r i s = Some s'"
  shows "limb_value wt s' = limb_value wt s" "length s' = length s"
proof -
  obtain c s1 where c: "add_at (Suc i) c s = Some s1" "add_at i (- (c * 2 ^ width i)) s1 = Some s'"
    using assms by (auto simp: carry_limb_def i64_def Let_def bind_eq_Some_conv split: if_splits)
  note v1 = add_at_value [OF c(1)] and v2 = add_at_value [OF c(2)]
  show "limb_value wt s' = limb_value wt s" using v1(1) [of wt] v2(1) [of wt] by (simp add: wt_Suc)
  show "length s' = length s" using v1(2) v2(2) by simp
qed

lemma carries_value:
  assumes "ofold (\<lambda>i. carry_limb (width i) (r i) i) is s = Some s'"
  shows "limb_value wt s' = limb_value wt s" "length s' = length s"
proof -
  have "limb_value wt s' = limb_value wt s \<and> length s' = length s"
    using assms
    by (rule ofold_invariant [where I = "\<lambda>t. limb_value wt t = limb_value wt s \<and> length t = length s"])
      (auto dest: carry_value)
  then show "limb_value wt s' = limb_value wt s" "length s' = length s" by simp_all
qed

lemma wt_pos: "0 < wt i"
  by (induction i) (simp_all add: wt_0 wt_Suc)

text \<open>Limbs in their canonical ranges are digits: the value is a number below the next weight.\<close>

lemma digits_bound:
  assumes "\<And>i. i < length s \<Longrightarrow> 0 \<le> s ! i \<and> s ! i < 2 ^ width i"
  shows "0 \<le> limb_value wt s \<and> limb_value wt s < wt (length s)"
  using assms
proof (induction s rule: rev_induct)
  case (snoc x s)
  have s: "0 \<le> s ! i \<and> s ! i < 2 ^ width i" if "i < length s" for i
    using snoc.prems [of i] that by (simp add: nth_append)
  have x: "0 \<le> x" "x \<le> 2 ^ width (length s) - 1" using snoc.prems [of "length s"] by auto
  have "x * wt (length s) \<le> (2 ^ width (length s) - 1) * wt (length s)"
    using x wt_pos [of "length s"] by (intro mult_right_mono) auto
  moreover have "0 \<le> x * wt (length s)" using x wt_pos [of "length s"] by simp
  ultimately show ?case
    using snoc.IH [OF s] by (auto simp: limb_value_snoc wt_Suc algebra_simps)
qed (simp add: wt_0)

end

section \<open>Intervals\<close>

type_synonym bnd = "int \<times> int"

definition in_bnd :: "bnd \<Rightarrow> int \<Rightarrow> bool" where
  "in_bnd b x \<longleftrightarrow> fst b \<le> x \<and> x \<le> snd b"

definition within :: "bnd list \<Rightarrow> int list \<Rightarrow> bool" where
  "within B s \<longleftrightarrow> list_all2 in_bnd B s"

definition fits64 :: "bnd \<Rightarrow> bool" where
  "fits64 b \<longleftrightarrow> - 9223372036854775808 \<le> fst b \<and> snd b \<le> 9223372036854775807"

definition b_add :: "nat \<Rightarrow> bnd \<Rightarrow> bnd list \<Rightarrow> bnd list option" where
  "b_add i x B = do {
     b \<leftarrow> vec_at B i;
     let b = (fst b + fst x, snd b + snd x);
     if fits64 b then Some (B[i := b]) else None }"

definition b_mul_add :: "nat \<Rightarrow> bnd \<Rightarrow> int \<Rightarrow> bnd list \<Rightarrow> bnd list option" where
  "b_mul_add i x m B =
     (let p = (fst x * m, snd x * m) in if fits64 p then b_add i p B else None)"

definition b_mul_sub :: "nat \<Rightarrow> bnd \<Rightarrow> int \<Rightarrow> bnd list \<Rightarrow> bnd list option" where
  "b_mul_sub i x m B =
     (let p = (fst x * m, snd x * m) in if fits64 p then b_add i (- snd p, - fst p) B else None)"

definition b_carry :: "nat \<Rightarrow> int \<Rightarrow> nat \<Rightarrow> bnd list \<Rightarrow> bnd list option" where
  "b_carry n r i B = do {
     b \<leftarrow> vec_at B i;
     let t = (fst b + r, snd b + r);
     if fits64 t then do {
       let c = (fst t div 2 ^ n, snd t div 2 ^ n);
       B \<leftarrow> b_add (Suc i) c B;
       if fits64 (fst c * 2 ^ n, snd c * 2 ^ n) \<and> fits64 (- r, 2 ^ n - 1 - r)
       then Some (B[i := (- r, 2 ^ n - 1 - r)]) else None }
     else None }"

lemma within_length: "within B s \<Longrightarrow> length s = length B"
  by (simp add: within_def list_all2_lengthD)

lemma within_nth: "within B s \<Longrightarrow> i < length B \<Longrightarrow> in_bnd (B ! i) (s ! i)"
  by (simp add: within_def list_all2_nthD)

lemma within_update: "within B s \<Longrightarrow> in_bnd b x \<Longrightarrow> within (B[i := b]) (s[i := x])"
  unfolding within_def by (rule list_all2_update_cong)

lemma within_snoc: "within (B @ [b]) (s @ [x]) \<longleftrightarrow> within B s \<and> in_bnd b x"
  unfolding within_def by (subst list_all2_rev [symmetric]) (simp add: conj_commute)

lemma fits64_i64: "fits64 b \<Longrightarrow> in_bnd b x \<Longrightarrow> i64 x = Some x"
  by (auto simp: fits64_def in_bnd_def i64_def)

lemma vec_at_eq_Some: "vec_at xs i = Some x \<longleftrightarrow> i < length xs \<and> x = xs ! i"
  by (auto simp: vec_at_def)

lemma b_add_sound:
  assumes "within B s" "in_bnd bx x" "b_add i bx B = Some B'"
  shows "\<exists>s'. add_at i x s = Some s' \<and> within B' s'"
proof -
  have i: "i < length B" and B': "B' = B[i := (fst (B ! i) + fst bx, snd (B ! i) + snd bx)]"
    and f: "fits64 (fst (B ! i) + fst bx, snd (B ! i) + snd bx)"
    using assms(3) by (auto simp: b_add_def Let_def bind_eq_Some_conv vec_at_eq_Some split: if_splits)
  have b: "in_bnd (fst (B ! i) + fst bx, snd (B ! i) + snd bx) (s ! i + x)"
    using within_nth [OF assms(1) i] assms(2) by (auto simp: in_bnd_def)
  then have "add_at i x s = Some (s[i := s ! i + x])"
    using i within_length [OF assms(1)] fits64_i64 [OF f b] by (simp add: add_at_def)
  then show ?thesis using within_update [OF assms(1) b, of i] B' by simp
qed

lemma b_scale: "in_bnd bx x \<Longrightarrow> 0 \<le> m \<Longrightarrow> in_bnd (fst bx * m, snd bx * m) (x * m)"
  by (simp add: in_bnd_def mult_right_mono)

lemma b_mul_add_sound:
  assumes "within B s" "in_bnd bx x" "0 \<le> m" "b_mul_add i bx m B = Some B'"
  shows "\<exists>s'. mul_add i x m s = Some s' \<and> within B' s'"
  using b_add_sound [OF assms(1) b_scale [OF assms(2,3)]] fits64_i64 [OF _ b_scale [OF assms(2,3)]] assms(4)
  by (auto simp: b_mul_add_def mul_add_def Let_def split: if_splits)

lemma b_mul_sub_sound:
  assumes "within B s" "in_bnd bx x" "0 \<le> m" "b_mul_sub i bx m B = Some B'"
  shows "\<exists>s'. mul_sub i x m s = Some s' \<and> within B' s'"
proof -
  have n: "in_bnd (- (snd bx * m), - (fst bx * m)) (- (x * m))"
    using b_scale [OF assms(2,3)] by (simp add: in_bnd_def)
  show ?thesis
    using b_add_sound [OF assms(1) n] fits64_i64 [OF _ b_scale [OF assms(2,3)]] assms(4)
    by (auto simp: b_mul_sub_def mul_sub_def Let_def split: if_splits)
qed

lemma carry_remainder:
  fixes x r :: int
  shows "- r \<le> x - (x + r) div 2 ^ n * 2 ^ n" "x - (x + r) div 2 ^ n * 2 ^ n \<le> 2 ^ n - 1 - r"
proof -
  have "x - (x + r) div 2 ^ n * 2 ^ n = (x + r) mod 2 ^ n - r"
    using div_mult_mod_eq [of "x + r" "2 ^ n"] by linarith
  moreover have "0 \<le> (x + r) mod 2 ^ n" "(x + r) mod 2 ^ n < 2 ^ n" by simp_all
  ultimately show "- r \<le> x - (x + r) div 2 ^ n * 2 ^ n" "x - (x + r) div 2 ^ n * 2 ^ n \<le> 2 ^ n - 1 - r"
    by linarith+
qed

lemma b_carry_sound:
  assumes w: "within B s" and b: "b_carry n r i B = Some B'"
  shows "\<exists>s'. carry_limb n r i s = Some s' \<and> within B' s'"
proof -
  define t where "t = (fst (B ! i) + r, snd (B ! i) + r)"
  define c where "c = (fst t div 2 ^ n, snd t div 2 ^ n)"
  obtain B1 where i: "i < length B" and f: "fits64 t" "b_add (Suc i) c B = Some B1" "fits64 (fst c * 2 ^ n, snd c * 2 ^ n)"
      "fits64 (- r, 2 ^ n - 1 - r)" "B' = B1[i := (- r, 2 ^ n - 1 - r)]"
    using b by (auto simp: b_carry_def t_def c_def Let_def bind_eq_Some_conv vec_at_eq_Some split: if_splits)
  let ?x = "s ! i" and ?c = "(s ! i + r) div 2 ^ n"
  have x: "in_bnd t (?x + r)" using within_nth [OF w i] by (simp add: t_def in_bnd_def)
  have c: "in_bnd c ?c" using x by (simp add: in_bnd_def c_def zdiv_mono1)
  have cn: "in_bnd (fst c * 2 ^ n, snd c * 2 ^ n) (?c * 2 ^ n)" using c by (simp add: in_bnd_def mult_right_mono)
  obtain s1 where s1: "add_at (Suc i) ?c s = Some s1" "within B1 s1" using b_add_sound [OF w c f(2)] by blast
  have l: "length s = length B" "length s1 = length s" using within_length [OF w] add_at_value(2) [OF s1(1)] by simp_all
  have s1i: "s1 ! i = ?x"
    using s1(1) l by (auto simp: add_at_def bind_eq_Some_conv vec_at_eq_Some)
  have r: "in_bnd (- r, 2 ^ n - 1 - r) (?x + - (?c * 2 ^ n))"
    using carry_remainder [where r = r and x = ?x and n = n] unfolding in_bnd_def fst_conv snd_conv by linarith
  have "add_at i (- (?c * 2 ^ n)) s1 = Some (s1[i := ?x + - (?c * 2 ^ n)])"
    using i l s1i fits64_i64 [OF f(4) r] by (simp add: add_at_def)
  then have "carry_limb n r i s = Some (s1[i := ?x + - (?c * 2 ^ n)])"
    using i l fits64_i64 [OF f(1) x] fits64_i64 [OF f(3) cn] s1(1) by (simp add: carry_limb_def Let_def)
  then show ?thesis using within_update [OF s1(2) r, of i] f(5) by simp
qed

lemma ofold_sound:
  assumes "within B s" "ofold bf xs B = Some B'"
    and "\<And>x B s B'. x \<in> set xs \<Longrightarrow> within B s \<Longrightarrow> bf x B = Some B' \<Longrightarrow> \<exists>s'. f x s = Some s' \<and> within B' s'"
  shows "\<exists>s'. ofold f xs s = Some s' \<and> within B' s'"
  using assms
proof (induction xs arbitrary: B s)
  case (Cons x xs)
  obtain B1 where B1: "bf x B = Some B1" "ofold bf xs B1 = Some B'"
    using Cons.prems(2) by (auto simp: bind_eq_Some_conv)
  obtain s1 where s1: "f x s = Some s1" "within B1 s1" using Cons.prems(3) [OF _ Cons.prems(1) B1(1)] by auto
  obtain s' where "ofold f xs s1 = Some s'" "within B' s'"
    using Cons.IH [OF s1(2) B1(2)] Cons.prems(3) by (meson list.set_intros(2))
  then show ?case using s1(1) by auto
qed simp

lemma carries_sound:
  assumes "within B s" "ofold (\<lambda>i. b_carry (width i) (r i) i) is B = Some B'"
  shows "\<exists>s'. ofold (\<lambda>i. carry_limb (width i) (r i) i) is s = Some s' \<and> within B' s'"
  by (rule ofold_sound [OF assms]) (rule b_carry_sound)

lemma within_value:
  assumes "within B s" "\<And>i. 0 < wt i"
  shows "limb_value wt (map fst B) \<le> limb_value wt s" "limb_value wt s \<le> limb_value wt (map snd B)"
proof -
  have l: "length s = length B" by (rule within_length [OF assms(1)])
  have b: "fst (B ! i) \<le> s ! i \<and> s ! i \<le> snd (B ! i)" if "i < length B" for i
    using within_nth [OF assms(1) that] by (simp add: in_bnd_def)
  show "limb_value wt (map fst B) \<le> limb_value wt s" "limb_value wt s \<le> limb_value wt (map snd B)"
    unfolding limb_value_def length_map l using b assms(2) by (auto intro!: sum_mono mult_right_mono simp: less_imp_le)
qed

text \<open>Sums of products.\<close>

lemma sum64_bounded:
  assumes "\<forall>x \<in> set xs. \<bar>x\<bar> \<le> b" "int (length xs) * b < 2 ^ 63" "0 \<le> b"
  shows "sum64 xs = Some (sum_list xs)" "\<bar>sum_list xs\<bar> \<le> int (length xs) * b"
proof -
  have "ofold (\<lambda>x acc. do { x \<leftarrow> i64 x; i64 (acc + x) }) xs a = Some (a + sum_list xs) \<and> \<bar>a + sum_list xs\<bar> \<le> \<bar>a\<bar> + int (length xs) * b"
    if "\<bar>a\<bar> + int (length xs) * b < 2 ^ 63" for a
    using assms(1) that
  proof (induction xs arbitrary: a)
    case (Cons x xs)
    have x: "\<bar>x\<bar> \<le> b" using Cons.prems(1) by simp
    have nn: "0 \<le> int (length xs) * b" using assms(3) by simp
    have ax: "\<bar>a + x\<bar> + int (length xs) * b \<le> \<bar>a\<bar> + int (length (x # xs)) * b"
      using x by (simp add: algebra_simps)
    have lt: "\<bar>a + x\<bar> + int (length xs) * b < 2 ^ 63" using ax Cons.prems(2) by linarith
    have "int (length (x # xs)) * b = b + int (length xs) * b" by (simp add: algebra_simps)
    then have xb: "\<bar>x\<bar> < 2 ^ 63" using Cons.prems(2) x nn by linarith
    have "i64 x = Some x" "i64 (a + x) = Some (a + x)" using xb lt nn by (auto simp: i64_def)
    then show ?case using Cons.IH [OF _ lt] Cons.prems(1) ax by (auto simp: add.assoc)
  qed simp
  from this [of 0] assms(2)
  show "sum64 xs = Some (sum_list xs)" "\<bar>sum_list xs\<bar> \<le> int (length xs) * b" by (simp_all add: sum64_def)
qed

end
