(* ===== verification/Scalar25519.thy ===== *)
theory Scalar25519
  imports Limb_Arith
begin

unbundle bit_operations_syntax

text \<open>
  Arithmetic of scalars modulo the group order \<open>l\<close> (\<open>sc_*\<close> of \<open>src/crypto/crypto-ops.c\<close>): a scalar is
  32 little-endian bytes, unpacked into limbs of 21 bits.  The statements the code repeats for
  every limb are written once with the limb's index as an argument.
\<close>

section \<open>Unpacking\<close>

definition load_3 :: "bytes \<Rightarrow> nat \<Rightarrow> u64 option" where
  "load_3 s k = do {
     b0 \<leftarrow> vec_at s k; b1 \<leftarrow> vec_at s (k + 1); b2 \<leftarrow> vec_at s (k + 2);
     Some ((ucast b0 OR push_bit 8 (ucast b1)) OR push_bit 16 (ucast b2)) }"

definition load_4 :: "bytes \<Rightarrow> nat \<Rightarrow> u64 option" where
  "load_4 s k = do {
     b0 \<leftarrow> vec_at s k; b1 \<leftarrow> vec_at s (k + 1); b2 \<leftarrow> vec_at s (k + 2); b3 \<leftarrow> vec_at s (k + 3);
     Some (((ucast b0 OR push_bit 8 (ucast b1)) OR push_bit 16 (ucast b2)) OR push_bit 24 (ucast b3)) }"

definition sc_load :: "bytes \<Rightarrow> int list option" where
  "sc_load s = do {
     s0 \<leftarrow> load_3 s 0; s1 \<leftarrow> load_4 s 2; s2 \<leftarrow> load_3 s 5; s3 \<leftarrow> load_4 s 7; s4 \<leftarrow> load_4 s 10; s5 \<leftarrow> load_3 s 13;
     s6 \<leftarrow> load_4 s 15; s7 \<leftarrow> load_3 s 18; s8 \<leftarrow> load_3 s 21; s9 \<leftarrow> load_4 s 23; s10 \<leftarrow> load_3 s 26; s11 \<leftarrow> load_4 s 28;
     Some [uint (2097151 AND s0), uint (2097151 AND drop_bit 5 s1), uint (2097151 AND drop_bit 2 s2),
           uint (2097151 AND drop_bit 7 s3), uint (2097151 AND drop_bit 4 s4), uint (2097151 AND drop_bit 1 s5),
           uint (2097151 AND drop_bit 6 s6), uint (2097151 AND drop_bit 3 s7), uint (2097151 AND s8),
           uint (2097151 AND drop_bit 5 s9), uint (2097151 AND drop_bit 2 s10), uint (drop_bit 7 s11)] }"

definition sc_load_64 :: "bytes \<Rightarrow> int list option" where
  "sc_load_64 s = do {
     s0 \<leftarrow> load_3 s 0; s1 \<leftarrow> load_4 s 2; s2 \<leftarrow> load_3 s 5; s3 \<leftarrow> load_4 s 7; s4 \<leftarrow> load_4 s 10; s5 \<leftarrow> load_3 s 13;
     s6 \<leftarrow> load_4 s 15; s7 \<leftarrow> load_3 s 18; s8 \<leftarrow> load_3 s 21; s9 \<leftarrow> load_4 s 23; s10 \<leftarrow> load_3 s 26; s11 \<leftarrow> load_4 s 28;
     s12 \<leftarrow> load_4 s 31; s13 \<leftarrow> load_3 s 34; s14 \<leftarrow> load_4 s 36; s15 \<leftarrow> load_3 s 39; s16 \<leftarrow> load_3 s 42; s17 \<leftarrow> load_4 s 44;
     s18 \<leftarrow> load_3 s 47; s19 \<leftarrow> load_4 s 49; s20 \<leftarrow> load_4 s 52; s21 \<leftarrow> load_3 s 55; s22 \<leftarrow> load_4 s 57; s23 \<leftarrow> load_4 s 60;
     Some [uint (2097151 AND s0), uint (2097151 AND drop_bit 5 s1), uint (2097151 AND drop_bit 2 s2),
           uint (2097151 AND drop_bit 7 s3), uint (2097151 AND drop_bit 4 s4), uint (2097151 AND drop_bit 1 s5),
           uint (2097151 AND drop_bit 6 s6), uint (2097151 AND drop_bit 3 s7), uint (2097151 AND s8),
           uint (2097151 AND drop_bit 5 s9), uint (2097151 AND drop_bit 2 s10), uint (2097151 AND drop_bit 7 s11),
           uint (2097151 AND drop_bit 4 s12), uint (2097151 AND drop_bit 1 s13), uint (2097151 AND drop_bit 6 s14),
           uint (2097151 AND drop_bit 3 s15), uint (2097151 AND s16), uint (2097151 AND drop_bit 5 s17),
           uint (2097151 AND drop_bit 2 s18), uint (2097151 AND drop_bit 7 s19), uint (2097151 AND drop_bit 4 s20),
           uint (2097151 AND drop_bit 1 s21), uint (2097151 AND drop_bit 6 s22), uint (drop_bit 3 s23)] }"

section \<open>Reduction\<close>

text \<open>
  The block of statements that removes the highest limb \<open>s_k\<close> by adding its multiples to
  \<open>s_(k-12), ..., s_(k-7)\<close>; \<open>s_k\<close> is not read again, or is set to 0.
\<close>

definition sc_fold :: "int list \<Rightarrow> int list option" where
  "sc_fold s =
     (if length s < 13 then None
      else do {
        let x = last s; let s = butlast s; let k = length s - 12;
        s \<leftarrow> mul_add k x 666643 s;
        s \<leftarrow> mul_add (k + 1) x 470296 s;
        s \<leftarrow> mul_add (k + 2) x 654183 s;
        s \<leftarrow> mul_sub (k + 3) x 997805 s;
        s \<leftarrow> mul_add (k + 4) x 136657 s;
        mul_sub (k + 5) x 683901 s })"

definition sc_folds :: "nat \<Rightarrow> int list \<Rightarrow> int list option" where
  "sc_folds n s = ofold (\<lambda>_. sc_fold) [0..<n] s"

definition sc_carry :: "nat \<Rightarrow> int list \<Rightarrow> int list option" where
  "sc_carry i = carry_limb 21 0 i"

definition sc_carry_round :: "nat \<Rightarrow> int list \<Rightarrow> int list option" where
  "sc_carry_round i = carry_limb 21 (2 ^ 20) i"

definition sc_pack :: "int list \<Rightarrow> bytes" where
  "sc_pack s = map word_of_int
     [s ! 0, s ! 0 div 2 ^ 8, (s ! 0 div 2 ^ 16) OR (s ! 1 * 2 ^ 5), s ! 1 div 2 ^ 3, s ! 1 div 2 ^ 11,
      (s ! 1 div 2 ^ 19) OR (s ! 2 * 2 ^ 2), s ! 2 div 2 ^ 6, (s ! 2 div 2 ^ 14) OR (s ! 3 * 2 ^ 7),
      s ! 3 div 2 ^ 1, s ! 3 div 2 ^ 9, (s ! 3 div 2 ^ 17) OR (s ! 4 * 2 ^ 4), s ! 4 div 2 ^ 4, s ! 4 div 2 ^ 12,
      (s ! 4 div 2 ^ 20) OR (s ! 5 * 2 ^ 1), s ! 5 div 2 ^ 7, (s ! 5 div 2 ^ 15) OR (s ! 6 * 2 ^ 6),
      s ! 6 div 2 ^ 2, s ! 6 div 2 ^ 10, (s ! 6 div 2 ^ 18) OR (s ! 7 * 2 ^ 3), s ! 7 div 2 ^ 5, s ! 7 div 2 ^ 13,
      s ! 8, s ! 8 div 2 ^ 8, (s ! 8 div 2 ^ 16) OR (s ! 9 * 2 ^ 5), s ! 9 div 2 ^ 3, s ! 9 div 2 ^ 11,
      (s ! 9 div 2 ^ 19) OR (s ! 10 * 2 ^ 2), s ! 10 div 2 ^ 6, (s ! 10 div 2 ^ 14) OR (s ! 11 * 2 ^ 7),
      s ! 11 div 2 ^ 1, s ! 11 div 2 ^ 9, s ! 11 div 2 ^ 17]"

text \<open>What every routine does once twelve limbs are left, \<open>s12\<close> starting at 0.\<close>

definition sc_finish :: "int list \<Rightarrow> bytes option" where
  "sc_finish s = do {
     s \<leftarrow> ofold sc_carry_round [0, 2, 4, 6, 8, 10, 1, 3, 5, 7, 9, 11] (s @ [0]);
     s \<leftarrow> sc_fold s;
     s \<leftarrow> ofold sc_carry [0, 1, 2, 3, 4, 5, 6, 7, 8, 9, 10, 11] (s @ [0]);
     s \<leftarrow> sc_fold s;
     s \<leftarrow> ofold sc_carry [0, 1, 2, 3, 4, 5, 6, 7, 8, 9, 10] s;
     Some (sc_pack s) }"

text \<open>What the routines with 24 limbs do before that.\<close>

definition sc_reduce_24 :: "int list \<Rightarrow> bytes option" where
  "sc_reduce_24 s = do {
     s \<leftarrow> sc_folds 6 s;
     s \<leftarrow> ofold sc_carry_round [6, 8, 10, 12, 14, 16, 7, 9, 11, 13, 15] s;
     s \<leftarrow> sc_folds 6 s;
     sc_finish s }"

definition sc_reduce :: "bytes \<Rightarrow> bytes option" where
  "sc_reduce s = do { s \<leftarrow> sc_load_64 s; sc_reduce_24 s }"

definition sc_reduce32 :: "bytes \<Rightarrow> bytes option" where
  "sc_reduce32 s = do { s \<leftarrow> sc_load s; sc_finish s }"

definition sc_0 :: bytes where
  "sc_0 = replicate 32 0"

definition sc_1 :: bytes where
  "sc_1 = 1 # replicate 31 0"

definition limbs_op :: "(int \<Rightarrow> int \<Rightarrow> int) \<Rightarrow> int list \<Rightarrow> int list \<Rightarrow> int list option" where
  "limbs_op f a b = those (map (\<lambda>i. i64 (f (a ! i) (b ! i))) [0..<12])"

definition sc_add :: "bytes \<Rightarrow> bytes \<Rightarrow> bytes option" where
  "sc_add a b = do { a \<leftarrow> sc_load a; b \<leftarrow> sc_load b; s \<leftarrow> limbs_op (+) a b; sc_finish s }"

definition sc_sub :: "bytes \<Rightarrow> bytes \<Rightarrow> bytes option" where
  "sc_sub a b = do { a \<leftarrow> sc_load a; b \<leftarrow> sc_load b; s \<leftarrow> limbs_op (-) a b; sc_finish s }"

text \<open>The products \<open>a_i * b_(k-i)\<close> of column \<open>k\<close>, in the order of the source.\<close>

definition column :: "int list \<Rightarrow> int list \<Rightarrow> nat \<Rightarrow> int list" where
  "column a b k = map (\<lambda>i. a ! i * b ! (k - i)) [k - 11..<min (Suc k) 12]"

definition sc_mul_limbs :: "int list \<Rightarrow> int list \<Rightarrow> int list option" where
  "sc_mul_limbs a b = those (map (\<lambda>k. sum64 (column a b k)) [0..<23])"

definition sc_muladd_limbs :: "int list \<Rightarrow> int list \<Rightarrow> int list \<Rightarrow> int list option" where
  "sc_muladd_limbs a b c = those (map (\<lambda>k. do { p \<leftarrow> sum64 (column a b k); i64 (if k < 12 then c ! k + p else p) }) [0..<23])"

definition sc_mulsub_limbs :: "int list \<Rightarrow> int list \<Rightarrow> int list \<Rightarrow> int list option" where
  "sc_mulsub_limbs a b c = those (map (\<lambda>k. do { p \<leftarrow> sum64 (column a b k); i64 (if k < 12 then c ! k - p else - p) }) [0..<23])"

definition sc_reduce_columns :: "int list \<Rightarrow> bytes option" where
  "sc_reduce_columns s = do {
     s \<leftarrow> ofold sc_carry_round [0, 2, 4, 6, 8, 10, 12, 14, 16, 18, 20, 22, 1, 3, 5, 7, 9, 11, 13, 15, 17, 19, 21] (s @ [0]);
     sc_reduce_24 s }"

definition sc_mul :: "bytes \<Rightarrow> bytes \<Rightarrow> bytes option" where
  "sc_mul a b = do { a \<leftarrow> sc_load a; b \<leftarrow> sc_load b; s \<leftarrow> sc_mul_limbs a b; sc_reduce_columns s }"

definition sc_muladd :: "bytes \<Rightarrow> bytes \<Rightarrow> bytes \<Rightarrow> bytes option" where
  "sc_muladd a b c = do {
     a \<leftarrow> sc_load a; b \<leftarrow> sc_load b; c \<leftarrow> sc_load c; s \<leftarrow> sc_muladd_limbs a b c; sc_reduce_columns s }"

definition sc_mulsub :: "bytes \<Rightarrow> bytes \<Rightarrow> bytes \<Rightarrow> bytes option" where
  "sc_mulsub a b c = do {
     a \<leftarrow> sc_load a; b \<leftarrow> sc_load b; c \<leftarrow> sc_load c; s \<leftarrow> sc_mulsub_limbs a b c; sc_reduce_columns s }"

definition signum :: "int \<Rightarrow> int" where
  "signum a = (if a > 0 then 1 else if a < 0 then - 1 else 0)"

definition signed_lshift :: "int \<Rightarrow> nat \<Rightarrow> int option" where
  "signed_lshift a b = i64 (a * 2 ^ b)"

definition sc_check :: "bytes \<Rightarrow> int option" where
  "sc_check s = do {
     s0 \<leftarrow> load_4 s 0; s1 \<leftarrow> load_4 s 4; s2 \<leftarrow> load_4 s 8; s3 \<leftarrow> load_4 s 12;
     s4 \<leftarrow> load_4 s 16; s5 \<leftarrow> load_4 s 20; s6 \<leftarrow> load_4 s 24; s7 \<leftarrow> load_4 s 28;
     d0 \<leftarrow> i64 (1559614444 - uint s0); d1 \<leftarrow> i64 (1477600026 - uint s1); d2 \<leftarrow> i64 (2734136534 - uint s2);
     d3 \<leftarrow> i64 (350157278 - uint s3); d4 \<leftarrow> i64 (- uint s4); d5 \<leftarrow> i64 (- uint s5); d6 \<leftarrow> i64 (- uint s6);
     d7 \<leftarrow> i64 (268435456 - uint s7);
     t1 \<leftarrow> signed_lshift (signum d1) 1; t2 \<leftarrow> signed_lshift (signum d2) 2; t3 \<leftarrow> signed_lshift (signum d3) 3;
     t4 \<leftarrow> signed_lshift (signum d4) 4; t5 \<leftarrow> signed_lshift (signum d5) 5; t6 \<leftarrow> signed_lshift (signum d6) 6;
     t7 \<leftarrow> signed_lshift (signum d7) 7;
     t \<leftarrow> sum64 [signum d0, t1, t2, t3, t4, t5, t6, t7];
     Some (if 0 > t then - 1 else 0) }"

definition sc_isnonzero :: "bytes \<Rightarrow> int" where
  "sc_isnonzero s = (uint (foldr (OR) (take 32 s) 0) - 1) div 2 ^ 8 + 1"

text \<open>Secret keys at rest (\<open>cryptonote_format_utils.cpp\<close>); the slow hash of the passphrase is an argument.\<close>

definition encrypt_key :: "('p \<Rightarrow> bytes) \<Rightarrow> bytes \<Rightarrow> 'p \<Rightarrow> bytes option" where
  "encrypt_key cn_slow_hash key passphrase = (let hash = cn_slow_hash passphrase in sc_add key hash)"

definition decrypt_key :: "('p \<Rightarrow> bytes) \<Rightarrow> bytes \<Rightarrow> 'p \<Rightarrow> bytes option" where
  "decrypt_key cn_slow_hash key passphrase = (let hash = cn_slow_hash passphrase in sc_sub key hash)"

section \<open>The order and the weights\<close>

definition sc_l :: int where
  "sc_l = 2 ^ 252 + 27742317777372353535851937790883648493"

definition wt21 :: "nat \<Rightarrow> int" where
  "wt21 i = 2 ^ (21 * i)"

interpretation sc: positional "\<lambda>_. 21" wt21
  by unfold_locales (simp_all add: wt21_def power_add)

abbreviation sc_value :: "int list \<Rightarrow> int" where
  "sc_value \<equiv> limb_value wt21"

lemma sc_fold_value:
  assumes "sc_fold s = Some s'"
  shows "sc_value s' = sc_value s - last s * wt21 (length s - 13) * sc_l" "length s' = length s - 1" "13 \<le> length s"
proof -
  let ?x = "last s" and ?k = "length s - 13"
  have len: "13 \<le> length s" using assms by (auto simp: sc_fold_def split: if_splits)
  obtain s1 s2 s3 s4 s5 where st: "mul_add ?k ?x 666643 (butlast s) = Some s1" "mul_add (?k + 1) ?x 470296 s1 = Some s2"
      "mul_add (?k + 2) ?x 654183 s2 = Some s3" "mul_sub (?k + 3) ?x 997805 s3 = Some s4"
      "mul_add (?k + 4) ?x 136657 s4 = Some s5" "mul_sub (?k + 5) ?x 683901 s5 = Some s'"
    using assms len by (auto simp: sc_fold_def Let_def bind_eq_Some_conv)
  note v = mul_add_value [OF st(1)] mul_add_value [OF st(2)] mul_add_value [OF st(3)] mul_sub_value [OF st(4)]
    mul_add_value [OF st(5)] mul_sub_value [OF st(6)]
  have s: "s = butlast s @ [?x]" using len by (cases s rule: rev_cases) auto
  have "sc_value s = sc_value (butlast s) + ?x * wt21 (length s - 1)"
    by (subst s) (simp add: limb_value_snoc)
  moreover have "wt21 (length s - 1) = 2 ^ 252 * wt21 ?k"
  proof -
    have "21 * (length s - 1) = 252 + 21 * ?k" using len by simp
    then show ?thesis by (simp only: wt21_def power_add)
  qed
  moreover have w: "wt21 (?k + j) = 2 ^ (21 * j) * wt21 ?k" for j
    by (simp add: wt21_def power_add)
  have "sc_value s' = sc_value (butlast s) + ?x * 666643 * wt21 ?k + ?x * 470296 * wt21 (?k + 1)
      + ?x * 654183 * wt21 (?k + 2) - ?x * 997805 * wt21 (?k + 3) + ?x * 136657 * wt21 (?k + 4)
      - ?x * 683901 * wt21 (?k + 5)"
    using v(1,3,5,7,9,11) [of wt21] by simp
  ultimately show "sc_value s' = sc_value s - ?x * wt21 ?k * sc_l"
    unfolding w by (simp add: sc_l_def algebra_simps)
  show "length s' = length s - 1" "13 \<le> length s" using v len by simp_all
qed


definition b_fold :: "bnd list \<Rightarrow> bnd list option" where
  "b_fold B =
     (if length B < 13 then None
      else do {
        let x = last B; let B = butlast B; let k = length B - 12;
        B \<leftarrow> b_mul_add k x 666643 B;
        B \<leftarrow> b_mul_add (k + 1) x 470296 B;
        B \<leftarrow> b_mul_add (k + 2) x 654183 B;
        B \<leftarrow> b_mul_sub (k + 3) x 997805 B;
        B \<leftarrow> b_mul_add (k + 4) x 136657 B;
        b_mul_sub (k + 5) x 683901 B })"

lemma b_fold_sound:
  assumes w: "within B s" and b: "b_fold B = Some B'"
  shows "\<exists>s'. sc_fold s = Some s' \<and> within B' s'"
proof -
  have len: "13 \<le> length B" "length s = length B"
    using b within_length [OF w] by (auto simp: b_fold_def split: if_splits)
  have s: "s = butlast s @ [last s]" "B = butlast B @ [last B]" using len by (cases s rule: rev_cases; cases B rule: rev_cases; auto)+
  have x: "in_bnd (last B) (last s)" and w0: "within (butlast B) (butlast s)"
    using w s within_snoc [of "butlast B" "last B" "butlast s" "last s"] by metis+
  let ?x = "last B" and ?k = "length B - 13"
  obtain B1 B2 B3 B4 B5 where st: "b_mul_add ?k ?x 666643 (butlast B) = Some B1" "b_mul_add (?k + 1) ?x 470296 B1 = Some B2"
      "b_mul_add (?k + 2) ?x 654183 B2 = Some B3" "b_mul_sub (?k + 3) ?x 997805 B3 = Some B4"
      "b_mul_add (?k + 4) ?x 136657 B4 = Some B5" "b_mul_sub (?k + 5) ?x 683901 B5 = Some B'"
    using b len by (auto simp: b_fold_def Let_def bind_eq_Some_conv)
  obtain s1 where s1: "mul_add ?k (last s) 666643 (butlast s) = Some s1" "within B1 s1" using b_mul_add_sound [OF w0 x _ st(1)] by auto
  obtain s2 where s2: "mul_add (?k + 1) (last s) 470296 s1 = Some s2" "within B2 s2" using b_mul_add_sound [OF s1(2) x _ st(2)] by auto
  obtain s3 where s3: "mul_add (?k + 2) (last s) 654183 s2 = Some s3" "within B3 s3" using b_mul_add_sound [OF s2(2) x _ st(3)] by auto
  obtain s4 where s4: "mul_sub (?k + 3) (last s) 997805 s3 = Some s4" "within B4 s4" using b_mul_sub_sound [OF s3(2) x _ st(4)] by auto
  obtain s5 where s5: "mul_add (?k + 4) (last s) 136657 s4 = Some s5" "within B5 s5" using b_mul_add_sound [OF s4(2) x _ st(5)] by auto
  obtain s6 where "mul_sub (?k + 5) (last s) 683901 s5 = Some s6" "within B' s6" using b_mul_sub_sound [OF s5(2) x _ st(6)] by auto
  then show ?thesis using s1(1) s2(1) s3(1) s4(1) s5(1) len by (simp add: sc_fold_def Let_def)
qed

definition limb60 :: bnd where "limb60 = (- (2 ^ 60), 2 ^ 60)"

text \<open>The bounds at the three stages of \<open>sc_finish\<close>, computed by the interval analysis.\<close>

definition finish_bounds :: "bnd list" where
  "finish_bounds =
  [(- 366491039795249152, 366491039795249151), (- 258548083534594048, 258548083534594047),
   (- 359641628843966464, 359641628843966463), (- 548549361446158336, 548549361446158335),
   (- 75128565839429632, 75128565839429631), (- 375978730155409408, 375978730155409407),
   (- 549757124608, 549757124607), (- 1048576, 1048575), (- 549757124608, 549757124607), (- 1048576, 1048575),
   (- 549757124608, 549757124607), (- 1048576, 1048575)]"

lemma b_finish_round:
  "do { B \<leftarrow> ofold (b_carry 21 (2 ^ 20)) [0, 2, 4, 6, 8, 10, 1, 3, 5, 7, 9, 11] (replicate 12 limb60 @ [(0, 0)]); b_fold B }
   = Some finish_bounds"
  by code_simp

lemma b_finish_floor:
  "ofold (b_carry 21 0) [0, 1, 2, 3, 4, 5, 6, 7, 8, 9, 10, 11] (finish_bounds @ [(0, 0)])
   = Some (replicate 12 (0, 2097151) @ [(- 1, 0)])"
  by code_simp

lemma b_finish_last:
  "do { B \<leftarrow> b_fold (replicate 12 (0, 2097151) @ [(- 1, 0)]); ofold (b_carry 21 0) [0, 1, 2, 3, 4, 5, 6, 7, 8, 9, 10] B }
   = Some (replicate 11 (0, 2097151) @ [(- 1, 2097152)])"
  by code_simp

lemma within_replicate_snoc:
  assumes "within (replicate n b @ [c]) s"
  shows "length s = Suc n" "\<forall>i < n. in_bnd b (s ! i)" "in_bnd c (s ! n)" "s = butlast s @ [s ! n]"
proof -
  show l: "length s = Suc n" using within_length [OF assms] by simp
  have "in_bnd ((replicate n b @ [c]) ! i) (s ! i)" if "i < Suc n" for i using within_nth [OF assms, of i] that by simp
  note nth = this
  show "in_bnd c (s ! n)" using nth [of n] by (simp add: nth_append)
  show "\<forall>i < n. in_bnd b (s ! i)"
  proof (intro allI impI)
    fix i assume "i < n"
    then show "in_bnd b (s ! i)" using nth [of i] by (simp add: nth_append)
  qed
  show "s = butlast s @ [s ! n]" using l by (cases s rule: rev_cases) auto
qed

lemma digits_split:
  assumes "within (replicate n (0, 2097151) @ [c]) s"
  shows "\<exists>r. sc_value s = r + s ! n * wt21 n \<and> 0 \<le> r \<and> r < wt21 n"
proof -
  note d = within_replicate_snoc [OF assms]
  have "0 \<le> butlast s ! i \<and> butlast s ! i < 2 ^ 21" if "i < length (butlast s)" for i
    using d(1,2) that by (auto simp: in_bnd_def nth_butlast)
  then have b: "0 \<le> sc_value (butlast s) \<and> sc_value (butlast s) < wt21 (length (butlast s))"
    by (rule sc.digits_bound)
  have "sc_value s = sc_value (butlast s) + s ! n * wt21 n"
    using d(1) by (subst d(4)) (simp only: limb_value_snoc, simp)
  then show ?thesis using b d(1) by (intro exI [of _ "sc_value (butlast s)"]) simp
qed

lemma sc_finish_limbs:
  assumes w: "within (replicate 12 limb60) s"
  shows "\<exists>s'. sc_finish s = Some (sc_pack s') \<and> within (replicate 11 (0, 2097151) @ [(0, 2097152)]) s'
    \<and> sc_value s' = sc_value s mod sc_l"
proof -
  have c: "sc_carry = (\<lambda>i. carry_limb 21 0 i)" "sc_carry_round = (\<lambda>i. carry_limb 21 (2 ^ 20) i)"
    by (auto simp: sc_carry_def sc_carry_round_def)
  have l: "length s = 12" using within_length [OF w] by simp
  have w0: "within (replicate 12 limb60 @ [(0, 0)]) (s @ [0])" using w by (simp add: within_snoc in_bnd_def)
  obtain B1 where B1: "ofold (b_carry 21 (2 ^ 20)) [0, 2, 4, 6, 8, 10, 1, 3, 5, 7, 9, 11] (replicate 12 limb60 @ [(0, 0)]) = Some B1"
    using b_finish_round by (auto simp: bind_eq_Some_conv simp del: ofold.simps)
  obtain s1 where s1: "ofold sc_carry_round [0, 2, 4, 6, 8, 10, 1, 3, 5, 7, 9, 11] (s @ [0]) = Some s1" "within B1 s1"
    using carries_sound [OF w0 B1] unfolding c by blast
  note B2 = b_finish_round [unfolded B1 bind.bind_lunit]
  obtain s2 where s2: "sc_fold s1 = Some s2" "within finish_bounds s2" using b_fold_sound [OF s1(2) B2] by blast
  have w2: "within (finish_bounds @ [(0, 0)]) (s2 @ [0])" using s2(2) by (simp add: within_snoc in_bnd_def)
  obtain s3 where s3: "ofold sc_carry [0, 1, 2, 3, 4, 5, 6, 7, 8, 9, 10, 11] (s2 @ [0]) = Some s3"
      "within (replicate 12 (0, 2097151) @ [(- 1, 0)]) s3"
    using carries_sound [OF w2 b_finish_floor] unfolding c by blast
  obtain B4 where B4: "b_fold (replicate 12 (0, 2097151) @ [(- 1, 0)]) = Some B4"
    using b_finish_last by (auto simp: bind_eq_Some_conv simp del: ofold.simps)
  obtain s4 where s4: "sc_fold s3 = Some s4" "within B4 s4" using b_fold_sound [OF s3(2) B4] by blast
  obtain s5 where s5: "ofold sc_carry [0, 1, 2, 3, 4, 5, 6, 7, 8, 9, 10] s4 = Some s5"
      "within (replicate 11 (0, 2097151) @ [(- 1, 2097152)]) s5"
    using carries_sound [OF s4(2) b_finish_last [unfolded B4 bind.bind_lunit]] unfolding c by blast
  have fin: "sc_finish s = Some (sc_pack s5)" unfolding sc_finish_def s1(1) bind.bind_lunit s2(1) s3(1) s4(1) s5(1) ..
  note v1 = sc.carries_value [OF s1(1) [unfolded c]] and v2 = sc_fold_value [OF s2(1)]
    and v3 = sc.carries_value [OF s3(1) [unfolded c]] and v4 = sc_fold_value [OF s4(1)]
    and v5 = sc.carries_value [OF s5(1) [unfolded c]]
  have len: "length s3 = 13" using within_length [OF s3(2)] by simp
  obtain r where r: "sc_value s3 = r + s3 ! 12 * wt21 12" "0 \<le> r" "r < wt21 12" using digits_split [OF s3(2)] by auto
  have x: "s3 ! 12 = - 1 \<or> s3 ! 12 = 0"
    using within_replicate_snoc(3) [OF s3(2)] by (auto simp: in_bnd_def)
  have "last s3 = s3 ! 12" using within_replicate_snoc(4) [OF s3(2)] by (metis last_snoc)
  then have V4: "sc_value s5 = sc_value s3 - s3 ! 12 * sc_l" using v4(1) v5(1) len by (simp add: wt21_def)
  have rng: "0 \<le> sc_value s5" "sc_value s5 < sc_l"
    using x r V4 by (auto simp: wt21_def sc_l_def)
  have "sc_value s = sc_value (s @ [0])" by (simp add: limb_value_snoc)
  moreover have "sc_value (s2 @ [0]) = sc_value s2" by (simp add: limb_value_snoc)
  ultimately obtain q where "sc_value s3 = sc_value s - q * sc_l" using v1(1) v2(1) v3(1) by metis
  then have "sc_value s = sc_value s5 + (q + s3 ! 12) * sc_l" using V4 by (simp add: algebra_simps)
  then have val: "sc_value s5 = sc_value s mod sc_l"
    using mod_pos_pos_trivial [OF rng] by (simp only: mod_mult_self1)
  obtain r' where r': "sc_value s5 = r' + s5 ! 11 * wt21 11" "r' < wt21 11" using digits_split [OF s5(2)] by auto
  have "- 1 \<le> s5 ! 11" using within_replicate_snoc(3) [OF s5(2)] by (simp add: in_bnd_def)
  moreover have "s5 ! 11 \<noteq> - 1" using r' rng(1) by auto
  ultimately have "0 \<le> s5 ! 11" by linarith
  then have "within (replicate 11 (0, 2097151) @ [(0, 2097152)]) s5"
    using s5(2) within_replicate_snoc [OF s5(2)] within_snoc [of "replicate 11 (0, 2097151)" _ "butlast s5" "s5 ! 11"]
    by (metis in_bnd_def fst_conv snd_conv)
  then show ?thesis using fin val by blast
qed


lemma within_weaken:
  assumes "within B s" "list_all (\<lambda>b. fst c \<le> fst b \<and> snd b \<le> snd c) B"
  shows "within (replicate (length B) c) s"
proof -
  have "in_bnd c (s ! i)" if "i < length B" for i
    using within_nth [OF assms(1) that] assms(2) that by (auto simp: in_bnd_def list_all_length intro: order_trans)
  then show ?thesis using within_length [OF assms(1)] by (simp add: within_def list_all2_conv_all_nth)
qed

lemma sc_folds_sound:
  assumes "within B s" "ofold (\<lambda>_. b_fold) [0..<n] B = Some B'"
  shows "\<exists>s'. sc_folds n s = Some s' \<and> within B' s'"
  unfolding sc_folds_def by (rule ofold_sound [OF assms]) (rule b_fold_sound)

lemma sc_fold_mod: "sc_fold s = Some s' \<Longrightarrow> sc_value s' mod sc_l = sc_value s mod sc_l"
  using sc_fold_value(1) [of s s'] mod_mult_self1 [of "sc_value s" "- (last s * wt21 (length s - 13))" sc_l] by simp

lemma sc_folds_value: "sc_folds n s = Some s' \<Longrightarrow> sc_value s' mod sc_l = sc_value s mod sc_l"
  unfolding sc_folds_def
  by (erule ofold_invariant [where I = "\<lambda>t. sc_value t mod sc_l = sc_value s mod sc_l"])
    (auto simp: sc_fold_mod)

definition limb34 :: bnd where "limb34 = (- (2 ^ 34), 2 ^ 34)"

definition limb54 :: bnd where "limb54 = (- (2 ^ 54), 2 ^ 54)"

definition b_reduce_24 :: "bnd list option" where
  "b_reduce_24 = do {
     B \<leftarrow> ofold (\<lambda>_. b_fold) [0..<6] (replicate 24 limb34);
     B \<leftarrow> ofold (b_carry 21 (2 ^ 20)) [6, 8, 10, 12, 14, 16, 7, 9, 11, 13, 15] B;
     ofold (\<lambda>_. b_fold) [0..<6] B }"

definition b_reduce_columns :: "bnd list option" where
  "b_reduce_columns =
     ofold (b_carry 21 (2 ^ 20)) [0, 2, 4, 6, 8, 10, 12, 14, 16, 18, 20, 22, 1, 3, 5, 7, 9, 11, 13, 15, 17, 19, 21]
       (replicate 23 limb54 @ [(0, 0)])"

lemma b_reduce_24_ok:
  "case b_reduce_24 of None \<Rightarrow> False
   | Some B \<Rightarrow> length B = 12 \<and> list_all (\<lambda>b. fst limb60 \<le> fst b \<and> snd b \<le> snd limb60) B"
  by code_simp

lemma b_reduce_columns_ok:
  "case b_reduce_columns of None \<Rightarrow> False
   | Some B \<Rightarrow> length B = 24 \<and> list_all (\<lambda>b. fst limb34 \<le> fst b \<and> snd b \<le> snd limb34) B"
  by code_simp

lemma sc_carry_fun: "sc_carry = (\<lambda>i. carry_limb 21 0 i)" "sc_carry_round = (\<lambda>i. carry_limb 21 (2 ^ 20) i)"
  by (auto simp: sc_carry_def sc_carry_round_def)

lemma sc_reduce_24_limbs:
  assumes "within (replicate 24 limb34) s"
  shows "\<exists>s'. sc_reduce_24 s = Some (sc_pack s') \<and> within (replicate 11 (0, 2097151) @ [(0, 2097152)]) s'
    \<and> sc_value s' = sc_value s mod sc_l"
proof -
  obtain B1 B2 B3 where B: "ofold (\<lambda>_. b_fold) [0..<6] (replicate 24 limb34) = Some B1"
      "ofold (b_carry 21 (2 ^ 20)) [6, 8, 10, 12, 14, 16, 7, 9, 11, 13, 15] B1 = Some B2"
      "ofold (\<lambda>_. b_fold) [0..<6] B2 = Some B3"
    and B3: "length B3 = 12" "list_all (\<lambda>b. fst limb60 \<le> fst b \<and> snd b \<le> snd limb60) B3"
    using b_reduce_24_ok unfolding b_reduce_24_def by (auto simp: bind_eq_Some_conv simp del: ofold.simps upt_Suc split: option.splits)
  obtain s1 where s1: "sc_folds 6 s = Some s1" "within B1 s1" using sc_folds_sound [OF assms B(1)] by blast
  obtain s2 where s2: "ofold sc_carry_round [6, 8, 10, 12, 14, 16, 7, 9, 11, 13, 15] s1 = Some s2" "within B2 s2"
    using carries_sound [OF s1(2) B(2)] unfolding sc_carry_fun by blast
  obtain s3 where s3: "sc_folds 6 s2 = Some s3" "within B3 s3" using sc_folds_sound [OF s2(2) B(3)] by blast
  have "within (replicate 12 limb60) s3" using within_weaken [OF s3(2) B3(2)] B3(1) by simp
  then obtain s' where s': "sc_finish s3 = Some (sc_pack s')" "within (replicate 11 (0, 2097151) @ [(0, 2097152)]) s'"
      "sc_value s' = sc_value s3 mod sc_l" using sc_finish_limbs by blast
  have "sc_value s3 mod sc_l = sc_value s mod sc_l"
    using sc_folds_value [OF s1(1)] sc_folds_value [OF s3(1)] sc.carries_value(1) [OF s2(1) [unfolded sc_carry_fun]] by simp
  moreover have "sc_reduce_24 s = Some (sc_pack s')"
    unfolding sc_reduce_24_def s1(1) bind.bind_lunit s2(1) s3(1) s'(1) ..
  ultimately show ?thesis using s' by auto
qed

lemma sc_reduce_columns_limbs:
  assumes "within (replicate 23 limb54) s"
  shows "\<exists>s'. sc_reduce_columns s = Some (sc_pack s') \<and> within (replicate 11 (0, 2097151) @ [(0, 2097152)]) s'
    \<and> sc_value s' = sc_value s mod sc_l"
proof -
  obtain B where B: "b_reduce_columns = Some B"
    and B24: "length B = 24" "list_all (\<lambda>b. fst limb34 \<le> fst b \<and> snd b \<le> snd limb34) B"
    using b_reduce_columns_ok by (auto split: option.splits)
  have w: "within (replicate 23 limb54 @ [(0, 0)]) (s @ [0])" using assms by (simp add: within_snoc in_bnd_def)
  obtain s1 where s1: "ofold sc_carry_round [0, 2, 4, 6, 8, 10, 12, 14, 16, 18, 20, 22, 1, 3, 5, 7, 9, 11, 13, 15, 17, 19, 21] (s @ [0]) = Some s1"
      "within B s1"
    using carries_sound [OF w B [unfolded b_reduce_columns_def]] unfolding sc_carry_fun by blast
  have "within (replicate 24 limb34) s1" using within_weaken [OF s1(2) B24(2)] B24(1) by simp
  then obtain s' where s': "sc_reduce_24 s1 = Some (sc_pack s')" "within (replicate 11 (0, 2097151) @ [(0, 2097152)]) s'"
      "sc_value s' = sc_value s1 mod sc_l" using sc_reduce_24_limbs by blast
  have "sc_value s1 = sc_value s"
    using sc.carries_value(1) [OF s1(1) [unfolded sc_carry_fun]] by (simp add: limb_value_snoc)
  moreover have "sc_reduce_columns s = Some (sc_pack s')"
    unfolding sc_reduce_columns_def s1(1) bind.bind_lunit s'(1) ..
  ultimately show ?thesis using s' by auto
qed


section \<open>Bytes and limbs\<close>

lemma le_nat_window:
  assumes "k + n \<le> length s"
  shows "le_nat (take n (drop k s)) = le_nat s div 256 ^ k mod 256 ^ n"
proof -
  have "le_nat s = le_nat (take k s) + 256 ^ k * le_nat (drop k s)" using le_nat_split [of s k] assms by simp
  moreover have "le_nat (take k s) < 256 ^ k" using le_nat_less [of "take k s"] assms by simp
  ultimately have d: "le_nat s div 256 ^ k = le_nat (drop k s)" by simp
  have "le_nat (drop k s) = le_nat (take n (drop k s)) + 256 ^ n * le_nat (drop n (drop k s))"
    using le_nat_split [of "drop k s" n] assms by simp
  moreover have "le_nat (take n (drop k s)) < 256 ^ n" using le_nat_less [of "take n (drop k s)"] assms by simp
  ultimately show ?thesis unfolding d by simp
qed

lemma unat_or_byte:
  fixes x :: u64 and b :: u8
  assumes "unat x < 2 ^ n" "n \<le> 24"
  shows "unat (x OR push_bit n (ucast b)) = unat x + 2 ^ n * unat b"
proof -
  have "(2::nat) ^ n \<le> 2 ^ 24" using assms(2) by (intro power_increasing) simp_all
  then have "unat b * 2 ^ n \<le> 256 * 2 ^ 24" using unat_lt_u8 [of b] by (intro mult_mono) auto
  then show ?thesis using unat_or_take_push [OF assms(1), of "ucast b"] by (simp add: unat_ucast_up)
qed

lemma bytes_at:
  assumes "k + n \<le> length s"
  shows "take n (drop k s) = map (\<lambda>i. s ! (k + i)) [0..<n]"
  using assms by (intro nth_equalityI) auto

lemma load_3_value:
  assumes "k + 3 \<le> length s"
  shows "\<exists>w. load_3 s k = Some w \<and> unat w = le_nat s div 256 ^ k mod 2 ^ 24"
proof -
  have b: "unat (ucast (s ! k) :: u64) < 2 ^ 8" using unat_lt_u8 [of "s ! k"] by (simp add: unat_ucast_up)
  have w1: "unat (ucast (s ! k) OR push_bit 8 (ucast (s ! (k + 1))) :: u64) = unat (s ! k) + 256 * unat (s ! (k + 1))"
    using unat_or_byte [OF b, of "s ! (k + 1)"] by (simp add: unat_ucast_up)
  then have l1: "unat (ucast (s ! k) OR push_bit 8 (ucast (s ! (k + 1))) :: u64) < 2 ^ 16"
    using unat_lt_u8 [of "s ! k"] unat_lt_u8 [of "s ! (k + 1)"] by simp
  have "le_nat (take 3 (drop k s)) = unat (s ! k) + 256 * unat (s ! (k + 1)) + 65536 * unat (s ! (k + 2))"
    using assms by (simp add: bytes_at upt_rec)
  then show ?thesis
    using unat_or_byte [OF l1, of "s ! (k + 2)"] w1 le_nat_window [OF assms] assms by (simp add: load_3_def)
qed

lemma load_4_value:
  assumes "k + 4 \<le> length s"
  shows "\<exists>w. load_4 s k = Some w \<and> unat w = le_nat s div 256 ^ k mod 2 ^ 32"
proof -
  have b: "unat (ucast (s ! k) :: u64) < 2 ^ 8" using unat_lt_u8 [of "s ! k"] by (simp add: unat_ucast_up)
  let ?w1 = "ucast (s ! k) OR push_bit 8 (ucast (s ! (k + 1))) :: u64"
  have w1: "unat ?w1 = unat (s ! k) + 256 * unat (s ! (k + 1))"
    using unat_or_byte [OF b, of "s ! (k + 1)"] by (simp add: unat_ucast_up)
  then have l1: "unat ?w1 < 2 ^ 16" using unat_lt_u8 [of "s ! k"] unat_lt_u8 [of "s ! (k + 1)"] by simp
  let ?w2 = "?w1 OR push_bit 16 (ucast (s ! (k + 2)))"
  have w2: "unat ?w2 = unat (s ! k) + 256 * unat (s ! (k + 1)) + 65536 * unat (s ! (k + 2))"
    using unat_or_byte [OF l1, of "s ! (k + 2)"] w1 by simp
  then have l2: "unat ?w2 < 2 ^ 24"
    using unat_lt_u8 [of "s ! k"] unat_lt_u8 [of "s ! (k + 1)"] unat_lt_u8 [of "s ! (k + 2)"] by simp
  have "le_nat (take 4 (drop k s))
      = unat (s ! k) + 256 * unat (s ! (k + 1)) + 65536 * unat (s ! (k + 2)) + 16777216 * unat (s ! (k + 3))"
    using assms by (simp add: bytes_at upt_rec numeral_3_eq_3)
  then show ?thesis
    using unat_or_byte [OF l2, of "s ! (k + 3)"] w2 le_nat_window [OF assms] assms by (simp add: load_4_def)
qed

definition limb21 :: "nat \<Rightarrow> nat \<Rightarrow> int" where
  "limb21 N i = int (N div 2 ^ (21 * i) mod 2 ^ 21)"

lemma mask21:
  fixes w :: u64
  assumes "unat w = N div 256 ^ k mod 2 ^ m" "8 * k + j = 21 * i" "j + 21 \<le> m"
  shows "uint (2097151 AND drop_bit j w) = limb21 N i"
proof -
  have "(2097151 :: u64) = mask 21" by (simp add: mask_eq_exp_minus_1)
  then have "2097151 AND drop_bit j w = take_bit 21 (drop_bit j w)" by (simp add: take_bit_eq_mask and.commute)
  then have "unat (2097151 AND drop_bit j w) = N div 256 ^ k mod 2 ^ m div 2 ^ j mod 2 ^ 21"
    using assms(1) by (simp add: unat_take_bit unat_drop_bit)
  also have "\<dots> = N div 256 ^ k div 2 ^ j mod 2 ^ 21"
  proof -
    have "take_bit 21 (drop_bit j (take_bit m (N div 256 ^ k))) = take_bit 21 (drop_bit j (N div 256 ^ k))"
      using assms(3) by (simp add: drop_bit_take_bit)
    then show ?thesis by (simp add: take_bit_eq_mod drop_bit_eq_div)
  qed
  also have "(256::nat) ^ k = 2 ^ (8 * k)" by (simp add: power_mult)
  also have "N div 2 ^ (8 * k) div 2 ^ j = N div 2 ^ (21 * i)"
    unfolding assms(2) [symmetric] power_add by (simp add: div_mult2_eq)
  finally show ?thesis by (simp add: limb21_def uint_nat)
qed

lemma sc_value_limb21:
  "sc_value (map (limb21 N) [0..<n] @ [int (N div 2 ^ (21 * n))]) = int N"
proof (induction n)
  case (Suc n)
  have d: "N div 2 ^ (21 * Suc n) = N div 2 ^ (21 * n) div 2 ^ 21"
    by (simp add: power_add div_mult2_eq [symmetric] mult.commute)
  have "int (N div 2 ^ (21 * n)) = limb21 N n + int (N div 2 ^ (21 * Suc n)) * 2 ^ 21"
    unfolding limb21_def d by (simp add: zmod_int zdiv_int)
  moreover have "sc_value (map (limb21 N) [0..<Suc n] @ [x]) = sc_value (map (limb21 N) [0..<n]) + limb21 N n * wt21 n + x * wt21 (Suc n)" for x
    by (simp add: limb_value_snoc del: upt_Suc, simp add: limb_value_snoc)
  ultimately show ?case using Suc by (simp add: limb_value_snoc sc.wt_Suc algebra_simps)
qed (simp add: limb_value_def wt21_def)


lemma limb21_bounds: "0 \<le> limb21 N i" "limb21 N i \<le> 2097151"
proof -
  have "N div 2 ^ (21 * i) mod 2 ^ 21 < 2 ^ 21" by simp
  then show "0 \<le> limb21 N i" "limb21 N i \<le> 2097151" by (simp_all add: limb21_def)
qed

lemma mask21_0: "unat w = N div 256 ^ k mod 2 ^ m \<Longrightarrow> 8 * k = 21 * i \<Longrightarrow> 21 \<le> m \<Longrightarrow> uint (2097151 AND (w :: u64)) = limb21 N i"
  using mask21 [of w N k m 0 i] by simp

lemma uint_top_limb:
  fixes w :: u64
  assumes "unat w = N div 256 ^ k mod 2 ^ 32" "N < 256 ^ (k + 4)" "8 * k + j = 21 * i"
  shows "uint (drop_bit j w) = int (N div 2 ^ (21 * i))"
proof -
  have "N div 256 ^ k < 2 ^ 32" using assms(2) by (simp add: power_add less_mult_imp_div_less mult.commute)
  then have "unat (drop_bit j w) = N div 256 ^ k div 2 ^ j" using assms(1) by (simp add: unat_drop_bit)
  also have "(256::nat) ^ k = 2 ^ (8 * k)" by (simp add: power_mult)
  also have "N div 2 ^ (8 * k) div 2 ^ j = N div 2 ^ (21 * i)"
    unfolding assms(3) [symmetric] power_add by (simp add: div_mult2_eq)
  finally show ?thesis by (simp add: uint_nat)
qed

lemma sc_load_eq:
  assumes "length s = 32"
  shows "sc_load s = Some (map (limb21 (le_nat s)) [0..<11] @ [int (le_nat s div 2 ^ (21 * 11))])"
proof -
  let ?N = "le_nat s"
  have N: "?N < 256 ^ 32" using le_nat_less [of s] assms by simp
  note l3 = load_3_value [of _ s, unfolded assms] and l4 = load_4_value [of _ s, unfolded assms]
  obtain w0 where w0: "load_3 s 0 = Some w0" "unat w0 = ?N div 256 ^ 0 mod 2 ^ 24" using l3 [of 0] by auto
  obtain w1 where w1: "load_4 s 2 = Some w1" "unat w1 = ?N div 256 ^ 2 mod 2 ^ 32" using l4 [of 2] by auto
  obtain w2 where w2: "load_3 s 5 = Some w2" "unat w2 = ?N div 256 ^ 5 mod 2 ^ 24" using l3 [of 5] by auto
  obtain w3 where w3: "load_4 s 7 = Some w3" "unat w3 = ?N div 256 ^ 7 mod 2 ^ 32" using l4 [of 7] by auto
  obtain w4 where w4: "load_4 s 10 = Some w4" "unat w4 = ?N div 256 ^ 10 mod 2 ^ 32" using l4 [of 10] by auto
  obtain w5 where w5: "load_3 s 13 = Some w5" "unat w5 = ?N div 256 ^ 13 mod 2 ^ 24" using l3 [of 13] by auto
  obtain w6 where w6: "load_4 s 15 = Some w6" "unat w6 = ?N div 256 ^ 15 mod 2 ^ 32" using l4 [of 15] by auto
  obtain w7 where w7: "load_3 s 18 = Some w7" "unat w7 = ?N div 256 ^ 18 mod 2 ^ 24" using l3 [of 18] by auto
  obtain w8 where w8: "load_3 s 21 = Some w8" "unat w8 = ?N div 256 ^ 21 mod 2 ^ 24" using l3 [of 21] by auto
  obtain w9 where w9: "load_4 s 23 = Some w9" "unat w9 = ?N div 256 ^ 23 mod 2 ^ 32" using l4 [of 23] by auto
  obtain w10 where w10: "load_3 s 26 = Some w10" "unat w10 = ?N div 256 ^ 26 mod 2 ^ 24" using l3 [of 26] by auto
  obtain w11 where w11: "load_4 s 28 = Some w11" "unat w11 = ?N div 256 ^ 28 mod 2 ^ 32" using l4 [of 28] by auto
  have e0: "uint (2097151 AND w0) = limb21 ?N 0" by (rule mask21_0 [OF w0(2)]) simp_all
  have e1: "uint (2097151 AND drop_bit 5 w1) = limb21 ?N 1" by (rule mask21 [OF w1(2)]) simp_all
  have e2: "uint (2097151 AND drop_bit 2 w2) = limb21 ?N 2" by (rule mask21 [OF w2(2)]) simp_all
  have e3: "uint (2097151 AND drop_bit 7 w3) = limb21 ?N 3" by (rule mask21 [OF w3(2)]) simp_all
  have e4: "uint (2097151 AND drop_bit 4 w4) = limb21 ?N 4" by (rule mask21 [OF w4(2)]) simp_all
  have e5: "uint (2097151 AND drop_bit 1 w5) = limb21 ?N 5" by (rule mask21 [OF w5(2)]) simp_all
  have e6: "uint (2097151 AND drop_bit 6 w6) = limb21 ?N 6" by (rule mask21 [OF w6(2)]) simp_all
  have e7: "uint (2097151 AND drop_bit 3 w7) = limb21 ?N 7" by (rule mask21 [OF w7(2)]) simp_all
  have e8: "uint (2097151 AND w8) = limb21 ?N 8" by (rule mask21_0 [OF w8(2)]) simp_all
  have e9: "uint (2097151 AND drop_bit 5 w9) = limb21 ?N 9" by (rule mask21 [OF w9(2)]) simp_all
  have e10: "uint (2097151 AND drop_bit 2 w10) = limb21 ?N 10" by (rule mask21 [OF w10(2)]) simp_all
  have e11: "uint (drop_bit 7 w11) = int (?N div 2 ^ (21 * 11))" by (rule uint_top_limb [OF w11(2)]) (use N in simp_all)
  have upt: "[0..<11] = [0, 1, 2, 3, 4, 5, 6, 7, 8, 9, 10::nat]" by (simp add: upt_rec)
  show ?thesis
    unfolding sc_load_def w0(1) w1(1) w2(1) w3(1) w4(1) w5(1) w6(1) w7(1) w8(1) w9(1) w10(1) w11(1) bind.bind_lunit upt
      e0 e1 e2 e3 e4 e5 e6 e7 e8 e9 e10 e11
    by (simp only: list.map append.simps)
qed

lemma sc_load_64_eq:
  assumes "length s = 64"
  shows "sc_load_64 s = Some (map (limb21 (le_nat s)) [0..<23] @ [int (le_nat s div 2 ^ (21 * 23))])"
proof -
  let ?N = "le_nat s"
  have N: "?N < 256 ^ 64" using le_nat_less [of s] assms by simp
  note l3 = load_3_value [of _ s, unfolded assms] and l4 = load_4_value [of _ s, unfolded assms]
  obtain w0 where w0: "load_3 s 0 = Some w0" "unat w0 = ?N div 256 ^ 0 mod 2 ^ 24" using l3 [of 0] by auto
  obtain w1 where w1: "load_4 s 2 = Some w1" "unat w1 = ?N div 256 ^ 2 mod 2 ^ 32" using l4 [of 2] by auto
  obtain w2 where w2: "load_3 s 5 = Some w2" "unat w2 = ?N div 256 ^ 5 mod 2 ^ 24" using l3 [of 5] by auto
  obtain w3 where w3: "load_4 s 7 = Some w3" "unat w3 = ?N div 256 ^ 7 mod 2 ^ 32" using l4 [of 7] by auto
  obtain w4 where w4: "load_4 s 10 = Some w4" "unat w4 = ?N div 256 ^ 10 mod 2 ^ 32" using l4 [of 10] by auto
  obtain w5 where w5: "load_3 s 13 = Some w5" "unat w5 = ?N div 256 ^ 13 mod 2 ^ 24" using l3 [of 13] by auto
  obtain w6 where w6: "load_4 s 15 = Some w6" "unat w6 = ?N div 256 ^ 15 mod 2 ^ 32" using l4 [of 15] by auto
  obtain w7 where w7: "load_3 s 18 = Some w7" "unat w7 = ?N div 256 ^ 18 mod 2 ^ 24" using l3 [of 18] by auto
  obtain w8 where w8: "load_3 s 21 = Some w8" "unat w8 = ?N div 256 ^ 21 mod 2 ^ 24" using l3 [of 21] by auto
  obtain w9 where w9: "load_4 s 23 = Some w9" "unat w9 = ?N div 256 ^ 23 mod 2 ^ 32" using l4 [of 23] by auto
  obtain w10 where w10: "load_3 s 26 = Some w10" "unat w10 = ?N div 256 ^ 26 mod 2 ^ 24" using l3 [of 26] by auto
  obtain w11 where w11: "load_4 s 28 = Some w11" "unat w11 = ?N div 256 ^ 28 mod 2 ^ 32" using l4 [of 28] by auto
  obtain w12 where w12: "load_4 s 31 = Some w12" "unat w12 = ?N div 256 ^ 31 mod 2 ^ 32" using l4 [of 31] by auto
  obtain w13 where w13: "load_3 s 34 = Some w13" "unat w13 = ?N div 256 ^ 34 mod 2 ^ 24" using l3 [of 34] by auto
  obtain w14 where w14: "load_4 s 36 = Some w14" "unat w14 = ?N div 256 ^ 36 mod 2 ^ 32" using l4 [of 36] by auto
  obtain w15 where w15: "load_3 s 39 = Some w15" "unat w15 = ?N div 256 ^ 39 mod 2 ^ 24" using l3 [of 39] by auto
  obtain w16 where w16: "load_3 s 42 = Some w16" "unat w16 = ?N div 256 ^ 42 mod 2 ^ 24" using l3 [of 42] by auto
  obtain w17 where w17: "load_4 s 44 = Some w17" "unat w17 = ?N div 256 ^ 44 mod 2 ^ 32" using l4 [of 44] by auto
  obtain w18 where w18: "load_3 s 47 = Some w18" "unat w18 = ?N div 256 ^ 47 mod 2 ^ 24" using l3 [of 47] by auto
  obtain w19 where w19: "load_4 s 49 = Some w19" "unat w19 = ?N div 256 ^ 49 mod 2 ^ 32" using l4 [of 49] by auto
  obtain w20 where w20: "load_4 s 52 = Some w20" "unat w20 = ?N div 256 ^ 52 mod 2 ^ 32" using l4 [of 52] by auto
  obtain w21 where w21: "load_3 s 55 = Some w21" "unat w21 = ?N div 256 ^ 55 mod 2 ^ 24" using l3 [of 55] by auto
  obtain w22 where w22: "load_4 s 57 = Some w22" "unat w22 = ?N div 256 ^ 57 mod 2 ^ 32" using l4 [of 57] by auto
  obtain w23 where w23: "load_4 s 60 = Some w23" "unat w23 = ?N div 256 ^ 60 mod 2 ^ 32" using l4 [of 60] by auto
  have e0: "uint (2097151 AND w0) = limb21 ?N 0" by (rule mask21_0 [OF w0(2)]) simp_all
  have e1: "uint (2097151 AND drop_bit 5 w1) = limb21 ?N 1" by (rule mask21 [OF w1(2)]) simp_all
  have e2: "uint (2097151 AND drop_bit 2 w2) = limb21 ?N 2" by (rule mask21 [OF w2(2)]) simp_all
  have e3: "uint (2097151 AND drop_bit 7 w3) = limb21 ?N 3" by (rule mask21 [OF w3(2)]) simp_all
  have e4: "uint (2097151 AND drop_bit 4 w4) = limb21 ?N 4" by (rule mask21 [OF w4(2)]) simp_all
  have e5: "uint (2097151 AND drop_bit 1 w5) = limb21 ?N 5" by (rule mask21 [OF w5(2)]) simp_all
  have e6: "uint (2097151 AND drop_bit 6 w6) = limb21 ?N 6" by (rule mask21 [OF w6(2)]) simp_all
  have e7: "uint (2097151 AND drop_bit 3 w7) = limb21 ?N 7" by (rule mask21 [OF w7(2)]) simp_all
  have e8: "uint (2097151 AND w8) = limb21 ?N 8" by (rule mask21_0 [OF w8(2)]) simp_all
  have e9: "uint (2097151 AND drop_bit 5 w9) = limb21 ?N 9" by (rule mask21 [OF w9(2)]) simp_all
  have e10: "uint (2097151 AND drop_bit 2 w10) = limb21 ?N 10" by (rule mask21 [OF w10(2)]) simp_all
  have e11: "uint (2097151 AND drop_bit 7 w11) = limb21 ?N 11" by (rule mask21 [OF w11(2)]) simp_all
  have e12: "uint (2097151 AND drop_bit 4 w12) = limb21 ?N 12" by (rule mask21 [OF w12(2)]) simp_all
  have e13: "uint (2097151 AND drop_bit 1 w13) = limb21 ?N 13" by (rule mask21 [OF w13(2)]) simp_all
  have e14: "uint (2097151 AND drop_bit 6 w14) = limb21 ?N 14" by (rule mask21 [OF w14(2)]) simp_all
  have e15: "uint (2097151 AND drop_bit 3 w15) = limb21 ?N 15" by (rule mask21 [OF w15(2)]) simp_all
  have e16: "uint (2097151 AND w16) = limb21 ?N 16" by (rule mask21_0 [OF w16(2)]) simp_all
  have e17: "uint (2097151 AND drop_bit 5 w17) = limb21 ?N 17" by (rule mask21 [OF w17(2)]) simp_all
  have e18: "uint (2097151 AND drop_bit 2 w18) = limb21 ?N 18" by (rule mask21 [OF w18(2)]) simp_all
  have e19: "uint (2097151 AND drop_bit 7 w19) = limb21 ?N 19" by (rule mask21 [OF w19(2)]) simp_all
  have e20: "uint (2097151 AND drop_bit 4 w20) = limb21 ?N 20" by (rule mask21 [OF w20(2)]) simp_all
  have e21: "uint (2097151 AND drop_bit 1 w21) = limb21 ?N 21" by (rule mask21 [OF w21(2)]) simp_all
  have e22: "uint (2097151 AND drop_bit 6 w22) = limb21 ?N 22" by (rule mask21 [OF w22(2)]) simp_all
  have e23: "uint (drop_bit 3 w23) = int (?N div 2 ^ (21 * 23))" by (rule uint_top_limb [OF w23(2)]) (use N in simp_all)
  have upt: "[0..<23] = [0, 1, 2, 3, 4, 5, 6, 7, 8, 9, 10, 11, 12, 13, 14, 15, 16, 17, 18, 19, 20, 21, 22::nat]" by (simp add: upt_rec)
  show ?thesis
    unfolding sc_load_64_def w0(1) w1(1) w2(1) w3(1) w4(1) w5(1) w6(1) w7(1) w8(1) w9(1) w10(1) w11(1) w12(1) w13(1) w14(1) w15(1) w16(1) w17(1) w18(1) w19(1) w20(1) w21(1) w22(1) w23(1) bind.bind_lunit upt
      e0 e1 e2 e3 e4 e5 e6 e7 e8 e9 e10 e11 e12 e13 e14 e15 e16 e17 e18 e19 e20 e21 e22 e23
    by (simp only: list.map append.simps)
qed



text \<open>Packing: bits of two neighbouring limbs share a byte.\<close>

fun byte_value :: "int list \<Rightarrow> int" where
  "byte_value [] = 0"
| "byte_value (z # zs) = z mod 256 + 256 * byte_value zs"

lemma le_nat_word_of_int: "int (le_nat (map word_of_int zs)) = byte_value zs"
proof (induction zs)
  case (Cons z zs)
  have "int (unat (word_of_int z :: u8)) = z mod 256"
    by (simp add: unsigned_of_int take_bit_eq_mod)
  then show ?case using Cons by simp
qed simp

lemma or_shift:
  fixes u x :: int
  assumes "0 \<le> u" "u < 2 ^ c" "c \<le> 8"
  shows "(u OR (x * 2 ^ c)) mod 256 = u + 2 ^ c * (x mod 2 ^ (8 - c))"
proof -
  have u: "u = take_bit c u" using assms(1,2) by (simp add: take_bit_eq_mod)
  have "take_bit c u AND push_bit c x = 0"
    by (rule bit_eqI) (auto simp: bit_and_iff bit_take_bit_iff bit_push_bit_iff)
  then have "u OR (x * 2 ^ c) = u + x * 2 ^ c"
    using u by (simp add: push_bit_eq_mult disjunctive_add_eq_or)
  moreover have "(u + x * 2 ^ c) mod (2 ^ c * 2 ^ (8 - c)) = u + 2 ^ c * (x mod 2 ^ (8 - c))"
  proof -
    have "(u + x * 2 ^ c) mod (2 ^ c * 2 ^ (8 - c)) = 2 ^ c * ((u + x * 2 ^ c) div 2 ^ c mod 2 ^ (8 - c)) + (u + x * 2 ^ c) mod 2 ^ c"
      by (rule zmod_zmult2_eq) simp
    then show ?thesis using assms(1,2) by simp
  qed
  moreover have "(2::int) ^ c * 2 ^ (8 - c) = 256" using assms(3) by (simp flip: power_add)
  ultimately show ?thesis by simp
qed

lemma split_limb_1: "(x::int) = x mod 2 ^ a + 2 ^ a * (x div 2 ^ a mod 256) + 2 ^ (a + 8) * (x div 2 ^ (a + 8))"
proof -
  have "x = x mod 2 ^ a + 2 ^ a * (x div 2 ^ a)" by simp
  also have "x div 2 ^ a = x div 2 ^ a mod 256 + 256 * (x div 2 ^ a div 256)" by simp
  also have "x div 2 ^ a div 256 = x div 2 ^ (a + 8)" by (simp add: power_add zdiv_zmult2_eq)
  finally show ?thesis by (simp add: power_add algebra_simps)
qed

lemma split_limb_2:
  "(x::int) = x mod 2 ^ a + 2 ^ a * (x div 2 ^ a mod 256) + 2 ^ (a + 8) * (x div 2 ^ (a + 8) mod 256)
     + 2 ^ (a + 16) * (x div 2 ^ (a + 16))"
proof -
  have "x div 2 ^ (a + 8) = x div 2 ^ (a + 8) mod 256 + 256 * (x div 2 ^ (a + 8) div 256)" by simp
  also have "x div 2 ^ (a + 8) div 256 = x div 2 ^ (a + 16)"
  proof -
    have "(2::int) ^ (a + 16) = 2 ^ (a + 8) * 256" by (simp add: power_add)
    then show ?thesis by (simp add: zdiv_zmult2_eq)
  qed
  finally have "2 ^ (a + 8) * (x div 2 ^ (a + 8)) = 2 ^ (a + 8) * (x div 2 ^ (a + 8) mod 256 + 256 * (x div 2 ^ (a + 16)))"
    by (rule arg_cong)
  also have "\<dots> = 2 ^ (a + 8) * (x div 2 ^ (a + 8) mod 256) + 2 ^ (a + 16) * (x div 2 ^ (a + 16))"
    by (simp add: distrib_left power_add)
  finally show ?thesis using split_limb_1 [of x a] by linarith
qed

lemma top_bits:
  assumes "0 \<le> x" "x < (2::int) ^ (a + b)"
  shows "0 \<le> x div 2 ^ a \<and> x div 2 ^ a < 2 ^ b"
proof -
  have "2 ^ a * 2 ^ b \<le> 2 ^ a * (x div 2 ^ a)" if "2 ^ b \<le> x div 2 ^ a" using that by (intro mult_left_mono) auto
  moreover have "0 \<le> x mod 2 ^ a" by simp
  then have "2 ^ a * (x div 2 ^ a) \<le> x" using mult_div_mod_eq [of "2 ^ a" x] by linarith
  ultimately have "\<not> 2 ^ b \<le> x div 2 ^ a" using assms(2) unfolding power_add by linarith
  then show ?thesis using assms(1) by (simp add: pos_imp_zdiv_nonneg_iff)
qed

lemma pack_limb_3:
  assumes "z mod 256 = u + 2 ^ c * (y mod 2 ^ (8 - c))" "c \<le> 8" "byte_value tail = y div 2 ^ (24 - c) + R"
  shows "byte_value (z # y div 2 ^ (8 - c) # y div 2 ^ (16 - c) # tail) = u + 2 ^ c * y + 2 ^ 24 * R"
proof -
  define a where "a = 8 - c"
  have e: "8 - c = a" "16 - c = a + 8" "24 - c = a + 16" "c + a = 8" using assms(2) by (auto simp: a_def)
  have p: "(2::int) ^ c * 2 ^ a = 2 ^ 8" "(2::int) ^ c * 2 ^ (a + 8) = 2 ^ 16" "(2::int) ^ c * 2 ^ (a + 16) = 2 ^ 24"
    using e(4) by (simp_all flip: power_add add.assoc)
  have "2 ^ c * y = 2 ^ c * (y mod 2 ^ a) + 2 ^ c * 2 ^ a * (y div 2 ^ a mod 256) + 2 ^ c * 2 ^ (a + 8) * (y div 2 ^ (a + 8) mod 256)
      + 2 ^ c * 2 ^ (a + 16) * (y div 2 ^ (a + 16))"
    by (subst split_limb_2 [of y a]) (simp only: distrib_left mult.assoc)
  then show ?thesis using assms(1,3) unfolding e p by simp
qed

lemma pack_limb_2:
  assumes "z mod 256 = u + 2 ^ c * (y mod 2 ^ (8 - c))" "c \<le> 8" "byte_value tail = y div 2 ^ (16 - c) + R"
  shows "byte_value (z # y div 2 ^ (8 - c) # tail) = u + 2 ^ c * y + 2 ^ 16 * R"
proof -
  define a where "a = 8 - c"
  have e: "8 - c = a" "16 - c = a + 8" "c + a = 8" using assms(2) by (auto simp: a_def)
  have p: "(2::int) ^ c * 2 ^ a = 2 ^ 8" "(2::int) ^ c * 2 ^ (a + 8) = 2 ^ 16"
    using e(3) by (simp_all flip: power_add add.assoc)
  have "2 ^ c * y = 2 ^ c * (y mod 2 ^ a) + 2 ^ c * 2 ^ a * (y div 2 ^ a mod 256) + 2 ^ c * 2 ^ (a + 8) * (y div 2 ^ (a + 8))"
    by (subst split_limb_1 [of y a]) (simp only: distrib_left mult.assoc)
  then show ?thesis using assms(1,3) unfolding e p by simp
qed

lemma pack_3:
  assumes "byte_value tail = y div 2 ^ (24 - c) + R" "0 \<le> u" "u < 2 ^ c" "c \<le> 8"
  shows "byte_value ((u OR (y * 2 ^ c)) # y div 2 ^ (8 - c) # y div 2 ^ (16 - c) # tail) = u + (2 ^ c * y + 2 ^ 24 * R)"
  using pack_limb_3 [OF or_shift [OF assms(2-4)] assms(4,1)] by simp

lemma pack_2:
  assumes "byte_value tail = y div 2 ^ (16 - c) + R" "0 \<le> u" "u < 2 ^ c" "c \<le> 8"
  shows "byte_value ((u OR (y * 2 ^ c)) # y div 2 ^ (8 - c) # tail) = u + (2 ^ c * y + 2 ^ 16 * R)"
  using pack_limb_2 [OF or_shift [OF assms(2-4)] assms(4,1)] by simp

lemma pack_3_0:
  assumes "byte_value tail = y div 2 ^ 24 + R"
  shows "byte_value (y # y div 2 ^ 8 # y div 2 ^ 16 # tail) = y + 2 ^ 24 * R"
  using pack_limb_3 [of y 0 0 y tail R] assms by simp

lemma pack_2_0:
  assumes "byte_value tail = y div 2 ^ 16 + R"
  shows "byte_value (y # y div 2 ^ 8 # tail) = y + 2 ^ 16 * R"
  using pack_limb_2 [of y 0 0 y tail R] assms by simp

lemma pack_last:
  assumes "0 \<le> u" "u < 256"
  shows "byte_value (u # tail) = u + 256 * byte_value tail"
  using assms by simp

declare byte_value.simps(2) [simp del]

lemma sum_upto_12:
  "(\<Sum>i < Suc 11. f i) = (f 0 + f 1 + f 2 + f 3 + f 4 + f 5 + f 6 + f 7 + f 8 + f 9 + f 10 + f 11 :: int)"
  by (simp add: eval_nat_numeral)

lemma sc_pack_high:
  assumes x: "\<And>i. i < 11 \<Longrightarrow> 0 \<le> s ! i \<and> s ! i < 2 ^ 21" and y: "0 \<le> s ! 11 \<and> s ! 11 < 2 ^ 22"
  shows "byte_value [s ! 8, s ! 8 div 2 ^ 8, (s ! 8 div 2 ^ 16) OR (s ! 9 * 2 ^ 5), s ! 9 div 2 ^ 3, s ! 9 div 2 ^ 11,
      (s ! 9 div 2 ^ 19) OR (s ! 10 * 2 ^ 2), s ! 10 div 2 ^ 6, (s ! 10 div 2 ^ 14) OR (s ! 11 * 2 ^ 7),
      s ! 11 div 2 ^ 1, s ! 11 div 2 ^ 9, s ! 11 div 2 ^ 17]
    = s ! 8 + 2 ^ 21 * s ! 9 + 2 ^ 42 * s ! 10 + 2 ^ 63 * s ! 11"
proof -
  have hi: "0 \<le> s ! i div 2 ^ a" "s ! i div 2 ^ a < 2 ^ (21 - a)" if "i < 11" "a \<le> 21" for i a
    using top_bits [of "s ! i" a "21 - a"] x [OF that(1)] that(2) by simp_all
  have "byte_value [s ! 11 div 2 ^ 17] = s ! 11 div 131072 + 0" using pack_last [of "s ! 11 div 2 ^ 17" "[]"] top_bits [of "s ! 11" 17 5] y by simp
  note t = pack_3 [where c = 7, simplified, OF this hi [of 10 14, simplified]]
  note t = pack_2 [where c = 2, simplified, OF t hi [of 9 19, simplified]]
  note t = pack_3 [where c = 5, simplified, OF t hi [of 8 16, simplified]]
  note t = pack_2_0 [simplified, OF t]
  from t show ?thesis by simp
qed


lemma sc_pack_low:
  assumes x: "\<And>i. i < 11 \<Longrightarrow> 0 \<le> s ! i \<and> s ! i < 2 ^ 21"
  shows "byte_value (s ! 0 # s ! 0 div 2 ^ 8 # ((s ! 0 div 2 ^ 16) OR (s ! 1 * 2 ^ 5)) # s ! 1 div 2 ^ 3 # s ! 1 div 2 ^ 11 #
      ((s ! 1 div 2 ^ 19) OR (s ! 2 * 2 ^ 2)) # s ! 2 div 2 ^ 6 # ((s ! 2 div 2 ^ 14) OR (s ! 3 * 2 ^ 7)) #
      s ! 3 div 2 ^ 1 # s ! 3 div 2 ^ 9 # ((s ! 3 div 2 ^ 17) OR (s ! 4 * 2 ^ 4)) # s ! 4 div 2 ^ 4 # s ! 4 div 2 ^ 12 #
      ((s ! 4 div 2 ^ 20) OR (s ! 5 * 2 ^ 1)) # s ! 5 div 2 ^ 7 # ((s ! 5 div 2 ^ 15) OR (s ! 6 * 2 ^ 6)) #
      s ! 6 div 2 ^ 2 # s ! 6 div 2 ^ 10 # ((s ! 6 div 2 ^ 18) OR (s ! 7 * 2 ^ 3)) # s ! 7 div 2 ^ 5 # s ! 7 div 2 ^ 13 # tail)
    = s ! 0 + 2 ^ 21 * s ! 1 + 2 ^ 42 * s ! 2 + 2 ^ 63 * s ! 3 + 2 ^ 84 * s ! 4 + 2 ^ 105 * s ! 5 + 2 ^ 126 * s ! 6
      + 2 ^ 147 * s ! 7 + 2 ^ 168 * byte_value tail"
proof -
  have hi: "0 \<le> s ! i div 2 ^ a" "s ! i div 2 ^ a < 2 ^ (21 - a)" if "i < 11" "a \<le> 21" for i a
    using top_bits [of "s ! i" a "21 - a"] x [OF that(1)] that(2) by simp_all
  note t = pack_last [OF hi [of 7 13, simplified], of tail]
  note t = pack_2 [where c = 3, simplified, OF t hi [of 6 18, simplified]]
  note t = pack_3 [where c = 6, simplified, OF t hi [of 5 15, simplified]]
  note t = pack_2 [where c = 1, simplified, OF t hi [of 4 20, simplified]]
  note t = pack_3 [where c = 4, simplified, OF t hi [of 3 17, simplified]]
  note t = pack_3 [where c = 7, simplified, OF t hi [of 2 14, simplified]]
  note t = pack_2 [where c = 2, simplified, OF t hi [of 1 19, simplified]]
  note t = pack_3 [where c = 5, simplified, OF t hi [of 0 16, simplified]]
  note t = pack_2_0 [simplified, OF t]
  from t show ?thesis by simp
qed

lemma sc_pack_value:
  assumes w: "within (replicate 11 (0, 2097151) @ [(0, 2097152)]) s"
  shows "int (le_nat (sc_pack s)) = sc_value s"
proof -
  note d = within_replicate_snoc [OF w]
  have x: "0 \<le> s ! i \<and> s ! i < 2 ^ 21" if "i < 11" for i using d(2) that by (auto simp: in_bnd_def)
  have y: "0 \<le> s ! 11 \<and> s ! 11 < 2 ^ 22" using d(3) by (auto simp: in_bnd_def)
  have "sc_value s = s ! 0 + s ! 1 * 2 ^ 21 + s ! 2 * 2 ^ 42 + s ! 3 * 2 ^ 63 + s ! 4 * 2 ^ 84 + s ! 5 * 2 ^ 105
      + s ! 6 * 2 ^ 126 + s ! 7 * 2 ^ 147 + s ! 8 * 2 ^ 168 + s ! 9 * 2 ^ 189 + s ! 10 * 2 ^ 210 + s ! 11 * 2 ^ 231"
    unfolding limb_value_def d(1) by (simp only: sum_upto_12 wt21_def) simp
  then show ?thesis
    unfolding sc_pack_def le_nat_word_of_int by (simp only: sc_pack_low [of s, OF x] sc_pack_high [of s, OF x y]) simp
qed

section \<open>Products\<close>

lemma those_map_Some: "(\<And>x. x \<in> set xs \<Longrightarrow> f x = Some (g x)) \<Longrightarrow> those (map f xs) = Some (map g xs)"
  by (induction xs) auto

abbreviation scalar_bounds :: "bnd list" where
  "scalar_bounds \<equiv> replicate 11 (0, 2097151) @ [(0, 33554432)]"

lemma sc_load_ok:
  assumes "length s = 32"
  shows "\<exists>a. sc_load s = Some a \<and> within scalar_bounds a \<and> length a = 12 \<and> sc_value a = int (le_nat s)"
proof -
  have "le_nat s < 2 ^ 25 * 2 ^ 231" using le_nat_less [of s] assms by simp
  then have "le_nat s div 2 ^ 231 < 2 ^ 25" by (rule less_mult_imp_div_less)
  then have "within (replicate 11 (0, 2097151) @ [(0, 33554432)]) (map (limb21 (le_nat s)) [0..<11] @ [int (le_nat s div 2 ^ 231)])"
    by (simp add: within_snoc in_bnd_def) (simp add: within_def list_all2_conv_all_nth in_bnd_def limb21_bounds)
  then show ?thesis
    using sc_load_eq [OF assms] sc_value_limb21 [of "le_nat s" 11] by simp
qed

lemma scalar_limb:
  assumes "within scalar_bounds a" "i < 12"
  shows "0 \<le> a ! i \<and> a ! i \<le> 33554432"
proof (cases "i = 11")
  case True
  then show ?thesis using within_replicate_snoc(3) [OF assms(1)] by (simp add: in_bnd_def)
next
  case False
  then have "i < 11" using assms(2) by simp
  then show ?thesis using within_replicate_snoc(2) [OF assms(1)] by (auto simp: in_bnd_def)
qed

lemma within_replicateI: "length s = n \<Longrightarrow> (\<And>i. i < n \<Longrightarrow> in_bnd b (s ! i)) \<Longrightarrow> within (replicate n b) s"
  by (simp add: within_def list_all2_conv_all_nth)

lemma limb_value_map_upt: "limb_value wt (map f [0..<n]) = (\<Sum>i < n. f i * wt i)"
  unfolding limb_value_def by (auto intro: sum.cong)

lemma limbs_op_ok:
  assumes a: "within scalar_bounds a" and b: "within scalar_bounds b"
    and f: "\<And>x y. 0 \<le> x \<Longrightarrow> x \<le> 33554432 \<Longrightarrow> 0 \<le> y \<Longrightarrow> y \<le> 33554432 \<Longrightarrow> \<bar>f x y\<bar> \<le> 2 ^ 60"
    and lin: "\<And>x y w. f x y * w = f (x * w) (y * w)" "\<And>n g h. (\<Sum>i < (n::nat). f (g i) (h i)) = f (\<Sum>i < n. g i) (\<Sum>i < n. h i)"
  shows "\<exists>s. limbs_op f a b = Some s \<and> within (replicate 12 limb60) s \<and> sc_value s = f (sc_value a) (sc_value b)"
proof -
  have bd: "\<bar>f (a ! i) (b ! i)\<bar> \<le> 2 ^ 60" if "i < 12" for i
    using scalar_limb [OF a that] scalar_limb [OF b that] f by blast
  then have "limbs_op f a b = Some (map (\<lambda>i. f (a ! i) (b ! i)) [0..<12])"
    unfolding limbs_op_def by (intro those_map_Some) (fastforce simp: i64_def abs_le_iff)
  moreover have "within (replicate 12 limb60) (map (\<lambda>i. f (a ! i) (b ! i)) [0..<12])"
  proof (rule within_replicateI)
    fix i :: nat assume "i < 12"
    then show "in_bnd limb60 (map (\<lambda>i. f (a ! i) (b ! i)) [0..<12] ! i)"
      using bd [of i] by (simp add: in_bnd_def limb60_def abs_le_iff)
  qed simp
  moreover have "sc_value (map (\<lambda>i. f (a ! i) (b ! i)) [0..<12]) = f (sc_value a) (sc_value b)"
    unfolding limb_value_map_upt lin using within_length [OF a] within_length [OF b] by (simp add: limb_value_def)
  ultimately show ?thesis by blast
qed

lemma column_bound:
  assumes a: "within scalar_bounds a" and b: "within scalar_bounds b" and k: "k < 23"
  shows "sum64 (column a b k) = Some (sum_list (column a b k))" "\<bar>sum_list (column a b k)\<bar> \<le> 12 * 2 ^ 50"
proof -
  have x: "\<bar>a ! i * b ! (k - i)\<bar> \<le> 2 ^ 50" if "k - 11 \<le> i" "i < Suc k" "i < 12" for i
  proof -
    have "0 \<le> a ! i" "a ! i \<le> 2 ^ 25" "0 \<le> b ! (k - i)" "b ! (k - i) \<le> 2 ^ 25"
      using scalar_limb [OF a, of i] scalar_limb [OF b, of "k - i"] that k by auto
    then have "0 \<le> a ! i * b ! (k - i)" "a ! i * b ! (k - i) \<le> 2 ^ 25 * 2 ^ 25"
      using mult_mono [of "a ! i" "2 ^ 25" "b ! (k - i)" "2 ^ 25"] by auto
    then show ?thesis by simp
  qed
  have l: "int (length (column a b k)) \<le> 12" by (auto simp: column_def)
  have bd: "\<forall>x \<in> set (column a b k). \<bar>x\<bar> \<le> 2 ^ 50" using x by (auto simp: column_def)
  have len: "int (length (column a b k)) * 2 ^ 50 \<le> 12 * 2 ^ 50" using l by (intro mult_right_mono) auto
  then have "int (length (column a b k)) * 2 ^ 50 < 2 ^ 63" by simp
  note s = sum64_bounded [OF bd this]
  show "sum64 (column a b k) = Some (sum_list (column a b k))" "\<bar>sum_list (column a b k)\<bar> \<le> 12 * 2 ^ 50"
    using s len by simp_all
qed

lemma columns_value:
  assumes "length a = 12" "length b = 12"
  shows "(\<Sum>k < 23. sum_list (column a b k) * wt21 k) = sc_value a * sc_value b"
proof -
  define f g where "f = (\<lambda>i. if i \<le> 11 then a ! i else 0)" and "g = (\<lambda>i. if i \<le> 11 then b ! i else 0)"
  have w: "wt21 i = (2 ^ 21) ^ i" for i by (simp add: wt21_def power_mult)
  have va: "sc_value a = (\<Sum>i \<le> 11. f i * (2 ^ 21) ^ i)" and vb: "sc_value b = (\<Sum>i \<le> 11. g i * (2 ^ 21) ^ i)"
    unfolding limb_value_def assms w f_def g_def by (auto intro!: sum.cong)
  have col: "sum_list (column a b k) = (\<Sum>i \<le> k. f i * g (k - i))" if "k < 23" for k
  proof -
    have "sum_list (column a b k) = (\<Sum>i \<in> {k - 11..<min (Suc k) 12}. a ! i * b ! (k - i))"
      unfolding column_def by (subst sum_list_distinct_conv_sum_set) (simp_all only: distinct_upt set_upt)
    also have "\<dots> = (\<Sum>i \<le> k. f i * g (k - i))"
      by (rule sum.mono_neutral_cong_left) (auto simp: f_def g_def)
    finally show ?thesis .
  qed
  have "sc_value a * sc_value b = (\<Sum>r \<le> 11 + 11. (\<Sum>k \<le> r. f k * g (r - k)) * (2 ^ 21) ^ r)"
    unfolding va vb by (rule polynomial_product) (auto simp: f_def g_def)
  also have "{..11 + 11} = {..<23::nat}" by auto
  also have "(\<Sum>r < 23. (\<Sum>k \<le> r. f k * g (r - k)) * (2 ^ 21) ^ r) = (\<Sum>k < 23. sum_list (column a b k) * wt21 k)"
    by (rule sum.cong) (simp_all add: col w)
  finally show ?thesis by (rule sym)
qed


lemma columns_ok:
  assumes a: "within scalar_bounds a" and b: "within scalar_bounds b" and c: "\<And>k. k < 23 \<Longrightarrow> \<bar>g k\<bar> \<le> 2 ^ 54"
    and f: "\<And>k. k < 23 \<Longrightarrow> f k = Some (g k)"
  shows "those (map f [0..<23]) = Some (map g [0..<23])" "within (replicate 23 limb54) (map g [0..<23])"
proof -
  show "those (map f [0..<23]) = Some (map g [0..<23])" using f by (intro those_map_Some) simp
  show "within (replicate 23 limb54) (map g [0..<23])"
  proof (rule within_replicateI)
    fix i :: nat assume "i < 23"
    then show "in_bnd limb54 (map g [0..<23] ! i)" using c [of i] by (simp add: in_bnd_def limb54_def abs_le_iff)
  qed simp
qed

lemma scalar_column_sum:
  assumes "length c = 12"
  shows "(\<Sum>k < 23. (if k < 12 then c ! k else 0) * wt21 k) = sc_value c"
proof -
  have "(\<Sum>k < 23. (if k < 12 then c ! k else 0) * wt21 k) = (\<Sum>k < 12. c ! k * wt21 k)"
    by (rule sum.mono_neutral_cong_right) auto
  then show ?thesis using assms by (simp add: limb_value_def)
qed

lemma finish_bytes:
  assumes "sc_finish' = Some (sc_pack s') \<and> within (replicate 11 (0, 2097151) @ [(0, 2097152)]) s' \<and> sc_value s' = v mod sc_l"
  shows "\<exists>r. sc_finish' = Some r \<and> length r = 32 \<and> int (le_nat r) = v mod sc_l"
  using assms sc_pack_value [of s'] by (intro exI [of _ "sc_pack s'"]) (simp add: sc_pack_def)

lemma sc_finish_ok:
  "within (replicate 12 limb60) s \<Longrightarrow> \<exists>r. sc_finish s = Some r \<and> length r = 32 \<and> int (le_nat r) = sc_value s mod sc_l"
  using sc_finish_limbs [of s] finish_bytes by blast

lemma sc_reduce_24_ok:
  "within (replicate 24 limb34) s \<Longrightarrow> \<exists>r. sc_reduce_24 s = Some r \<and> length r = 32 \<and> int (le_nat r) = sc_value s mod sc_l"
  using sc_reduce_24_limbs [of s] finish_bytes by blast

lemma sc_reduce_columns_ok:
  "within (replicate 23 limb54) s \<Longrightarrow> \<exists>r. sc_reduce_columns s = Some r \<and> length r = 32 \<and> int (le_nat r) = sc_value s mod sc_l"
  using sc_reduce_columns_limbs [of s] finish_bytes by blast

lemma sc_mul_limbs_ok:
  assumes a: "within scalar_bounds a" and b: "within scalar_bounds b"
  shows "\<exists>s. sc_mul_limbs a b = Some s \<and> within (replicate 23 limb54) s \<and> sc_value s = sc_value a * sc_value b"
proof -
  have l: "length a = 12" "length b = 12" using within_length [OF a] within_length [OF b] by simp_all
  have c: "\<bar>sum_list (column a b k)\<bar> \<le> 2 ^ 54" "sum64 (column a b k) = Some (sum_list (column a b k))" if "k < 23" for k
    using column_bound [OF a b that] by simp_all
  show ?thesis
    using columns_ok [OF a b c] columns_value [OF l] unfolding sc_mul_limbs_def by (auto simp: limb_value_map_upt)
qed

lemma sc_mulacc_limbs_ok:
  assumes a: "within scalar_bounds a" and b: "within scalar_bounds b" and c: "within scalar_bounds c"
  shows "\<exists>s. sc_muladd_limbs a b c = Some s \<and> within (replicate 23 limb54) s \<and> sc_value s = sc_value c + sc_value a * sc_value b"
    "\<exists>s. sc_mulsub_limbs a b c = Some s \<and> within (replicate 23 limb54) s \<and> sc_value s = sc_value c - sc_value a * sc_value b"
proof -
  have l: "length a = 12" "length b = 12" "length c = 12"
    using within_length [OF a] within_length [OF b] within_length [OF c] by simp_all
  let ?c = "\<lambda>k. if k < 12 then c ! k else 0" and ?p = "\<lambda>k. sum_list (column a b k)"
  have p: "\<bar>?p k\<bar> \<le> 12 * 2 ^ 50" "sum64 (column a b k) = Some (?p k)" if "k < 23" for k
    using column_bound [OF a b that] by simp_all
  have cb: "0 \<le> ?c k \<and> ?c k \<le> 33554432" for k using scalar_limb [OF c, of k] by simp
  have add: "\<bar>?c k + ?p k\<bar> \<le> 2 ^ 54" "do { p \<leftarrow> sum64 (column a b k); i64 (if k < 12 then c ! k + p else p) } = Some (?c k + ?p k)"
    if "k < 23" for k using p [OF that] cb [of k] by (auto simp: i64_def abs_le_iff split: if_splits)
  have sub: "\<bar>?c k - ?p k\<bar> \<le> 2 ^ 54" "do { p \<leftarrow> sum64 (column a b k); i64 (if k < 12 then c ! k - p else - p) } = Some (?c k - ?p k)"
    if "k < 23" for k using p [OF that] cb [of k] by (auto simp: i64_def abs_le_iff split: if_splits)
  have "sc_value (map (\<lambda>k. ?c k + ?p k) [0..<23]) = sc_value c + sc_value a * sc_value b"
    unfolding limb_value_map_upt distrib_right sum.distrib scalar_column_sum [OF l(3)] columns_value [OF l(1,2)] ..
  then show "\<exists>s. sc_muladd_limbs a b c = Some s \<and> within (replicate 23 limb54) s \<and> sc_value s = sc_value c + sc_value a * sc_value b"
    using columns_ok [OF a b, of "\<lambda>k. ?c k + ?p k" "\<lambda>k. do { p \<leftarrow> sum64 (column a b k); i64 (if k < 12 then c ! k + p else p) }"] add
    unfolding sc_muladd_limbs_def by blast
  have "sc_value (map (\<lambda>k. ?c k - ?p k) [0..<23]) = sc_value c - sc_value a * sc_value b"
    unfolding limb_value_map_upt left_diff_distrib sum_subtractf scalar_column_sum [OF l(3)] columns_value [OF l(1,2)] ..
  then show "\<exists>s. sc_mulsub_limbs a b c = Some s \<and> within (replicate 23 limb54) s \<and> sc_value s = sc_value c - sc_value a * sc_value b"
    using columns_ok [OF a b, of "\<lambda>k. ?c k - ?p k" "\<lambda>k. do { p \<leftarrow> sum64 (column a b k); i64 (if k < 12 then c ! k - p else - p) }"] sub
    unfolding sc_mulsub_limbs_def by blast
qed

section \<open>Canonical scalars\<close>

lemma sg_pos: "0 < a \<Longrightarrow> signum a = 1" and sg_neg: "a < 0 \<Longrightarrow> signum a = - 1"
  by (simp_all add: signum_def)

lemma signum_lex:
  assumes "\<And>i. i < n \<Longrightarrow> 0 \<le> c i \<and> c i < (B::int)" "\<And>i. i < n \<Longrightarrow> 0 \<le> x i \<and> x i < B" "0 < B"
  shows "signum (\<Sum>i < n. signum (c i - x i) * 2 ^ i) = signum ((\<Sum>i < n. c i * B ^ i) - (\<Sum>i < n. x i * B ^ i))
    \<and> \<bar>\<Sum>i < n. signum (c i - x i) * 2 ^ i\<bar> < 2 ^ n \<and> \<bar>(\<Sum>i < n. c i * B ^ i) - (\<Sum>i < n. x i * B ^ i)\<bar> < B ^ n"
  using assms(1,2)
proof (induction n)
  case (Suc n)
  let ?S = "\<Sum>i < n. signum (c i - x i) * 2 ^ i" and ?D = "(\<Sum>i < n. c i * B ^ i) - (\<Sum>i < n. x i * B ^ i)"
  have ih: "signum ?S = signum ?D" "\<bar>?S\<bar> < 2 ^ n" "\<bar>?D\<bar> < B ^ n" using Suc by auto
  have S: "(\<Sum>i < Suc n. signum (c i - x i) * 2 ^ i) = ?S + signum (c n - x n) * 2 ^ n"
    and D: "(\<Sum>i < Suc n. c i * B ^ i) - (\<Sum>i < Suc n. x i * B ^ i) = ?D + (c n - x n) * B ^ n"
    by (simp_all add: algebra_simps)
  have b: "- (B - 1) \<le> c n - x n" "c n - x n \<le> B - 1" using Suc.prems(1) [of n] Suc.prems(2) [of n] by auto
  have Bn: "0 < B ^ n" using assms(3) by simp
  have ub: "(c n - x n) * B ^ n \<le> (B - 1) * B ^ n" "(- (B - 1)) * B ^ n \<le> (c n - x n) * B ^ n"
    by (rule mult_right_mono [OF b(2)], use Bn in simp, rule mult_right_mono [OF b(1)], use Bn in simp)
  have "(B - 1) * B ^ n = B ^ Suc n - B ^ n" "(- (B - 1)) * B ^ n = B ^ n - B ^ Suc n" by (simp_all add: algebra_simps)
  then have lt: "\<bar>?D + (c n - x n) * B ^ n\<bar> < B ^ Suc n" using ub ih(3) unfolding abs_less_iff by linarith
  consider "c n = x n" | "x n < c n" | "c n < x n" by linarith
  then show ?case
  proof cases
    case 1
    then show ?thesis using ih lt unfolding S D by (auto simp: signum_def)
  next
    case 2
    then have "1 * B ^ n \<le> (c n - x n) * B ^ n" using Bn by (intro mult_right_mono) auto
    then have "0 < ?D + (c n - x n) * B ^ n" using ih(3) by linarith
    moreover have sg: "signum (c n - x n) = 1" using 2 by (simp add: signum_def)
    moreover have "0 < ?S + 1 * 2 ^ n" "\<bar>?S + 1 * 2 ^ n\<bar> < 2 ^ Suc n" using ih(2) by (auto simp: abs_less_iff)
    ultimately show ?thesis using lt unfolding S D sg by (simp add: sg_pos)
  next
    case 3
    then have "(c n - x n) * B ^ n \<le> - 1 * B ^ n" using Bn by (intro mult_right_mono) auto
    then have "?D + (c n - x n) * B ^ n < 0" using ih(3) by linarith
    moreover have sg: "signum (c n - x n) = - 1" using 3 by (simp add: signum_def)
    moreover have "?S + - 1 * 2 ^ n < 0" "\<bar>?S + - 1 * 2 ^ n\<bar> < 2 ^ Suc n" using ih(2) by (auto simp: abs_less_iff)
    ultimately show ?thesis using lt unfolding S D sg by (simp add: sg_neg)
  qed
qed (simp add: signum_def)


lemma uint_of_load:
  "load_4 s k = Some w \<Longrightarrow> k + 4 \<le> length s \<Longrightarrow> uint w = int (le_nat s div 256 ^ k mod 2 ^ 32)"
  using load_4_value [of k s] by (auto simp: uint_nat)

lemma le_nat_base32:
  assumes "N < (2 ^ 32) ^ n"
  shows "(\<Sum>i < n. int (N div (2 ^ 32) ^ i mod 2 ^ 32) * (2 ^ 32) ^ i) = int N"
proof -
  have "(\<Sum>i < n. int (N div (2 ^ 32) ^ i mod 2 ^ 32) * (2 ^ 32) ^ i) + int (N div (2 ^ 32) ^ n) * (2 ^ 32) ^ n = int N"
  proof (induction n)
    case (Suc n)
    have "N div (2 ^ 32) ^ Suc n = N div (2 ^ 32) ^ n div 2 ^ 32" by (simp only: power_Suc2 div_mult2_eq)
    then have "int (N div (2 ^ 32) ^ n) = int (N div (2 ^ 32) ^ n mod 2 ^ 32) + int (N div (2 ^ 32) ^ Suc n) * 2 ^ 32"
      by (simp add: zmod_int zdiv_int)
    then show ?case using Suc by (simp add: algebra_simps)
  qed simp
  then show ?thesis using assms by simp
qed

lemma sum_upto_8: "(\<Sum>i < Suc 7. f i) = (f 0 + f 1 + f 2 + f 3 + f 4 + f 5 + f 6 + f 7 :: int)"
  by (simp add: eval_nat_numeral)

lemma lshift_signum: "b < 8 \<Longrightarrow> signed_lshift (signum z) b = Some (signum z * 2 ^ b)"
proof -
  assume "b < 8"
  then have "(2 :: int) ^ b \<le> 2 ^ 7" by (intro power_increasing) simp_all
  moreover have "(0 :: int) < 2 ^ b" by simp
  ultimately have "\<bar>signum z * 2 ^ b\<bar> \<le> 2 ^ 7" by (simp add: signum_def)
  moreover have "\<bar>x\<bar> \<le> 2 ^ 7 \<Longrightarrow> i64 x = Some x" for x by (intro i64_small) auto
  ultimately show ?thesis unfolding signed_lshift_def by blast
qed

lemma sc_check_eq:
  assumes "length s = 32"
  shows "sc_check s = Some (if int (le_nat s) < sc_l then 0 else - 1)"
proof -
  let ?N = "le_nat s"
  define w where "w = (\<lambda>i. the (load_4 s (4 * i)))"
  have w: "load_4 s (4 * i) = Some (w i)" if "i < 8" for i
    using load_4_value [of "4 * i" s] assms that by (auto simp: w_def)
  define x where "x = (\<lambda>i. uint (w i))"
  define c :: "nat \<Rightarrow> int" where "c = (\<lambda>i. [1559614444, 1477600026, 2734136534, 350157278, 0, 0, 0, 268435456] ! i)"
  have x: "x i = int (?N div (2 ^ 32) ^ i mod 2 ^ 32)" if "i < 8" for i
  proof -
    have "(256::nat) ^ (4 * i) = (2 ^ 32) ^ i" by (simp add: power_mult)
    then show ?thesis using uint_of_load [OF w [OF that]] that assms by (simp add: x_def)
  qed
  have xb: "0 \<le> x i \<and> x i < 2 ^ 32" if "i < 8" for i using x [OF that] by simp
  have cb: "0 \<le> c i \<and> c i < 2 ^ 32" if "i < 8" for i
  proof -
    have "list_all (\<lambda>z. 0 \<le> z \<and> z < (2 ^ 32 :: int)) [1559614444, 1477600026, 2734136534, 350157278, 0, 0, 0, 268435456]" by simp
    then show ?thesis using that by (simp only: c_def list_all_length) simp
  qed
  have "?N < (2 ^ 32) ^ 8" using le_nat_less [of s] assms by simp
  then have X: "(\<Sum>i < 8. x i * (2 ^ 32) ^ i) = int ?N" using le_nat_base32 [of ?N 8] x by simp
  have C: "(\<Sum>i < 8. c i * (2 ^ 32) ^ i) = sc_l - 1"
    by (simp add: sum_upto_8 [simplified] c_def sc_l_def)
  let ?t = "map (\<lambda>i. signum (c i - x i) * 2 ^ i) [0..<8]"
  have S: "sum64 ?t = Some (\<Sum>i < 8. signum (c i - x i) * 2 ^ i)"
  proof -
    have "\<bar>signum (c i - x i) * 2 ^ i\<bar> \<le> 2 ^ 7" if "i < 8" for i
    proof -
      have "(2 :: int) ^ i \<le> 2 ^ 7" using that by (intro power_increasing) simp_all
      then show ?thesis by (auto simp: signum_def abs_mult)
    qed
    then have "sum64 ?t = Some (sum_list ?t)" by (intro sum64_bounded(1) [of _ "2 ^ 7"]) auto
    then show ?thesis by (simp only: interv_sum_list_conv_sum_set_nat set_upt atLeast0LessThan)
  qed
  have d: "i64 (c i - x i) = Some (c i - x i)" if "i < 8" for i
    using xb [OF that] cb [OF that] by (intro i64_small) auto
  have "signum (\<Sum>i < 8. signum (c i - x i) * 2 ^ i) = signum (sc_l - 1 - int ?N)"
    using signum_lex [of 8 c "2 ^ 32" x, OF cb xb] unfolding C X by simp
  then have "(\<Sum>i < 8. signum (c i - x i) * 2 ^ i) < 0 \<longleftrightarrow> \<not> int ?N < sc_l"
    by (auto simp: signum_def split: if_splits)
  moreover have "sc_check s = Some (if 0 > (\<Sum>i < 8. signum (c i - x i) * 2 ^ i) then - 1 else 0)"
  proof -
    have ds: "i64 (1559614444 - x 0) = Some (1559614444 - x 0)" "i64 (1477600026 - x 1) = Some (1477600026 - x 1)"
        "i64 (2734136534 - x 2) = Some (2734136534 - x 2)" "i64 (350157278 - x 3) = Some (350157278 - x 3)"
        "i64 (- x 4) = Some (- x 4)" "i64 (- x 5) = Some (- x 5)" "i64 (- x 6) = Some (- x 6)"
        "i64 (268435456 - x 7) = Some (268435456 - x 7)"
      using d [of 0] d [of 1] d [of 2] d [of 3] d [of 4] d [of 5] d [of 6] d [of 7] by (simp_all add: c_def)
    have ts: "sum64 [signum (1559614444 - x 0), signum (1477600026 - x 1) * 2, signum (2734136534 - x 2) * 4,
        signum (350157278 - x 3) * 8, signum (- x 4) * 16, signum (- x 5) * 32, signum (- x 6) * 64, signum (268435456 - x 7) * 128]
        = Some (\<Sum>i < 8. signum (c i - x i) * 2 ^ i)"
    proof -
      have "[0..<8] = [0, 1, 2, 3, 4, 5, 6, 7 :: nat]" by (simp add: eval_nat_numeral)
      then show ?thesis using S by (simp add: c_def)
    qed
    show ?thesis
      unfolding sc_check_def
      using w [of 0] w [of 1] w [of 2] w [of 3] w [of 4] w [of 5] w [of 6] w [of 7] ds ts
      by (simp add: x_def [symmetric, THEN fun_cong] lshift_signum)
  qed
  ultimately show ?thesis by simp
qed


lemma or_bytes_0: "foldr (OR) bs (0 :: u8) = 0 \<longleftrightarrow> (\<forall>b \<in> set bs. b = 0)"
  by (induction bs) (auto simp: or_eq_0_iff)

lemma le_nat_0: "le_nat bs = 0 \<longleftrightarrow> (\<forall>b \<in> set bs. b = 0)"
  by (induction bs) (auto simp: unat_eq_0)

lemma sc_isnonzero_eq:
  assumes "length s = 32"
  shows "sc_isnonzero s = (if le_nat s = 0 then 0 else 1)"
proof (cases "le_nat s = 0")
  case True
  then have "foldr (OR) s (0 :: u8) = 0" by (simp add: or_bytes_0 le_nat_0)
  then show ?thesis using True assms by (simp add: sc_isnonzero_def)
next
  case False
  let ?u = "foldr (OR) s (0 :: u8)"
  have "?u \<noteq> 0" using False by (simp add: or_bytes_0 le_nat_0)
  then have "0 < uint ?u" using uint_ge_0 [of ?u] by (simp add: order_less_le unsigned_eq_0_iff)
  moreover have "uint ?u < 256" using uint_lt2p [of ?u] by simp
  ultimately have "(uint ?u - 1) div 2 ^ 8 = 0" by (intro div_pos_pos_trivial) auto
  then show ?thesis using False assms by (simp add: sc_isnonzero_def)
qed

lemma le_nat_inj: "length a = length b \<Longrightarrow> le_nat a = le_nat b \<Longrightarrow> a = b"
proof (induction a b rule: list_induct2)
  case (Cons x xs y ys)
  have "unat x = unat y" using arg_cong [OF Cons.prems, of "\<lambda>n. n mod 256"] unat_lt_u8 [of x] unat_lt_u8 [of y] by simp
  then have "x = y" by (simp only: word_unat_eq_iff)
  then show ?case using Cons by simp
qed simp

lemma le_nat_replicate: "255 * le_nat (replicate n b) + unat b = unat b * 256 ^ n"
  by (induction n) (simp_all add: algebra_simps)

section \<open>Operations on bytes\<close>

definition computes :: "bytes option \<Rightarrow> int \<Rightarrow> bool" where
  "computes res v \<longleftrightarrow> (\<exists>r. res = Some r \<and> length r = 32 \<and> int (le_nat r) = v mod sc_l)"

lemma sc_reduce_ok:
  assumes "length s = 64"
  shows "computes (sc_reduce s) (int (le_nat s))"
proof -
  let ?a = "map (limb21 (le_nat s)) [0..<23] @ [int (le_nat s div 2 ^ 483)]"
  have "le_nat s < 2 ^ 29 * 2 ^ 483" using le_nat_less [of s] assms by simp
  then have "le_nat s div 2 ^ 483 < 2 ^ 29" by (rule less_mult_imp_div_less)
  then have top: "in_bnd limb34 (int (le_nat s div 2 ^ 483))" by (simp add: in_bnd_def limb34_def)
  have "within (replicate 23 limb34) (map (limb21 (le_nat s)) [0..<23])"
    by (rule within_replicateI) (auto simp: in_bnd_def limb34_def intro: order_trans [OF _ limb21_bounds(1)] order_trans [OF limb21_bounds(2)])
  then have "within (replicate 23 limb34 @ [limb34]) ?a" using top by (simp add: within_snoc)
  then have "within (replicate 24 limb34) ?a" by (simp add: replicate_append_same flip: replicate_Suc)
  then show ?thesis
    using sc_reduce_24_ok [of ?a] sc_load_64_eq [OF assms] sc_value_limb21 [of "le_nat s" 23]
    by (simp add: computes_def sc_reduce_def)
qed

lemma sc_reduce32_ok:
  assumes "length s = 32"
  shows "computes (sc_reduce32 s) (int (le_nat s))"
proof -
  obtain a where a: "sc_load s = Some a" "within scalar_bounds a" "sc_value a = int (le_nat s)" using sc_load_ok [OF assms] by blast
  have "within (replicate 12 limb60) a"
    using scalar_limb [OF a(2)] within_length [OF a(2)] by (intro within_replicateI) (fastforce simp: in_bnd_def limb60_def)+
  then show ?thesis using sc_finish_ok a by (fastforce simp: computes_def sc_reduce32_def)
qed

lemma computesE_load:
  assumes "length s = 32"
  obtains a where "sc_load s = Some a" "within scalar_bounds a" "sc_value a = int (le_nat s)"
  using sc_load_ok [OF assms] by blast

lemma sc_add_ok:
  assumes "length a = 32" "length b = 32"
  shows "computes (sc_add a b) (int (le_nat a) + int (le_nat b))"
proof -
  obtain x y where x: "sc_load a = Some x" "within scalar_bounds x" "sc_value x = int (le_nat a)"
    and y: "sc_load b = Some y" "within scalar_bounds y" "sc_value y = int (le_nat b)"
    using assms by (metis computesE_load)
  obtain s where "limbs_op (+) x y = Some s" "within (replicate 12 limb60) s" "sc_value s = sc_value x + sc_value y"
    using limbs_op_ok [OF x(2) y(2), of "(+)"] by (auto simp: distrib_right sum.distrib)
  then show ?thesis using sc_finish_ok [of s] x y by (simp add: computes_def sc_add_def)
qed

lemma sc_sub_ok:
  assumes "length a = 32" "length b = 32"
  shows "computes (sc_sub a b) (int (le_nat a) - int (le_nat b))"
proof -
  obtain x y where x: "sc_load a = Some x" "within scalar_bounds x" "sc_value x = int (le_nat a)"
    and y: "sc_load b = Some y" "within scalar_bounds y" "sc_value y = int (le_nat b)"
    using assms by (metis computesE_load)
  obtain s where "limbs_op (-) x y = Some s" "within (replicate 12 limb60) s" "sc_value s = sc_value x - sc_value y"
    using limbs_op_ok [OF x(2) y(2), of "(-)", OF _ left_diff_distrib sum_subtractf] by fastforce
  then show ?thesis using sc_finish_ok [of s] x y by (simp add: computes_def sc_sub_def)
qed

lemma sc_mul_ok:
  assumes "length a = 32" "length b = 32"
  shows "computes (sc_mul a b) (int (le_nat a) * int (le_nat b))"
proof -
  obtain x y where x: "sc_load a = Some x" "within scalar_bounds x" "sc_value x = int (le_nat a)"
    and y: "sc_load b = Some y" "within scalar_bounds y" "sc_value y = int (le_nat b)"
    using assms by (metis computesE_load)
  obtain s where "sc_mul_limbs x y = Some s" "within (replicate 23 limb54) s" "sc_value s = sc_value x * sc_value y"
    using sc_mul_limbs_ok [OF x(2) y(2)] by auto
  then show ?thesis using sc_reduce_columns_ok [of s] x y by (simp add: computes_def sc_mul_def)
qed

lemma sc_mulacc_ok:
  assumes "length a = 32" "length b = 32" "length c = 32"
  shows "computes (sc_muladd a b c) (int (le_nat c) + int (le_nat a) * int (le_nat b))"
    and "computes (sc_mulsub a b c) (int (le_nat c) - int (le_nat a) * int (le_nat b))"
proof -
  obtain x y z where x: "sc_load a = Some x" "within scalar_bounds x" "sc_value x = int (le_nat a)"
    and y: "sc_load b = Some y" "within scalar_bounds y" "sc_value y = int (le_nat b)"
    and z: "sc_load c = Some z" "within scalar_bounds z" "sc_value z = int (le_nat c)"
    using assms by (metis computesE_load)
  obtain s where s: "sc_muladd_limbs x y z = Some s" "within (replicate 23 limb54) s" "sc_value s = sc_value z + sc_value x * sc_value y"
    using sc_mulacc_limbs_ok(1) [OF x(2) y(2) z(2)] by auto
  obtain t where t: "sc_mulsub_limbs x y z = Some t" "within (replicate 23 limb54) t" "sc_value t = sc_value z - sc_value x * sc_value y"
    using sc_mulacc_limbs_ok(2) [OF x(2) y(2) z(2)] by auto
  show "computes (sc_muladd a b c) (int (le_nat c) + int (le_nat a) * int (le_nat b))"
    using sc_reduce_columns_ok [OF s(2)] s x y z by (simp add: computes_def sc_muladd_def)
  show "computes (sc_mulsub a b c) (int (le_nat c) - int (le_nat a) * int (le_nat b))"
    using sc_reduce_columns_ok [OF t(2)] t x y z by (simp add: computes_def sc_mulsub_def)
qed

lemma computes_checks: "computes res v \<Longrightarrow> (res \<bind> sc_check) = Some 0"
  using sc_check_eq by (auto simp: computes_def sc_l_def)

section \<open>Properties\<close>

text \<open>C25: \<^verbatim>\<open>sc_reduce\<close> on any 64 bytes never overflows a signed 64-bit integer and writes the
  canonical 32-byte little-endian remainder of the input modulo the group order.\<close>

theorem sc_reduce_correct:
  assumes "length s = 64"
  shows "\<exists>r. sc_reduce s = Some r \<and> length r = 32 \<and> int (le_nat r) = int (le_nat s) mod sc_l"
  using sc_reduce_ok [OF assms] by (simp add: computes_def)

theorem sc_reduce_correct_witness:
  "length (replicate 64 (255 :: u8)) = 64 \<and> (\<exists>r. sc_reduce (replicate 64 255) = Some r \<and> length r = 32 \<and>
    int (le_nat r) = int (le_nat (replicate 64 (255 :: u8))) mod sc_l)"
  using sc_reduce_correct [of "replicate 64 255"] by simp

text \<open>C24: the scalar operations \<^verbatim>\<open>sc_reduce32\<close>, \<^verbatim>\<open>sc_add\<close>, \<^verbatim>\<open>sc_sub\<close>, \<^verbatim>\<open>sc_mul\<close>,
  \<^verbatim>\<open>sc_muladd\<close> and \<^verbatim>\<open>sc_mulsub\<close>, on arbitrary (also non-canonical) 32-byte operands, run without
  signed overflow and each returns the canonical representative of the arithmetic result modulo the group order.\<close>

theorem sc_arith_correct:
  assumes "length a = 32" "length b = 32" "length c = 32"
  shows "computes (sc_reduce32 a) (int (le_nat a)) \<and>
    computes (sc_add a b) (int (le_nat a) + int (le_nat b)) \<and>
    computes (sc_sub a b) (int (le_nat a) - int (le_nat b)) \<and>
    computes (sc_mul a b) (int (le_nat a) * int (le_nat b)) \<and>
    computes (sc_muladd a b c) (int (le_nat c) + int (le_nat a) * int (le_nat b)) \<and>
    computes (sc_mulsub a b c) (int (le_nat c) - int (le_nat a) * int (le_nat b))"
  using assms by (simp add: sc_reduce32_ok sc_add_ok sc_sub_ok sc_mul_ok sc_mulacc_ok)

theorem sc_arith_correct_witness:
  "computes (sc_muladd (replicate 32 255) (replicate 32 255) (replicate 32 7))
     (int (le_nat (replicate 32 (7 :: u8))) + int (le_nat (replicate 32 (255 :: u8))) * int (le_nat (replicate 32 (255 :: u8))))"
  using sc_arith_correct [of "replicate 32 255" "replicate 32 255" "replicate 32 7"] by (simp only: length_replicate refl simp_thms)

text \<open>C26: \<^verbatim>\<open>sc_check\<close> accepts (returns 0) exactly the canonical scalars, those below the group
  order, and none of its differences, shifts and sums overflows; \<^verbatim>\<open>sc_isnonzero\<close> is 1 exactly on the nonzero strings. On any operands,
  reduced or not, the results of \<^verbatim>\<open>sc_reduce\<close>, \<^verbatim>\<open>sc_reduce32\<close>, \<^verbatim>\<open>sc_add\<close>, \<^verbatim>\<open>sc_sub\<close>, \<^verbatim>\<open>sc_mul\<close>, \<^verbatim>\<open>sc_muladd\<close> and \<^verbatim>\<open>sc_mulsub\<close> pass
  the check.\<close>

theorem sc_check_correct:
  assumes "length s = 32" "length a = 32" "length b = 32" "length w = 64"
  shows "sc_check s = Some (if int (le_nat s) < sc_l then 0 else - 1) \<and>
    sc_isnonzero s = (if le_nat s = 0 then 0 else 1) \<and>
    (\<forall>res \<in> {sc_reduce w, sc_reduce32 s, sc_add s a, sc_sub s a, sc_mul s a, sc_muladd s a b, sc_mulsub s a b}.
       (res \<bind> sc_check) = Some 0)"
  using sc_check_eq [OF assms(1)] sc_isnonzero_eq [OF assms(1)] computes_checks [OF sc_reduce_ok [OF assms(4)]]
    computes_checks [OF sc_reduce32_ok [OF assms(1)]] computes_checks [OF sc_add_ok [OF assms(1,2)]]
    computes_checks [OF sc_sub_ok [OF assms(1,2)]] computes_checks [OF sc_mul_ok [OF assms(1,2)]]
    computes_checks [OF sc_mulacc_ok(1) [OF assms(1-3)]] computes_checks [OF sc_mulacc_ok(2) [OF assms(1-3)]] by blast

theorem sc_check_correct_witness:
  "sc_check (replicate 32 255) = Some (- 1) \<and> sc_check (replicate 32 1) = Some 0
    \<and> (sc_mulsub (replicate 32 255) (replicate 32 1) (replicate 32 2) \<bind> sc_check) = Some 0"
proof -
  let ?r = "\<lambda>b :: u8. replicate 32 b" and ?w = "replicate 64 (0 :: u8)"
  have l: "\<not> int (le_nat (?r 255)) < sc_l" "int (le_nat (?r 1)) < sc_l"
    using le_nat_replicate [of 32 "255 :: u8"] le_nat_replicate [of 32 "1 :: u8"] by (simp_all add: sc_l_def)
  have n: "length (?r b) = 32" "length ?w = 64" for b by (simp_all only: length_replicate)
  note a = sc_check_correct [OF n(1,1,1,2), of 255 1 2] and b = sc_check_correct [OF n(1,1,1,2), of 1 1 1]
  have "sc_check (?r 255) = Some (- 1)" using conjunct1 [OF a] unfolding if_not_P [OF l(1)] .
  moreover have "sc_check (?r 1) = Some 0" using conjunct1 [OF b] unfolding if_P [OF l(2)] .
  ultimately show ?thesis using a by blast
qed

text \<open>C27: decrypting a secret key with the passphrase it was encrypted with gives the key back, for every
  canonical secret key and whatever the passphrase hashes to.\<close>

theorem decrypt_encrypt_key:
  assumes "length key = 32" "sc_check key = Some 0" "length (cn_slow_hash pass) = 32"
  shows "\<exists>e. encrypt_key cn_slow_hash key pass = Some e \<and> decrypt_key cn_slow_hash e pass = Some key"
proof -
  obtain e where e: "encrypt_key cn_slow_hash key pass = Some e" "length e = 32"
    "int (le_nat e) = (int (le_nat key) + int (le_nat (cn_slow_hash pass))) mod sc_l"
    using sc_add_ok [OF assms(1,3)] by (auto simp: computes_def encrypt_key_def)
  obtain d where d: "decrypt_key cn_slow_hash e pass = Some d" "length d = 32"
    "int (le_nat d) = (int (le_nat e) - int (le_nat (cn_slow_hash pass))) mod sc_l"
    using sc_sub_ok [OF e(2) assms(3)] by (auto simp: computes_def decrypt_key_def)
  have "int (le_nat key) < sc_l" using sc_check_eq [OF assms(1)] assms(2) by (simp split: if_splits)
  then have "le_nat d = le_nat key" using d(3) unfolding e(3) by (simp add: mod_simps)
  then have "d = key" using le_nat_inj [of d key] d(2) assms(1) by simp
  then show ?thesis using e d by simp
qed

theorem decrypt_encrypt_key_witness:
  "sc_check (replicate 32 1) = Some 0 \<and> (\<exists>e. encrypt_key (\<lambda>_ :: nat. replicate 32 200) (replicate 32 1) 0 = Some e \<and>
     decrypt_key (\<lambda>_ :: nat. replicate 32 200) e 0 = Some (replicate 32 1))"
proof -
  have "int (le_nat (replicate 32 (1 :: u8))) < sc_l" using le_nat_replicate [of 32 "1 :: u8"] by (simp add: sc_l_def)
  then have "sc_check (replicate 32 1) = Some 0" by (simp add: sc_check_eq)
  then show ?thesis using decrypt_encrypt_key [of "replicate 32 1" "\<lambda>_ :: nat. replicate 32 200" 0] by simp
qed

end
