(* ===== verification/Field25519.thy ===== *)
theory Field25519
  imports Scalar25519
begin

unbundle bit_operations_syntax

text \<open>
  Arithmetic modulo \<open>p = 2^255 - 19\<close> (\<open>fe_*\<close> of \<open>src/crypto/crypto-ops.c\<close>): a field element is ten
  signed 32-bit limbs of alternately 26 and 25 bits.  Limbs are integers with the width of every
  C type checked.  As for the scalars, statements repeated for every limb are written once.
\<close>

section \<open>Limbs\<close>

type_synonym fe = "int list"

definition fe_0 :: fe where
  "fe_0 = [0, 0, 0, 0, 0, 0, 0, 0, 0, 0]"

definition fe_1 :: fe where
  "fe_1 = [1, 0, 0, 0, 0, 0, 0, 0, 0, 0]"

definition fe_add :: "fe \<Rightarrow> fe \<Rightarrow> fe option" where
  "fe_add f g = those (map (\<lambda>i. i32 (f ! i + g ! i)) [0..<10])"

text \<open>The assertion that \<open>b\<close> is 0 or 1 is no branch of the compiled code: any \<open>b\<close> gives the mask \<open>-b\<close>.\<close>

definition fe_cmov :: "fe \<Rightarrow> fe \<Rightarrow> u32 \<Rightarrow> fe option" where
  "fe_cmov f g b =
     Some (map (\<lambda>i.
       let x = (word_of_int (f ! i) :: u32) XOR word_of_int (g ! i);
           x = x AND (- b)
       in sint (word_of_int (f ! i) XOR x)) [0..<10])"

definition fe_copy :: "fe \<Rightarrow> fe" where
  "fe_copy f = map (\<lambda>i. f ! i) [0..<10]"

section \<open>Products\<close>

text \<open>
  Column \<open>k\<close> of the product: \<open>f_i g_j\<close> with \<open>i + j = k\<close> modulo 10, the factor 19 of a wrapped product
  and the factor 2 of two odd limbs precomputed in 32 bits.
\<close>

definition fe_mul_column :: "fe \<Rightarrow> fe \<Rightarrow> fe \<Rightarrow> fe \<Rightarrow> nat \<Rightarrow> int list" where
  "fe_mul_column f f_2 g g_19 k = map (\<lambda>i.
     let j = (k + 10 - i) mod 10
     in (if odd i \<and> odd j then f_2 ! i else f ! i) * (if i + j \<ge> 10 then g_19 ! j else g ! j)) [0..<10]"

definition fe_width :: "nat \<Rightarrow> nat" where
  "fe_width i = (if even i then 26 else 25)"

text \<open>\<open>carry9 = (h9 + (1<<24)) >> 25; h0 += carry9 * 19; h9 -= carry9 << 25\<close>.\<close>

definition fe_wrap :: "int list \<Rightarrow> int list option" where
  "fe_wrap h = do {
     v \<leftarrow> vec_at h 9;
     t \<leftarrow> i64 (v + 2 ^ 24);
     let carry9 = t div 2 ^ 25;
     h \<leftarrow> mul_add 0 carry9 19 h;
     c \<leftarrow> i64 (carry9 * 2 ^ 25);
     add_at 9 (- c) h }"

definition fe_carry :: "nat \<Rightarrow> int list \<Rightarrow> int list option" where
  "fe_carry i h = (if i = 9 then fe_wrap h else carry_limb (fe_width i) (2 ^ (fe_width i - 1)) i h)"

definition fe_store :: "int list \<Rightarrow> fe option" where
  "fe_store h = those (map (\<lambda>i. i32 (h ! i)) [0..<10])"

definition fe_carry_store :: "int list \<Rightarrow> fe option" where
  "fe_carry_store h = do { h \<leftarrow> ofold fe_carry [0, 4, 1, 5, 2, 6, 3, 7, 4, 8, 9, 0] h; fe_store h }"

definition fe_mul :: "fe \<Rightarrow> fe \<Rightarrow> fe option" where
  "fe_mul f g = do {
     g_19 \<leftarrow> those (map (\<lambda>j. if j = 0 then Some (g ! 0) else i32 (19 * g ! j)) [0..<10]);
     f_2 \<leftarrow> those (map (\<lambda>i. if odd i then i32 (2 * f ! i) else Some (f ! i)) [0..<10]);
     h \<leftarrow> those (map (\<lambda>k. sum64 (fe_mul_column f f_2 g g_19 k)) [0..<10]);
     fe_carry_store h }"

definition fe_neg :: "fe \<Rightarrow> fe option" where
  "fe_neg f = those (map (\<lambda>i. i32 (- (f ! i))) [0..<10])"

text \<open>Column \<open>k\<close> of the square: each pair once, \<open>i \<le> j\<close>, with the precomputed multiples of the source.\<close>

definition fe_sq_column :: "fe \<Rightarrow> fe \<Rightarrow> fe \<Rightarrow> nat \<Rightarrow> int list" where
  "fe_sq_column f f_2 f_w k = map (\<lambda>i.
     let j = (k + 10 - i) mod 10
     in if i = j then (if i < 5 then (if odd i then f_2 ! i else f ! i) * f ! i else f ! i * f_w ! i)
        else if i + j < 10 then f_2 ! i * (if odd i \<and> odd j then f_2 ! j else f ! j)
        else (if even j \<or> odd i then f_2 ! i else f ! i) * f_w ! j)
     (filter (\<lambda>i. i \<le> (k + 10 - i) mod 10) [0..<10])"

definition fe_sq_columns :: "fe \<Rightarrow> int list option" where
  "fe_sq_columns f = do {
     f_2 \<leftarrow> those (map (\<lambda>i. if i < 8 then i32 (2 * f ! i) else Some (f ! i)) [0..<10]);
     f_w \<leftarrow> those (map (\<lambda>i. if i < 5 then Some (f ! i) else i32 ((if odd i then 38 else 19) * f ! i)) [0..<10]);
     those (map (\<lambda>k. sum64 (fe_sq_column f f_2 f_w k)) [0..<10]) }"

definition fe_sq :: "fe \<Rightarrow> fe option" where
  "fe_sq f = do { h \<leftarrow> fe_sq_columns f; fe_carry_store h }"

definition fe_sq2 :: "fe \<Rightarrow> fe option" where
  "fe_sq2 f = do {
     h \<leftarrow> fe_sq_columns f;
     h \<leftarrow> those (map (\<lambda>i. i64 (h ! i + h ! i)) [0..<10]);
     fe_carry_store h }"

definition fe_sub :: "fe \<Rightarrow> fe \<Rightarrow> fe option" where
  "fe_sub f g = those (map (\<lambda>i. i32 (f ! i - g ! i)) [0..<10])"

section \<open>Bytes\<close>

text \<open>\<open>carry = h_i >> n; h_(i+1) += carry; h_i -= carry << n\<close> in 32 bits; the last carry is dropped.\<close>

definition fe_floor :: "nat \<Rightarrow> fe \<Rightarrow> fe option" where
  "fe_floor i h = do {
     let carry = h ! i div 2 ^ fe_width i;
     h \<leftarrow> (if i = 9 then Some h else do { v \<leftarrow> i32 (h ! Suc i + carry); Some (h[Suc i := v]) });
     c \<leftarrow> i32 (carry * 2 ^ fe_width i);
     v \<leftarrow> i32 (h ! i - c);
     Some (h[i := v]) }"

definition fe_pack :: "fe \<Rightarrow> bytes" where
  "fe_pack h = map word_of_int
     [h ! 0, h ! 0 div 2 ^ 8, h ! 0 div 2 ^ 16, (h ! 0 div 2 ^ 24) OR (h ! 1 * 2 ^ 2), h ! 1 div 2 ^ 6, h ! 1 div 2 ^ 14,
      (h ! 1 div 2 ^ 22) OR (h ! 2 * 2 ^ 3), h ! 2 div 2 ^ 5, h ! 2 div 2 ^ 13, (h ! 2 div 2 ^ 21) OR (h ! 3 * 2 ^ 5),
      h ! 3 div 2 ^ 3, h ! 3 div 2 ^ 11, (h ! 3 div 2 ^ 19) OR (h ! 4 * 2 ^ 6), h ! 4 div 2 ^ 2, h ! 4 div 2 ^ 10, h ! 4 div 2 ^ 18,
      h ! 5, h ! 5 div 2 ^ 8, h ! 5 div 2 ^ 16, (h ! 5 div 2 ^ 24) OR (h ! 6 * 2 ^ 1), h ! 6 div 2 ^ 7, h ! 6 div 2 ^ 15,
      (h ! 6 div 2 ^ 23) OR (h ! 7 * 2 ^ 3), h ! 7 div 2 ^ 5, h ! 7 div 2 ^ 13, (h ! 7 div 2 ^ 21) OR (h ! 8 * 2 ^ 4),
      h ! 8 div 2 ^ 4, h ! 8 div 2 ^ 12, (h ! 8 div 2 ^ 20) OR (h ! 9 * 2 ^ 6), h ! 9 div 2 ^ 2, h ! 9 div 2 ^ 10, h ! 9 div 2 ^ 18]"

definition fe_tobytes :: "fe \<Rightarrow> bytes option" where
  "fe_tobytes h = do {
     t \<leftarrow> i32 (19 * h ! 9);
     t \<leftarrow> i32 (t + 2 ^ 24);
     let q = t div 2 ^ 25;
     q \<leftarrow> ofold (\<lambda>i q. do { t \<leftarrow> i32 (h ! i + q); Some (t div 2 ^ fe_width i) }) [0..<10] q;
     t \<leftarrow> i32 (19 * q);
     v \<leftarrow> i32 (h ! 0 + t);
     h \<leftarrow> ofold fe_floor [0..<10] (h[0 := v]);
     Some (fe_pack h) }"

definition fe_load :: "(u64 \<Rightarrow> u64) \<Rightarrow> bytes \<Rightarrow> int list option" where
  "fe_load m s = do {
     h0 \<leftarrow> load_4 s 0; h1 \<leftarrow> load_3 s 4; h2 \<leftarrow> load_3 s 7; h3 \<leftarrow> load_3 s 10; h4 \<leftarrow> load_3 s 13;
     h5 \<leftarrow> load_4 s 16; h6 \<leftarrow> load_3 s 20; h7 \<leftarrow> load_3 s 23; h8 \<leftarrow> load_3 s 26; h9 \<leftarrow> load_3 s 29;
     Some [uint h0, uint (push_bit 6 h1), uint (push_bit 5 h2), uint (push_bit 3 h3), uint (push_bit 2 h4),
           uint h5, uint (push_bit 7 h6), uint (push_bit 5 h7), uint (push_bit 4 h8), uint (push_bit 2 (m h9))] }"

definition fe_from_limbs :: "int list \<Rightarrow> fe option" where
  "fe_from_limbs h = do { h \<leftarrow> ofold fe_carry [9, 1, 3, 5, 7, 0, 2, 4, 6, 8] h; fe_store h }"

text \<open>The result is \<open>None\<close> inside \<open>Some\<close> where the code returns -1.\<close>

definition fe_frombytes_vartime :: "bytes \<Rightarrow> fe option option" where
  "fe_frombytes_vartime s = do {
     h \<leftarrow> fe_load (\<lambda>w. w AND 8388607) s;
     if h ! 9 = 33554428 \<and> h ! 8 = 268435440 \<and> h ! 7 = 536870880 \<and> h ! 6 = 2147483520 \<and>
        h ! 5 = 4294967295 \<and> h ! 4 = 67108860 \<and> h ! 3 = 134217720 \<and> h ! 2 = 536870880 \<and>
        h ! 1 = 1073741760 \<and> h ! 0 \<ge> 4294967277 then Some None
     else do { y \<leftarrow> fe_from_limbs h; Some (Some y) } }"

definition fe_isnonzero :: "fe \<Rightarrow> int option" where
  "fe_isnonzero f = do {
     s \<leftarrow> fe_tobytes f;
     Some ((uint (foldr (OR) s 0) - 1) div 2 ^ 8 + 1) }"

definition fe_isnegative :: "fe \<Rightarrow> int option" where
  "fe_isnegative f = do { s \<leftarrow> fe_tobytes f; Some (uint (s ! 0 AND 1)) }"

text \<open>\<open>crypto_verify_32\<close> belongs to libsodium.\<close>

definition fe_equals :: "(bytes \<Rightarrow> bytes \<Rightarrow> int) \<Rightarrow> fe \<Rightarrow> fe \<Rightarrow> bool option" where
  "fe_equals crypto_verify_32 a b = do {
     a_bytes \<leftarrow> fe_tobytes a;
     b_bytes \<leftarrow> fe_tobytes b;
     Some (crypto_verify_32 a_bytes b_bytes = 0) }"

definition fe_reduce_vartime :: "fe \<Rightarrow> fe option option" where
  "fe_reduce_vartime f = do { f_bytes \<leftarrow> fe_tobytes f; fe_frombytes_vartime f_bytes }"

section \<open>Value and bounds\<close>

definition fe_p :: int where
  "fe_p = 2 ^ 255 - 19"

definition fe_wt :: "nat \<Rightarrow> int" where
  "fe_wt i = 2 ^ ((51 * i + 1) div 2)"

interpretation fe: positional fe_width fe_wt
proof
  show "fe_wt 0 = 1" by (simp add: fe_wt_def)
  show "fe_wt (Suc i) = 2 ^ fe_width i * fe_wt i" for i
  proof -
    have "(51 * Suc i + 1) div 2 = fe_width i + (51 * i + 1) div 2"
      by (cases "even i") (auto simp: fe_width_def elim!: evenE oddE)
    then show ?thesis by (simp add: fe_wt_def power_add)
  qed
qed

abbreviation fe_value :: "int list \<Rightarrow> int" where
  "fe_value \<equiv> limb_value fe_wt"

definition fe_unit :: "nat \<Rightarrow> int" where
  "fe_unit i = (if even i then 33889976 else 16944988)"

text \<open>\<open>k\<close> times \<open>1.01 * 2^25, 1.01 * 2^24, ...\<close>.\<close>

definition fe_bnd :: "int \<Rightarrow> fe \<Rightarrow> bool" where
  "fe_bnd k f \<longleftrightarrow> length f = 10 \<and> (\<forall>i < 10. \<bar>f ! i\<bar> \<le> k * fe_unit i)"

lemma fe_bnd_mono: "fe_bnd k f \<Longrightarrow> k \<le> k' \<Longrightarrow> fe_bnd k' f"
proof -
  assume f: "fe_bnd k f" and k: "k \<le> k'"
  have "k * fe_unit i \<le> k' * fe_unit i" for i using k by (intro mult_right_mono) (auto simp: fe_unit_def)
  then show ?thesis using f by (fastforce simp: fe_bnd_def intro: order_trans)
qed

lemma fe_unit_bounds: "0 < fe_unit i" "fe_unit i \<le> 33889976" "odd i \<Longrightarrow> fe_unit i = 16944988"
  by (simp_all add: fe_unit_def)

lemma fe_value_map: "fe_value (map h [0..<10]) = (\<Sum>i < 10. h i * fe_wt i)"
  by (simp add: limb_value_def)

lemma fe_value_sum: "fe_bnd k f \<Longrightarrow> fe_value f = (\<Sum>i < 10. f ! i * fe_wt i)"
  by (simp add: limb_value_def fe_bnd_def)

lemma fe_bnd_i32: "\<bar>x\<bar> \<le> k * fe_unit i \<Longrightarrow> k \<le> 60 \<Longrightarrow> i32 x = Some x"
proof -
  assume x: "\<bar>x\<bar> \<le> k * fe_unit i" and k: "k \<le> 60"
  have "k * fe_unit i \<le> 60 * 33889976" using k fe_unit_bounds [of i] by (intro mult_mono) auto
  then show ?thesis using x by (fastforce simp: i32_def abs_le_iff)
qed

lemma limbwise:
  assumes "\<And>i. i < 10 \<Longrightarrow> \<bar>h i\<bar> \<le> k * fe_unit i" "k \<le> 60"
  shows "those (map (\<lambda>i. i32 (h i)) [0..<10]) = Some (map h [0..<10]) \<and> fe_bnd k (map h [0..<10])"
  using assms fe_bnd_i32 [OF assms] by (intro conjI those_map_Some) (auto simp: fe_bnd_def)

lemma fe_add_ok:
  assumes "fe_bnd k f" "fe_bnd l g" "k + l \<le> 60"
  shows "\<exists>h. fe_add f g = Some h \<and> fe_bnd (k + l) h \<and> fe_value h = fe_value f + fe_value g"
proof -
  have "\<bar>f ! i + g ! i\<bar> \<le> (k + l) * fe_unit i" if "i < 10" for i
    using assms that by (fastforce simp: fe_bnd_def distrib_right)
  then show ?thesis
    unfolding fe_add_def fe_value_sum [OF assms(1)] fe_value_sum [OF assms(2)] sum.distrib [symmetric] distrib_right [symmetric]
    using limbwise [of "\<lambda>i. f ! i + g ! i", OF _ assms(3)] fe_value_map by blast
qed

lemma fe_sub_ok:
  assumes "fe_bnd k f" "fe_bnd l g" "k + l \<le> 60"
  shows "\<exists>h. fe_sub f g = Some h \<and> fe_bnd (k + l) h \<and> fe_value h = fe_value f - fe_value g"
proof -
  have "\<bar>f ! i - g ! i\<bar> \<le> (k + l) * fe_unit i" if "i < 10" for i
    using assms that by (fastforce simp: fe_bnd_def distrib_right)
  then show ?thesis
    unfolding fe_sub_def fe_value_sum [OF assms(1)] fe_value_sum [OF assms(2)] sum_subtractf [symmetric] left_diff_distrib [symmetric]
    using limbwise [of "\<lambda>i. f ! i - g ! i", OF _ assms(3)] fe_value_map by blast
qed

lemma fe_neg_ok:
  assumes "fe_bnd k f" "k \<le> 60"
  shows "\<exists>h. fe_neg f = Some h \<and> fe_bnd k h \<and> fe_value h = - fe_value f"
proof -
  have "\<bar>- (f ! i)\<bar> \<le> k * fe_unit i" if "i < 10" for i using assms that by (simp add: fe_bnd_def)
  then show ?thesis
    unfolding fe_neg_def fe_value_sum [OF assms(1)] sum_negf [symmetric] minus_mult_left
    using limbwise [of "\<lambda>i. - (f ! i)", OF _ assms(2)] fe_value_map by blast
qed

lemma fe_copy_eq: "length f = 10 \<Longrightarrow> fe_copy f = f"
  by (auto simp: fe_copy_def intro: nth_equalityI)

lemma sint_word_of_int_32: "i32 x = Some x \<Longrightarrow> sint (word_of_int x :: u32) = x"
  by (auto simp: i32_def signed_of_int signed_take_bit_int_eq_self split: if_splits)

lemma fe_cmov_eq:
  assumes "fe_bnd k f" "fe_bnd k g" "k \<le> 60"
  shows "fe_cmov f g 0 = Some f" "fe_cmov f g 1 = Some g"
proof -
  have "i32 (f ! i) = Some (f ! i)" "i32 (g ! i) = Some (g ! i)" if "i < 10" for i
    using assms that fe_bnd_i32 [of _ k i] by (auto simp: fe_bnd_def)
  note s = sint_word_of_int_32 [OF this(1)] sint_word_of_int_32 [OF this(2)]
  show "fe_cmov f g 0 = Some f" using s assms by (auto simp: fe_cmov_def fe_bnd_def intro: nth_equalityI)
  show "fe_cmov f g 1 = Some g" using s assms
    by (auto simp: fe_cmov_def fe_bnd_def xor.assoc [symmetric] intro: nth_equalityI)
qed

section \<open>Carries\<close>

definition b_wrap :: "bnd list \<Rightarrow> bnd list option" where
  "b_wrap B = do {
     b \<leftarrow> vec_at B 9;
     let t = (fst b + 2 ^ 24, snd b + 2 ^ 24);
     if fits64 t then do {
       let c = (fst t div 2 ^ 25, snd t div 2 ^ 25);
       B \<leftarrow> b_mul_add 0 c 19 B;
       if fits64 (fst c * 2 ^ 25, snd c * 2 ^ 25) then Some (B[9 := (- (2 ^ 24), 2 ^ 24 - 1)]) else None }
     else None }"

definition b_fe_carry :: "nat \<Rightarrow> bnd list \<Rightarrow> bnd list option" where
  "b_fe_carry i B = (if i = 9 then b_wrap B else b_carry (fe_width i) (2 ^ (fe_width i - 1)) i B)"

lemma b_wrap_sound:
  assumes w: "within B s" and b: "b_wrap B = Some B'"
  shows "\<exists>s'. fe_wrap s = Some s' \<and> within B' s'"
proof -
  define t where "t = (fst (B ! 9) + 2 ^ 24, snd (B ! 9) + 2 ^ 24)"
  define c where "c = (fst t div 2 ^ 25, snd t div 2 ^ 25)"
  obtain B1 where i: "9 < length B" and f: "fits64 t" "b_mul_add 0 c 19 B = Some B1" "fits64 (fst c * 2 ^ 25, snd c * 2 ^ 25)"
      "B' = B1[9 := (- (2 ^ 24), 2 ^ 24 - 1)]"
    using b by (auto simp: b_wrap_def t_def c_def Let_def bind_eq_Some_conv vec_at_eq_Some split: if_splits)
  let ?x = "s ! 9" and ?c = "(s ! 9 + 2 ^ 24) div 2 ^ 25"
  have x: "in_bnd t (?x + 2 ^ 24)" using within_nth [OF w i] by (simp add: t_def in_bnd_def)
  have c: "in_bnd c ?c" using x unfolding in_bnd_def c_def fst_conv snd_conv by (intro conjI zdiv_mono1) auto
  have cn: "in_bnd (fst c * 2 ^ 25, snd c * 2 ^ 25) (?c * 2 ^ 25)"
    using c unfolding in_bnd_def fst_conv snd_conv by (intro conjI mult_right_mono) auto
  obtain s1 where s1: "mul_add 0 ?c 19 s = Some s1" "within B1 s1" using b_mul_add_sound [OF w c _ f(2)] by auto
  have l: "length s = length B" "length s1 = length s" using within_length [OF w] mul_add_value(2) [OF s1(1)] by simp_all
  have s1i: "s1 ! 9 = ?x" using s1(1) l by (auto simp: mul_add_def add_at_def bind_eq_Some_conv vec_at_eq_Some)
  have r: "in_bnd (- (2 ^ 24), 2 ^ 24 - 1) (?x + - (?c * 2 ^ 25))"
    using carry_remainder [where r = "2 ^ 24" and x = ?x and n = 25] unfolding in_bnd_def fst_conv snd_conv by auto
  then have "i64 (?x + - (?c * 2 ^ 25)) = Some (?x + - (?c * 2 ^ 25))" by (rule fits64_i64 [rotated]) (simp add: fits64_def)
  then have "add_at 9 (- (?c * 2 ^ 25)) s1 = Some (s1[9 := ?x + - (?c * 2 ^ 25)])"
    using i l s1i by (simp add: add_at_def)
  then have "fe_wrap s = Some (s1[9 := ?x + - (?c * 2 ^ 25)])"
    using i l fits64_i64 [OF f(1) x] fits64_i64 [OF f(3) cn] s1(1) by (simp add: fe_wrap_def Let_def)
  then show ?thesis using within_update [OF s1(2) r, of 9] f(4) by auto
qed

lemma b_fe_carry_sound: "within B s \<Longrightarrow> b_fe_carry i B = Some B' \<Longrightarrow> \<exists>s'. fe_carry i s = Some s' \<and> within B' s'"
  using b_wrap_sound b_carry_sound by (auto simp: b_fe_carry_def fe_carry_def split: if_splits)

lemma fe_wrap_value:
  assumes "fe_wrap s = Some s'"
  shows "fe_value s' mod fe_p = fe_value s mod fe_p"
proof -
  obtain c s1 where c: "mul_add 0 c 19 s = Some s1" "add_at 9 (- (c * 2 ^ 25)) s1 = Some s'"
    using assms by (auto simp: fe_wrap_def i64_def Let_def bind_eq_Some_conv split: if_splits)
  have "fe_value s' = fe_value s + - c * fe_p"
    using mul_add_value(1) [OF c(1), of fe_wt] add_at_value(1) [OF c(2), of fe_wt] by (simp add: fe_wt_def fe_p_def)
  then show ?thesis by (simp only: mod_mult_self1)
qed

lemma fe_carry_value: "fe_carry i s = Some s' \<Longrightarrow> fe_value s' mod fe_p = fe_value s mod fe_p"
  using fe_wrap_value fe.carry_value(1) by (fastforce simp: fe_carry_def split: if_splits)

lemma fe_carries_value: "ofold fe_carry is s = Some s' \<Longrightarrow> fe_value s' mod fe_p = fe_value s mod fe_p"
  by (erule ofold_invariant [where I = "\<lambda>t. fe_value t mod fe_p = fe_value s mod fe_p"]) (auto simp: fe_carry_value)

definition limb62 :: bnd where "limb62 = (- (2 ^ 62), 2 ^ 62)"

definition unit_bounds :: "bnd list" where
  "unit_bounds = map (\<lambda>i. (- fe_unit i, fe_unit i)) [0..<10]"

definition inside :: "bnd list \<Rightarrow> bnd list \<Rightarrow> bool" where
  "inside A B \<longleftrightarrow> list_all2 (\<lambda>a b. fst b \<le> fst a \<and> snd a \<le> snd b) A B"

lemma within_inside: "within A s \<Longrightarrow> inside A B \<Longrightarrow> within B s"
  by (fastforce simp: within_def inside_def list_all2_conv_all_nth in_bnd_def)

lemma within_unit: "within unit_bounds s \<longleftrightarrow> fe_bnd 1 s"
  by (auto simp: within_def list_all2_conv_all_nth in_bnd_def unit_bounds_def fe_bnd_def abs_le_iff)

lemma b_fe_carry_ok:
  "case ofold b_fe_carry [0, 4, 1, 5, 2, 6, 3, 7, 4, 8, 9, 0] (replicate 10 limb62) of None \<Rightarrow> False | Some B \<Rightarrow> inside B unit_bounds"
  by code_simp

lemma fe_store_ok: "fe_bnd 1 h \<Longrightarrow> fe_store h = Some h"
proof -
  assume h: "fe_bnd 1 h"
  then have "map ((!) h) [0..<10] = h" by (auto simp: fe_bnd_def intro: nth_equalityI)
  then show ?thesis using limbwise [of "\<lambda>i. h ! i" 1] h by (auto simp: fe_store_def fe_bnd_def)
qed

lemma fe_carry_store_ok:
  assumes "within (replicate 10 limb62) h"
  shows "\<exists>r. fe_carry_store h = Some r \<and> fe_bnd 1 r \<and> fe_value r mod fe_p = fe_value h mod fe_p"
proof -
  obtain B where B: "ofold b_fe_carry [0, 4, 1, 5, 2, 6, 3, 7, 4, 8, 9, 0] (replicate 10 limb62) = Some B" "inside B unit_bounds"
    using b_fe_carry_ok by (auto simp del: ofold.simps split: option.splits)
  obtain r where r: "ofold fe_carry [0, 4, 1, 5, 2, 6, 3, 7, 4, 8, 9, 0] h = Some r" "within B r"
    using ofold_sound [OF assms B(1), of fe_carry] b_fe_carry_sound by blast
  have u: "fe_bnd 1 r" using within_inside [OF r(2) B(2)] by (simp add: within_unit)
  then have "fe_carry_store h = Some r" unfolding fe_carry_store_def r(1) bind.bind_lunit by (rule fe_store_ok)
  then show ?thesis using u fe_carries_value [OF r(1)] by blast
qed

section \<open>Multiplication\<close>

lemma fe_wt_mult:
  assumes "i < 10" "j < 10"
  shows "fe_wt i * fe_wt j = (if odd i \<and> odd j then 2 else 1) * (if 10 \<le> i + j then 2 ^ 255 else 1) * fe_wt ((i + j) mod 10)"
proof -
  have "(51 * i + 1) div 2 + (51 * j + 1) div 2 =
      (if odd i \<and> odd j then 1 else 0) + (if 10 \<le> i + j then 255 else 0) + (51 * ((i + j) mod 10) + 1) div 2"
  proof -
    have m: "(i + j) mod 10 = (if 10 \<le> i + j then i + j - 10 else i + j)" using assms by (simp add: mod_if)
    have h: "(51 + 102 * x) div 2 = 25 + 51 * x" "51 * (2 * x + 2 * y - 8) div 2 = 51 * (x + y - 4)" for x y :: nat
    proof -
      have "51 + 102 * x = 2 * (25 + 51 * x) + 1" "51 * (2 * x + 2 * y - 8) = 2 * (51 * (x + y - 4))" by simp_all
      then show "(51 + 102 * x) div 2 = 25 + 51 * x" "51 * (2 * x + 2 * y - 8) div 2 = 51 * (x + y - 4)" by simp_all
    qed
    show ?thesis unfolding m using assms by (cases "even i"; cases "even j") (auto elim!: evenE oddE simp: h)
  qed
  then have "fe_wt i * fe_wt j = 2 ^ (if odd i \<and> odd j then 1 else 0) * 2 ^ (if 10 \<le> i + j then 255 else 0) * fe_wt ((i + j) mod 10)"
    unfolding fe_wt_def power_add [symmetric] by (rule arg_cong)
  then show ?thesis by (simp only: if_distrib [of "power 2"] power_0 power_one_right)
qed

definition fe_term :: "fe \<Rightarrow> fe \<Rightarrow> nat \<Rightarrow> nat \<Rightarrow> int" where
  "fe_term f g i j = (if odd i \<and> odd j then 2 else 1) * (if 10 \<le> i + j then 19 else 1) * (f ! i * g ! j)"

lemma fe_term_value:
  assumes "i < 10" "j < 10"
  shows "(fe_term f g i j * fe_wt ((i + j) mod 10)) mod fe_p = ((f ! i * fe_wt i) * (g ! j * fe_wt j)) mod fe_p"
proof -
  let ?c = "(if odd i \<and> odd j then 2 else 1) * (f ! i * g ! j) * fe_wt ((i + j) mod 10)"
  have "(f ! i * fe_wt i) * (g ! j * fe_wt j) = f ! i * g ! j * (fe_wt i * fe_wt j)" by (simp add: algebra_simps)
  also have "\<dots> = (if 10 \<le> i + j then 2 ^ 255 else 1) * ?c" unfolding fe_wt_mult [OF assms] by (simp add: algebra_simps)
  also have "\<dots> = fe_term f g i j * fe_wt ((i + j) mod 10) + (if 10 \<le> i + j then ?c else 0) * fe_p"
    by (simp add: fe_term_def fe_p_def algebra_simps)
  finally show ?thesis by (simp only: mod_mult_self1)
qed

lemma rotate_sum:
  fixes i :: nat
  assumes "i < 10"
  shows "(\<Sum>k < 10. h ((k + 10 - i) mod 10) k) = (\<Sum>j < 10. h j ((i + j) mod 10) :: int)"
proof (rule sum.reindex_bij_witness [where i = "\<lambda>j. (i + j) mod 10" and j = "\<lambda>k. (k + 10 - i) mod 10"])
  show "(i + (k + 10 - i) mod 10) mod 10 = k" if "k \<in> {..<10}" for k
    using that assms by (simp add: mod_add_right_eq)
  show "((i + j) mod 10 + 10 - i) mod 10 = j" if "j \<in> {..<10}" for j
  proof (cases "i + j < 10")
    case False
    then have "(i + j) mod 10 = i + j - 10" using that assms by (simp add: mod_if)
    then show ?thesis using that assms False by simp
  qed (use that in simp)
qed (use assms in \<open>auto simp: mod_add_right_eq\<close>)

lemma fe_columns_value:
  "(\<Sum>k < 10. (\<Sum>i < 10. fe_term f g i ((k + 10 - i) mod 10)) * fe_wt k) mod fe_p
    = ((\<Sum>i < 10. f ! i * fe_wt i) * (\<Sum>j < 10. g ! j * fe_wt j)) mod fe_p"
proof -
  have "(\<Sum>k < 10. (\<Sum>i < 10. fe_term f g i ((k + 10 - i) mod 10)) * fe_wt k)
      = (\<Sum>i < 10. \<Sum>k < 10. fe_term f g i ((k + 10 - i) mod 10) * fe_wt k)"
    unfolding sum_distrib_right by (rule sum.swap)
  also have "\<dots> = (\<Sum>i < 10. \<Sum>j < 10. fe_term f g i j * fe_wt ((i + j) mod 10))"
    by (rule sum.cong [OF refl]) (rule rotate_sum, simp)
  also have "\<dots> mod fe_p = (\<Sum>i < 10. (\<Sum>j < 10. fe_term f g i j * fe_wt ((i + j) mod 10) mod fe_p) mod fe_p) mod fe_p"
    unfolding mod_sum_eq ..
  also have "\<dots> = (\<Sum>i < 10. (\<Sum>j < 10. (f ! i * fe_wt i) * (g ! j * fe_wt j) mod fe_p) mod fe_p) mod fe_p"
    by (rule arg_cong [where f = "\<lambda>x. x mod fe_p"], rule sum.cong [OF refl], rule arg_cong [where f = "\<lambda>x. x mod fe_p"], rule sum.cong [OF refl])
      (simp only: lessThan_iff fe_term_value)
  also have "\<dots> = (\<Sum>i < 10. \<Sum>j < 10. (f ! i * fe_wt i) * (g ! j * fe_wt j)) mod fe_p"
    unfolding mod_sum_eq ..
  also have "\<dots> = ((\<Sum>i < 10. f ! i * fe_wt i) * (\<Sum>j < 10. g ! j * fe_wt j)) mod fe_p"
    unfolding sum_product ..
  finally show ?thesis .
qed


lemma fe_bnd_limb:
  assumes "fe_bnd 3 f" "i < 10"
  shows "\<bar>f ! i\<bar> \<le> 101669928" "odd i \<Longrightarrow> \<bar>f ! i\<bar> \<le> 50834964"
  using assms fe_unit_bounds [of i] by (fastforce simp: fe_bnd_def)+

lemma abs_mult_le: "\<bar>x\<bar> \<le> a \<Longrightarrow> \<bar>y\<bar> \<le> b \<Longrightarrow> \<bar>x * y\<bar> \<le> a * (b::int)"
  unfolding abs_mult by (rule mult_mono) auto

lemma fe_sum_ok:
  assumes c: "\<And>k. k < 10 \<Longrightarrow> sum64 (c k) = Some (\<Sum>i < 10. fe_term f g i ((k + 10 - i) mod 10))"
    and f: "fe_bnd 3 f" and g: "fe_bnd 3 g"
  shows "\<exists>h. those (map (\<lambda>k. sum64 (c k)) [0..<10]) = Some h \<and> within (replicate 10 (- (2 ^ 61), 2 ^ 61)) h
    \<and> fe_value h mod fe_p = (fe_value f * fe_value g) mod fe_p"
proof -
  let ?h = "\<lambda>k. \<Sum>i < 10. fe_term f g i ((k + 10 - i) mod 10)"
  have t: "\<bar>fe_term f g i j\<bar> \<le> 19 * (101669928 * 101669928)" if "i < 10" "j < 10" for i j
  proof -
    have "\<bar>(if odd i \<and> odd j then 2 else 1) * (f ! i)\<bar> \<le> 101669928" using fe_bnd_limb [OF f that(1)] by auto
    moreover have "\<bar>(if 10 \<le> i + j then 19 else 1) * (g ! j)\<bar> \<le> 19 * 101669928" using fe_bnd_limb [OF g that(2)] by auto
    ultimately have "\<bar>(if odd i \<and> odd j then 2 else 1) * (f ! i) * ((if 10 \<le> i + j then 19 else 1) * (g ! j))\<bar> \<le> 101669928 * (19 * 101669928)"
      by (rule abs_mult_le)
    then show ?thesis by (simp only: fe_term_def ac_simps)
  qed
  have "\<bar>?h k\<bar> \<le> (\<Sum>i < (10::nat). 19 * (101669928 * 101669928))" if "k < 10" for k
    by (rule order_trans [OF sum_abs sum_mono]) (use t in auto)
  then have "within (replicate 10 (- (2 ^ 61), 2 ^ 61)) (map ?h [0..<10])"
    by (intro within_replicateI) (fastforce simp: in_bnd_def abs_le_iff)+
  moreover have "those (map (\<lambda>k. sum64 (c k)) [0..<10]) = Some (map ?h [0..<10])"
    using c by (intro those_map_Some) simp
  moreover have "fe_value (map ?h [0..<10]) mod fe_p = (fe_value f * fe_value g) mod fe_p"
    unfolding fe_value_map fe_value_sum [OF f] fe_value_sum [OF g] by (rule fe_columns_value)
  ultimately show ?thesis by blast
qed

lemma fe_mul_ok:
  assumes f: "fe_bnd 3 f" and g: "fe_bnd 3 g"
  shows "\<exists>h. fe_mul f g = Some h \<and> fe_bnd 1 h \<and> fe_value h mod fe_p = (fe_value f * fe_value g) mod fe_p"
proof -
  let ?g = "map (\<lambda>j. if j = 0 then g ! 0 else 19 * g ! j) [0..<10]" and ?f = "map (\<lambda>i. if odd i then 2 * f ! i else f ! i) [0..<10]"
  note bf = fe_bnd_limb [OF f] and bg = fe_bnd_limb [OF g]
  have g19: "those (map (\<lambda>j. if j = 0 then Some (g ! 0) else i32 (19 * g ! j)) [0..<10]) = Some ?g"
    by (rule those_map_Some) (use bg(1) in \<open>fastforce simp: i32_def abs_le_iff\<close>)
  have f2: "those (map (\<lambda>i. if odd i then i32 (2 * f ! i) else Some (f ! i)) [0..<10]) = Some ?f"
    by (rule those_map_Some) (use bf(1) in \<open>fastforce simp: i32_def abs_le_iff\<close>)
  have "sum64 (fe_mul_column f ?f g ?g k) = Some (\<Sum>i < 10. fe_term f g i ((k + 10 - i) mod 10))" if "k < 10" for k
  proof -
    have e: "fe_mul_column f ?f g ?g k = map (\<lambda>i. fe_term f g i ((k + 10 - i) mod 10)) [0..<10]"
      unfolding fe_mul_column_def fe_term_def by (rule map_cong) (auto simp: Let_def)
    have "\<bar>fe_term f g i ((k + 10 - i) mod 10)\<bar> \<le> 38 * (101669928 * 101669928)" if "i < 10" for i
    proof -
      have "\<bar>f ! i * g ! ((k + 10 - i) mod 10)\<bar> \<le> 101669928 * 101669928" using bf(1) bg(1) that by (intro abs_mult_le) auto
      then show ?thesis by (auto simp: fe_term_def abs_mult)
    qed
    then have "\<forall>x \<in> set (fe_mul_column f ?f g ?g k). \<bar>x\<bar> \<le> 38 * (101669928 * 101669928)" unfolding e by simp
    then have "sum64 (fe_mul_column f ?f g ?g k) = Some (sum_list (fe_mul_column f ?f g ?g k))"
      by (rule sum64_bounded) (simp_all add: e)
    then show ?thesis unfolding e by (simp add: sum_list_distinct_conv_sum_set atLeast0LessThan del: upt_Suc)
  qed
  from fe_sum_ok [OF this f g] obtain h where h: "those (map (\<lambda>k. sum64 (fe_mul_column f ?f g ?g k)) [0..<10]) = Some h"
      "within (replicate 10 (- (2 ^ 61), 2 ^ 61)) h" "fe_value h mod fe_p = (fe_value f * fe_value g) mod fe_p" by blast
  have "within (replicate 10 limb62) h" by (rule within_inside [OF h(2)]) (simp add: inside_def list_all2_conv_all_nth limb62_def)
  from fe_carry_store_ok [OF this] h show ?thesis unfolding fe_mul_def g19 f2 bind.bind_lunit h(1) by simp
qed


text \<open>The two columns of a square.\<close>

lemma upt_10: "[0..<10] = [0, 1, 2, 3, 4, 5, 6, 7, 8, 9 :: nat]"
  by (simp add: upt_rec)

lemma sum_upto_10: "(\<Sum>i < (10::nat). f i) = (f 0 + f 1 + f 2 + f 3 + f 4 + f 5 + f 6 + f 7 + f 8 + f 9 :: int)"
  by (simp add: eval_nat_numeral)

lemma less_10_cases: "k < (10::nat) \<Longrightarrow> k \<in> {0, 1, 2, 3, 4, 5, 6, 7, 8, 9}"
  by auto

lemma fe_sq_column_sum:
  assumes "k < 10"
  shows "sum_list (fe_sq_column f (map (\<lambda>i. if i < 8 then 2 * f ! i else f ! i) [0..<10])
      (map (\<lambda>i. if i < 5 then f ! i else (if odd i then 38 else 19) * f ! i) [0..<10]) k)
    = (\<Sum>i < 10. fe_term f f i ((k + 10 - i) mod 10))"
  using less_10_cases [OF assms] unfolding insert_iff empty_iff
  by (elim disjE) (simp_all add: fe_sq_column_def upt_10 sum_upto_10 fe_term_def)


lemma abs_i32: "\<bar>x\<bar> \<le> 19 * 101669928 \<Longrightarrow> i32 x = Some x"
  by (auto simp: i32_def abs_le_iff)

lemma fe_sq_column_bound:
  assumes f: "\<And>i. i < 10 \<Longrightarrow> \<bar>f ! i\<bar> \<le> a" and f2: "\<And>i. i < 10 \<Longrightarrow> \<bar>f_2 ! i\<bar> \<le> 2 * a" and w: "\<And>i. i < 10 \<Longrightarrow> \<bar>f_w ! i\<bar> \<le> 19 * a"
    and x: "x \<in> set (fe_sq_column f f_2 f_w k)"
  shows "\<bar>x\<bar> \<le> 2 * a * (19 * a)"
proof -
  have a: "0 \<le> a" using f [of 0] by simp
  have p: "\<bar>u * v\<bar> \<le> 2 * a * (19 * a)" if "\<bar>u\<bar> \<le> 2 * a" "\<bar>v\<bar> \<le> 19 * a" for u v using that by (rule abs_mult_le)
  have f': "\<bar>f ! i\<bar> \<le> 2 * a" "\<bar>f ! i\<bar> \<le> 19 * a" "\<bar>f_2 ! i\<bar> \<le> 19 * a" if "i < 10" for i
    using f [OF that] f2 [OF that] a by linarith+
  obtain i where i: "i < 10" and x': "x = (let j = (k + 10 - i) mod 10
     in if i = j then (if i < 5 then (if odd i then f_2 ! i else f ! i) * f ! i else f ! i * f_w ! i)
        else if i + j < 10 then f_2 ! i * (if odd i \<and> odd j then f_2 ! j else f ! j)
        else (if even j \<or> odd i then f_2 ! i else f ! i) * f_w ! j)"
    using x by (auto simp: fe_sq_column_def)
  obtain j where j: "j = (k + 10 - i) mod 10" "j < 10" by simp
  show ?thesis
    unfolding x' Let_def j(1) [symmetric]
    by (simp only: split: if_split) (intro conjI impI; rule p; rule f2 w f'; rule i j(2))
qed

lemma fe_sq_column_length: "length (fe_sq_column f f_2 f_w k) \<le> 10"
  unfolding fe_sq_column_def length_map by (rule order_trans [OF length_filter_le]) simp

lemma fe_sq_columns_ok:
  assumes f: "fe_bnd 3 f"
  shows "\<exists>h. fe_sq_columns f = Some h \<and> within (replicate 10 (- (2 ^ 61), 2 ^ 61)) h
    \<and> fe_value h mod fe_p = (fe_value f * fe_value f) mod fe_p"
proof -
  let ?f = "map (\<lambda>i. if i < 8 then 2 * f ! i else f ! i) [0..<10]"
    and ?w = "map (\<lambda>i. if i < 5 then f ! i else (if odd i then 38 else 19) * f ! i) [0..<10]"
  note b = fe_bnd_limb [OF f]
  have f2: "those (map (\<lambda>i. if i < 8 then i32 (2 * f ! i) else Some (f ! i)) [0..<10]) = Some ?f"
    by (rule those_map_Some) (use b(1) in \<open>fastforce simp: i32_def abs_le_iff\<close>)
  have bf: "\<bar>?f ! i\<bar> \<le> 2 * 101669928" and bw: "\<bar>?w ! i\<bar> \<le> 19 * 101669928" if "i < 10" for i
  proof -
    have e: "?f ! i = (if i < 8 then 2 * f ! i else f ! i)" "?w ! i = (if i < 5 then f ! i else (if odd i then 38 else 19) * f ! i)"
      using that by simp_all
    show "\<bar>?f ! i\<bar> \<le> 2 * 101669928" unfolding e using b(1) [OF that] by (auto simp: abs_le_iff)
    show "\<bar>?w ! i\<bar> \<le> 19 * 101669928" unfolding e using b(1) [OF that] b(2) [OF that] by (cases "odd i") (auto simp: abs_le_iff)
  qed
  have fw: "those (map (\<lambda>i. if i < 5 then Some (f ! i) else i32 ((if odd i then 38 else 19) * f ! i)) [0..<10]) = Some ?w"
  proof (rule those_map_Some)
    fix i :: nat assume "i \<in> set [0..<10]"
    then have i: "i < 10" by simp
    then have "?w ! i = (if i < 5 then f ! i else (if odd i then 38 else 19) * f ! i)" by simp
    from abs_i32 [OF bw [OF i], unfolded this]
    show "(if i < 5 then Some (f ! i) else i32 ((if odd i then 38 else 19) * f ! i)) = Some (if i < 5 then f ! i else (if odd i then 38 else 19) * f ! i)"
      by (cases "i < 5") simp_all
  qed
  have "sum64 (fe_sq_column f ?f ?w k) = Some (\<Sum>i < 10. fe_term f f i ((k + 10 - i) mod 10))" if "k < 10" for k
  proof -
    have "\<forall>x \<in> set (fe_sq_column f ?f ?w k). \<bar>x\<bar> \<le> 2 * 101669928 * (19 * 101669928)"
      using fe_sq_column_bound [OF b(1) bf bw] by blast
    then have "sum64 (fe_sq_column f ?f ?w k) = Some (sum_list (fe_sq_column f ?f ?w k))"
    proof (rule sum64_bounded)
      have "int (length (fe_sq_column f ?f ?w k)) \<le> 10" using fe_sq_column_length [of f ?f ?w k] by linarith
      then show "int (length (fe_sq_column f ?f ?w k)) * (2 * 101669928 * (19 * 101669928)) < 2 ^ 63" by simp
    qed simp
    then show ?thesis unfolding fe_sq_column_sum [OF that] .
  qed
  from fe_sum_ok [OF this f f] show ?thesis unfolding fe_sq_columns_def f2 fw bind.bind_lunit by blast
qed

lemma fe_sq_ok:
  assumes f: "fe_bnd 3 f"
  shows "\<exists>h. fe_sq f = Some h \<and> fe_bnd 1 h \<and> fe_value h mod fe_p = (fe_value f * fe_value f) mod fe_p"
proof -
  obtain h where h: "fe_sq_columns f = Some h" "within (replicate 10 (- (2 ^ 61), 2 ^ 61)) h"
    "fe_value h mod fe_p = (fe_value f * fe_value f) mod fe_p" using fe_sq_columns_ok [OF f] by blast
  have "within (replicate 10 limb62) h" by (rule within_inside [OF h(2)]) (simp add: inside_def list_all2_conv_all_nth limb62_def)
  from fe_carry_store_ok [OF this] h show ?thesis unfolding fe_sq_def h(1) bind.bind_lunit by simp
qed

lemma fe_sq2_ok:
  assumes f: "fe_bnd 3 f"
  shows "\<exists>h. fe_sq2 f = Some h \<and> fe_bnd 1 h \<and> fe_value h mod fe_p = (2 * (fe_value f * fe_value f)) mod fe_p"
proof -
  obtain h where h: "fe_sq_columns f = Some h" "within (replicate 10 (- (2 ^ 61), 2 ^ 61)) h"
    "fe_value h mod fe_p = (fe_value f * fe_value f) mod fe_p" using fe_sq_columns_ok [OF f] by blast
  have b: "- (2 ^ 61) \<le> h ! i \<and> h ! i \<le> 2 ^ 61" if "i < 10" for i
    using within_nth [OF h(2), of i] that by (simp add: in_bnd_def)
  have l: "length h = 10" using within_length [OF h(2)] by simp
  let ?h = "map (\<lambda>i. h ! i + h ! i) [0..<10]"
  have d: "those (map (\<lambda>i. i64 (h ! i + h ! i)) [0..<10]) = Some ?h"
    by (rule those_map_Some) (use b in \<open>fastforce simp: i64_def\<close>)
  have "within (replicate 10 limb62) ?h"
    by (rule within_replicateI) (use b in \<open>fastforce simp: in_bnd_def limb62_def\<close>)+
  from fe_carry_store_ok [OF this] obtain r where r: "fe_carry_store ?h = Some r" "fe_bnd 1 r"
    "fe_value r mod fe_p = fe_value ?h mod fe_p" by blast
  have "fe_value ?h = 2 * fe_value h"
    unfolding fe_value_map by (simp add: limb_value_def l sum_distrib_left algebra_simps)
  then have "fe_value r mod fe_p = (2 * (fe_value f * fe_value f)) mod fe_p"
    using r(3) h(3) mod_mult_right_eq [of 2 "fe_value h" fe_p] mod_mult_right_eq [of 2 "fe_value f * fe_value f" fe_p] by simp
  then show ?thesis unfolding fe_sq2_def h(1) bind.bind_lunit d using r by simp
qed


section \<open>Canonical bytes\<close>

lemma fe_pack_high:
  assumes x: "\<And>i. i < 10 \<Longrightarrow> 0 \<le> h ! i \<and> h ! i < 2 ^ fe_width i"
  shows "byte_value [h ! 5, h ! 5 div 2 ^ 8, h ! 5 div 2 ^ 16, (h ! 5 div 2 ^ 24) OR (h ! 6 * 2 ^ 1), h ! 6 div 2 ^ 7, h ! 6 div 2 ^ 15,
      (h ! 6 div 2 ^ 23) OR (h ! 7 * 2 ^ 3), h ! 7 div 2 ^ 5, h ! 7 div 2 ^ 13, (h ! 7 div 2 ^ 21) OR (h ! 8 * 2 ^ 4),
      h ! 8 div 2 ^ 4, h ! 8 div 2 ^ 12, (h ! 8 div 2 ^ 20) OR (h ! 9 * 2 ^ 6), h ! 9 div 2 ^ 2, h ! 9 div 2 ^ 10, h ! 9 div 2 ^ 18]
    = h ! 5 + 2 ^ 25 * h ! 6 + 2 ^ 51 * h ! 7 + 2 ^ 76 * h ! 8 + 2 ^ 102 * h ! 9"
proof -
  have hi: "0 \<le> h ! i div 2 ^ a" "h ! i div 2 ^ a < 2 ^ (fe_width i - a)" if "i < 10" "a \<le> fe_width i" for i a
    using top_bits [of "h ! i" a "fe_width i - a"] x [OF that(1)] that(2) by simp_all
  have "byte_value [h ! 9 div 2 ^ 18] = h ! 9 div 262144 + 0"
    using pack_last [of "h ! 9 div 2 ^ 18" "[]"] hi [of 9 18] by (simp add: fe_width_def)
  note t = pack_3 [where c = 6, simplified, OF this hi [of 8 20, unfolded fe_width_def, simplified]]
  note t = pack_3 [where c = 4, simplified, OF t hi [of 7 21, unfolded fe_width_def, simplified]]
  note t = pack_3 [where c = 3, simplified, OF t hi [of 6 23, unfolded fe_width_def, simplified]]
  note t = pack_3 [where c = 1, simplified, OF t hi [of 5 24, unfolded fe_width_def, simplified]]
  note t = pack_3_0 [simplified, OF t]
  from t show ?thesis by simp
qed

lemma fe_pack_low:
  assumes x: "\<And>i. i < 10 \<Longrightarrow> 0 \<le> h ! i \<and> h ! i < 2 ^ fe_width i"
  shows "byte_value (h ! 0 # h ! 0 div 2 ^ 8 # h ! 0 div 2 ^ 16 # ((h ! 0 div 2 ^ 24) OR (h ! 1 * 2 ^ 2)) # h ! 1 div 2 ^ 6 # h ! 1 div 2 ^ 14 #
      ((h ! 1 div 2 ^ 22) OR (h ! 2 * 2 ^ 3)) # h ! 2 div 2 ^ 5 # h ! 2 div 2 ^ 13 # ((h ! 2 div 2 ^ 21) OR (h ! 3 * 2 ^ 5)) #
      h ! 3 div 2 ^ 3 # h ! 3 div 2 ^ 11 # ((h ! 3 div 2 ^ 19) OR (h ! 4 * 2 ^ 6)) # h ! 4 div 2 ^ 2 # h ! 4 div 2 ^ 10 # h ! 4 div 2 ^ 18 # tail)
    = h ! 0 + 2 ^ 26 * h ! 1 + 2 ^ 51 * h ! 2 + 2 ^ 77 * h ! 3 + 2 ^ 102 * h ! 4 + 2 ^ 128 * byte_value tail"
proof -
  have hi: "0 \<le> h ! i div 2 ^ a" "h ! i div 2 ^ a < 2 ^ (fe_width i - a)" if "i < 10" "a \<le> fe_width i" for i a
    using top_bits [of "h ! i" a "fe_width i - a"] x [OF that(1)] that(2) by simp_all
  note t = pack_last [OF hi [of 4 18, unfolded fe_width_def, simplified], of tail]
  note t = pack_3 [where c = 6, simplified, OF t hi [of 3 19, unfolded fe_width_def, simplified]]
  note t = pack_3 [where c = 5, simplified, OF t hi [of 2 21, unfolded fe_width_def, simplified]]
  note t = pack_3 [where c = 3, simplified, OF t hi [of 1 22, unfolded fe_width_def, simplified]]
  note t = pack_3 [where c = 2, simplified, OF t hi [of 0 24, unfolded fe_width_def, simplified]]
  note t = pack_3_0 [simplified, OF t]
  from t show ?thesis by simp
qed

lemma fe_pack_value:
  assumes l: "length h = 10" and x: "\<And>i. i < 10 \<Longrightarrow> 0 \<le> h ! i \<and> h ! i < 2 ^ fe_width i"
  shows "int (le_nat (fe_pack h)) = fe_value h"
proof -
  have "fe_value h = h ! 0 + h ! 1 * 2 ^ 26 + h ! 2 * 2 ^ 51 + h ! 3 * 2 ^ 77 + h ! 4 * 2 ^ 102 + h ! 5 * 2 ^ 128
      + h ! 6 * 2 ^ 153 + h ! 7 * 2 ^ 179 + h ! 8 * 2 ^ 204 + h ! 9 * 2 ^ 230"
    unfolding limb_value_def l by (simp only: sum_upto_10 fe_wt_def) simp
  then show ?thesis
    unfolding fe_pack_def le_nat_word_of_int by (simp only: fe_pack_low [of h, OF x] fe_pack_high [of h, OF x]) simp
qed


lemma fe_bnd_3: "fe_bnd 3 h \<Longrightarrow> i < 10 \<Longrightarrow> \<bar>h ! i\<bar> \<le> 101669928"
  using fe_unit_bounds [of i] by (fastforce simp: fe_bnd_def)

lemma fe_width_bounds: "(2::int) ^ 25 \<le> 2 ^ fe_width i" "(2::int) ^ fe_width i \<le> 2 ^ 26"
  by (simp_all add: fe_width_def)

lemma div_width:
  fixes x m :: int
  assumes "\<bar>x\<bar> \<le> 2 ^ 25 * m"
  shows "\<bar>x div 2 ^ fe_width i\<bar> \<le> m"
proof -
  have "0 \<le> (2::int) ^ 25 * m" using assms by linarith
  then have m: "0 \<le> m" by simp
  then have "2 ^ 25 * m \<le> 2 ^ fe_width i * m" using fe_width_bounds(1) by (intro mult_right_mono) auto
  then have "x \<le> 2 ^ fe_width i * m" "2 ^ fe_width i * (- m) \<le> x" using assms by (simp_all only: abs_le_iff mult_minus_right) linarith+
  then have "x div 2 ^ fe_width i \<le> 2 ^ fe_width i * m div 2 ^ fe_width i" "2 ^ fe_width i * (- m) div 2 ^ fe_width i \<le> x div 2 ^ fe_width i"
    by (intro zdiv_mono1; simp)+
  then have "x div 2 ^ fe_width i \<le> m" "- m \<le> x div 2 ^ fe_width i" by (simp_all only: nonzero_mult_div_cancel_left power_not_zero zero_neq_numeral [symmetric] not_False_eq_True)
  then show ?thesis by (simp add: abs_le_iff)
qed

lemma fe_quotient:
  assumes h: "fe_bnd 3 h" and q: "\<bar>q\<bar> \<le> 2 ^ 26" and n: "n \<le> 10"
  shows "ofold (\<lambda>i q. do { t \<leftarrow> i32 (h ! i + q); Some (t div 2 ^ fe_width i) }) [0..<n] q = Some ((fe_value (take n h) + q) div fe_wt n)
    \<and> \<bar>(fe_value (take n h) + q) div fe_wt n\<bar> \<le> 2 ^ 26"
  using n
proof (induction n)
  case 0
  then show ?case using q by (simp add: fe_wt_def)
next
  case (Suc n)
  let ?q = "(fe_value (take n h) + q) div fe_wt n" and ?q' = "(fe_value (take (Suc n) h) + q) div fe_wt (Suc n)"
  have n: "n < length h" and t: "\<bar>h ! n + ?q\<bar> \<le> 2 ^ 25 * 8"
    using Suc h fe_bnd_3 [OF h, of n] by (simp_all add: fe_bnd_def) linarith
  have "fe_value (take (Suc n) h) + q = fe_value (take n h) + q + h ! n * fe_wt n"
    using n by (simp add: take_Suc_conv_app_nth limb_value_snoc)
  then have "h ! n + ?q = (fe_value (take (Suc n) h) + q) div fe_wt n"
    using div_mult_self1 [of "fe_wt n" "fe_value (take n h) + q" "h ! n"] fe.wt_pos [of n] by (simp only: add.commute)
  then have e: "(h ! n + ?q) div 2 ^ fe_width n = ?q'"
    using fe.wt_pos [of n] by (simp add: fe.wt_Suc mult.commute zdiv_zmult2_eq)
  have "i32 (h ! n + ?q) = Some (h ! n + ?q)" using t by (auto simp: i32_def abs_le_iff)
  moreover have "\<bar>?q'\<bar> \<le> 2 ^ 26" using div_width [OF t, of n] unfolding e by simp
  ultimately show ?case using Suc e by (simp add: ofold_append)
qed

text \<open>The floor carries leave the digits of the value.\<close>

definition fe_floored :: "int \<Rightarrow> nat \<Rightarrow> fe \<Rightarrow> bool" where
  "fe_floored V n s \<longleftrightarrow> length s = 10 \<and> fe_value s = V \<and> (\<forall>i < n. 0 \<le> s ! i \<and> s ! i < 2 ^ fe_width i) \<and>
     (\<forall>i < 10. n < i \<longrightarrow> \<bar>s ! i\<bar> \<le> 101669928) \<and> \<bar>s ! n\<bar> \<le> 2 ^ 25 * 32"

lemma fe_floor_parts:
  assumes "\<bar>x\<bar> \<le> 2 ^ 25 * 32"
  shows "i32 (x div 2 ^ fe_width i * 2 ^ fe_width i) = Some (x div 2 ^ fe_width i * 2 ^ fe_width i)"
    "i32 (x - x div 2 ^ fe_width i * 2 ^ fe_width i) = Some (x mod 2 ^ fe_width i)"
proof -
  have m: "x - x div 2 ^ fe_width i * 2 ^ fe_width i = x mod 2 ^ fe_width i" by (simp add: minus_div_mult_eq_mod)
  define r where "r = x mod 2 ^ fe_width i"
  have r: "0 \<le> r" "r < 2 ^ 26" using fe_width_bounds(2) [of i] pos_mod_bound [of "2 ^ fe_width i" x] by (simp_all add: r_def del: pos_mod_bound)
  then show "i32 (x - x div 2 ^ fe_width i * 2 ^ fe_width i) = Some (x mod 2 ^ fe_width i)"
    unfolding m r_def [symmetric] by (simp add: i32_def)
  have "x div 2 ^ fe_width i * 2 ^ fe_width i = x - r" unfolding r_def by (rule minus_mod_eq_div_mult [symmetric])
  then show "i32 (x div 2 ^ fe_width i * 2 ^ fe_width i) = Some (x div 2 ^ fe_width i * 2 ^ fe_width i)"
    using r assms by (simp add: i32_def abs_le_iff)
qed

lemma fe_floor_step:
  assumes s: "fe_floored V n s" and n: "n < 9"
  shows "\<exists>s'. fe_floor n s = Some s' \<and> fe_floored V (Suc n) s'"
proof -
  let ?c = "s ! n div 2 ^ fe_width n" and ?r = "s ! n mod 2 ^ fe_width n"
  have l: "length s = 10" and b: "\<bar>s ! n\<bar> \<le> 2 ^ 25 * 32" and b': "\<bar>s ! Suc n\<bar> \<le> 101669928" using s n by (auto simp: fe_floored_def)
  note p = fe_floor_parts [OF b, of n]
  have c: "\<bar>s ! Suc n + ?c\<bar> \<le> 2 ^ 25 * 32" using div_width [OF b, of n] b' by simp
  then have "i32 (s ! Suc n + ?c) = Some (s ! Suc n + ?c)" by (auto simp: i32_def abs_le_iff)
  then have f: "fe_floor n s = Some (s[Suc n := s ! Suc n + ?c, n := ?r])" using n l p by (simp add: fe_floor_def)
  have "fe_value (s[Suc n := s ! Suc n + ?c, n := s[Suc n := s ! Suc n + ?c] ! n + - (?c * 2 ^ fe_width n)]) = fe_value s"
    using l n limb_value_update [of "Suc n" s fe_wt ?c] limb_value_update [of n "s[Suc n := s ! Suc n + ?c]" fe_wt "- (?c * 2 ^ fe_width n)"]
    by (simp add: fe.wt_Suc)
  moreover have "s[Suc n := s ! Suc n + ?c] ! n + - (?c * 2 ^ fe_width n) = ?r"
    using l n by (simp add: minus_div_mult_eq_mod)
  ultimately have "fe_floored V (Suc n) (s[Suc n := s ! Suc n + ?c, n := ?r])"
    using s n c l by (auto simp: fe_floored_def nth_list_update less_Suc_eq)
  then show ?thesis using f by blast
qed

lemma fe_floors:
  assumes "fe_floored V 0 s"
  shows "n \<le> 9 \<Longrightarrow> \<exists>s'. ofold fe_floor [0..<n] s = Some s' \<and> fe_floored V n s'"
proof (induction n)
  case (Suc n)
  then show ?case using fe_floor_step [of V n] by (fastforce simp: ofold_append)
qed (use assms in simp)

lemma fe_floor_all:
  assumes "fe_floored V 0 s"
  shows "\<exists>s'. ofold fe_floor [0..<10] s = Some s' \<and> length s' = 10 \<and> (\<forall>i < 10. 0 \<le> s' ! i \<and> s' ! i < 2 ^ fe_width i)
    \<and> fe_value s' = V mod 2 ^ 255"
proof -
  obtain s1 where s1: "ofold fe_floor [0..<9] s = Some s1" "fe_floored V 9 s1" using fe_floors [OF assms, of 9] by auto
  let ?c = "s1 ! 9 div 2 ^ fe_width 9" and ?r = "s1 ! 9 mod 2 ^ fe_width 9"
  have l: "length s1 = 10" and b: "\<bar>s1 ! 9\<bar> \<le> 2 ^ 25 * 32" using s1 by (auto simp: fe_floored_def)
  have f: "fe_floor 9 s1 = Some (s1[9 := ?r])" using fe_floor_parts [OF b, of 9] by (simp add: fe_floor_def)
  have "s1[9 := ?r] = s1[9 := s1 ! 9 + - (?c * 2 ^ fe_width 9)]" by (simp add: minus_div_mult_eq_mod)
  then have v: "fe_value (s1[9 := ?r]) = V + - ?c * 2 ^ 255"
    using s1(2) l limb_value_update [of 9 s1 fe_wt "- (?c * 2 ^ fe_width 9)"] by (simp add: fe_floored_def) (simp add: fe_width_def fe_wt_def)
  have d: "0 \<le> s1[9 := ?r] ! i \<and> s1[9 := ?r] ! i < 2 ^ fe_width i" if "i < 10" for i
    using s1(2) l that by (auto simp: fe_floored_def nth_list_update less_Suc_eq)
  then have "0 \<le> fe_value (s1[9 := ?r]) \<and> fe_value (s1[9 := ?r]) < fe_wt 10" using fe.digits_bound [of "s1[9 := ?r]"] l by simp
  then have "fe_value (s1[9 := ?r]) = fe_value (s1[9 := ?r]) mod 2 ^ 255" by (simp add: fe_wt_def)
  then have "fe_value (s1[9 := ?r]) = V mod 2 ^ 255" unfolding v mod_mult_self1 .
  moreover have "ofold fe_floor [0..<10] s = Some (s1[9 := ?r])"
  proof -
    have "[0..<10] = [0..<9] @ [9 :: nat]" using upt_Suc_append [of 0 9] by simp
    then show ?thesis using s1(1) f by (simp only: ofold_append ofold.simps bind.bind_lunit)
  qed
  ultimately show ?thesis using d l by auto
qed


lemma quotient_exact:
  fixes H L h9 q :: int
  assumes "H = L + h9 * 2 ^ 230" "\<bar>L\<bar> < 2 ^ 232" "\<bar>h9\<bar> \<le> 50834964" "q = (19 * h9 + 2 ^ 24) div 2 ^ 25"
  shows "(H + q) div 2 ^ 255 = H div fe_p" "\<bar>H div fe_p\<bar> \<le> 2"
proof -
  define k r where "k = H div fe_p" and "r = H mod fe_p"
  have H: "H = fe_p * k + r" by (simp add: k_def r_def)
  then have H': "H = 2 ^ 255 * k - 19 * k + r" by (simp add: fe_p_def left_diff_distrib)
  have r: "0 \<le> r" "r < 2 ^ 255 - 19" by (simp_all add: r_def fe_p_def)
  have q: "2 ^ 25 * q \<le> 19 * h9 + 2 ^ 24" "19 * h9 + 2 ^ 24 < 2 ^ 25 * q + 2 ^ 25"
  proof -
    define t where "t = 19 * h9 + 2 ^ 24"
    have "0 \<le> t mod 2 ^ 25" "t mod 2 ^ 25 < 2 ^ 25" by simp_all
    then show "2 ^ 25 * q \<le> 19 * h9 + 2 ^ 24" "19 * h9 + 2 ^ 24 < 2 ^ 25 * q + 2 ^ 25"
      using mult_div_mod_eq [of "2 ^ 25" t] unfolding assms(4) t_def [symmetric] by linarith+
  qed
  have L: "L < 2 ^ 232" "- (2 ^ 232) < L" and h9: "h9 * 2 ^ 230 \<le> 50834964 * 2 ^ 230" "- 50834964 * 2 ^ 230 \<le> h9 * 2 ^ 230"
    using assms(2,3) by (simp_all add: abs_less_iff abs_le_iff)
  have k: "- 2 \<le> k" "k \<le> 1"
  proof -
    show "k \<le> 1" using assms(1) H' r L h9 by simp
    show "- 2 \<le> k" using assms(1) H' r L h9 by simp
  qed
  then show "\<bar>H div fe_p\<bar> \<le> 2" by (simp add: k_def)
  have "0 \<le> r - 19 * k + q" "r - 19 * k + q < 2 ^ 255" using assms(1) L H' r k q by simp_all
  moreover have "H + q = (r - 19 * k + q) + k * 2 ^ 255" using H' by simp
  ultimately show "(H + q) div 2 ^ 255 = H div fe_p" by (simp add: k_def)
qed

lemma fe_value_top:
  assumes "fe_bnd 3 h"
  shows "\<exists>L. fe_value h = L + h ! 9 * 2 ^ 230 \<and> \<bar>L\<bar> < 2 ^ 232"
proof -
  let ?L = "(\<Sum>i < 9. h ! i * fe_wt i)"
  have "fe_value h = ?L + h ! 9 * 2 ^ 230"
    unfolding fe_value_sum [OF assms] using sum.lessThan_Suc [of "\<lambda>i. h ! i * fe_wt i" 9] by (simp add: fe_wt_def)
  moreover have "\<bar>?L\<bar> \<le> (\<Sum>i < 9. 3 * fe_unit i * fe_wt i)"
    using assms fe.wt_pos by (intro order_trans [OF sum_abs sum_mono]) (auto simp: fe_bnd_def abs_mult less_imp_le intro!: mult_mono)
  moreover have "(\<Sum>i < (9::nat). 3 * fe_unit i * fe_wt i) < 2 ^ 232"
    by code_simp
  ultimately show ?thesis by (intro exI [of _ ?L]) linarith
qed

lemma fe_tobytes_ok:
  assumes h: "fe_bnd 3 h"
  shows "\<exists>s. fe_tobytes h = Some s \<and> length s = 32 \<and> int (le_nat s) = fe_value h mod fe_p"
proof -
  define q where "q = (19 * h ! 9 + 2 ^ 24) div 2 ^ 25"
  obtain L where L: "fe_value h = L + h ! 9 * 2 ^ 230" "\<bar>L\<bar> < 2 ^ 232" using fe_value_top [OF h] by blast
  have h9: "\<bar>h ! 9\<bar> \<le> 50834964" using h unfolding fe_bnd_def by (auto simp: fe_unit_def dest!: spec [of _ 9])
  note Q = quotient_exact [OF L h9 q_def]
  have t: "\<bar>19 * h ! 9 + 2 ^ 24\<bar> \<le> 2 ^ 25 * 32" using h9 by (auto simp: abs_le_iff)
  then have i: "i32 (19 * h ! 9) = Some (19 * h ! 9)" "i32 (19 * h ! 9 + 2 ^ 24) = Some (19 * h ! 9 + 2 ^ 24)"
    using h9 by (auto simp: i32_def abs_le_iff)
  have "\<bar>q\<bar> \<le> 2 ^ 26" using div_width [OF t, of 1] by (simp add: q_def fe_width_def)
  from fe_quotient [OF h this, of 10]
  have c: "ofold (\<lambda>i q. do { t \<leftarrow> i32 (h ! i + q); Some (t div 2 ^ fe_width i) }) [0..<10] q = Some (fe_value h div fe_p)"
    using h Q(1) by (simp add: fe_bnd_def fe_wt_def)
  let ?q = "fe_value h div fe_p" let ?h = "h[0 := h ! 0 + 19 * ?q]"
  have j: "i32 (19 * ?q) = Some (19 * ?q)" "i32 (h ! 0 + 19 * ?q) = Some (h ! 0 + 19 * ?q)"
    using Q(2) fe_bnd_3 [OF h, of 0] by (auto simp: i32_def abs_le_iff)
  have v: "fe_value ?h = fe_value h + 19 * ?q" using limb_value_update [of 0 h fe_wt "19 * ?q"] h by (cases h) (simp_all add: fe_bnd_def fe_wt_def)
  have "\<bar>h ! 0 + 19 * ?q\<bar> \<le> 2 ^ 25 * 32" using Q(2) fe_bnd_3 [OF h, of 0] by simp
  then have "fe_floored (fe_value h + 19 * ?q) 0 ?h"
    using h v fe_bnd_3 [OF h] by (auto simp: fe_floored_def fe_bnd_def nth_list_update)
  from fe_floor_all [OF this] obtain s where s: "ofold fe_floor [0..<10] ?h = Some s" "length s = 10"
    "\<forall>i < 10. 0 \<le> s ! i \<and> s ! i < 2 ^ fe_width i" "fe_value s = (fe_value h + 19 * ?q) mod 2 ^ 255" by blast
  have "fe_value h = fe_p * ?q + fe_value h mod fe_p" by simp
  also have "fe_p * ?q = ?q * 2 ^ 255 - 19 * ?q" unfolding fe_p_def left_diff_distrib by (simp only: mult.commute)
  finally have "fe_value h + 19 * ?q = fe_value h mod fe_p + ?q * 2 ^ 255" by linarith
  then have "(fe_value h + 19 * ?q) mod 2 ^ 255 = fe_value h mod fe_p mod 2 ^ 255" by (simp only: mod_mult_self1)
  also have "\<dots> = fe_value h mod fe_p"
    using pos_mod_bound [of fe_p "fe_value h"] pos_mod_sign [of fe_p "fe_value h"] by (intro mod_pos_pos_trivial) (simp_all add: fe_p_def)
  finally have "int (le_nat (fe_pack s)) = fe_value h mod fe_p" using fe_pack_value [OF s(2)] s(3,4) by auto
  moreover have "fe_tobytes h = Some (fe_pack s)"
    unfolding fe_tobytes_def i bind.bind_lunit Let_def q_def [symmetric] c j s(1) ..
  ultimately show ?thesis by (simp add: fe_pack_def)
qed


lemma fe_isnonzero_ok:
  assumes "fe_bnd 3 f"
  shows "fe_isnonzero f = Some (if fe_value f mod fe_p = 0 then 0 else 1)"
proof -
  obtain s where s: "fe_tobytes f = Some s" "length s = 32" "int (le_nat s) = fe_value f mod fe_p" using fe_tobytes_ok [OF assms] by blast
  then have "(uint (foldr (OR) s 0) - 1) div 2 ^ 8 + 1 = sc_isnonzero s" by (simp add: sc_isnonzero_def)
  then show ?thesis using sc_isnonzero_eq [OF s(2)] s by (simp add: fe_isnonzero_def)
qed

lemma low_bit: "uint (b AND 1 :: u8) = int (unat b) mod 2"
proof -
  have "b AND 1 = take_bit 1 b" by (simp add: take_bit_eq_mask)
  then have "unat (b AND 1) = unat b mod 2" using unat_take_bit [of 1 b] by (simp only: power_one_right)
  then show ?thesis unfolding uint_nat by (simp only: zmod_int of_nat_numeral)
qed

lemma fe_isnegative_ok:
  assumes "fe_bnd 3 f"
  shows "fe_isnegative f = Some (fe_value f mod fe_p mod 2)"
proof -
  obtain s where s: "fe_tobytes f = Some s" "length s = 32" "int (le_nat s) = fe_value f mod fe_p" using fe_tobytes_ok [OF assms] by blast
  obtain b bs where b: "s = b # bs" using s(2) by (cases s) auto
  have "le_nat s mod 2 = unat b mod 2" unfolding b le_nat.simps by presburger
  then show ?thesis using s b by (simp only: fe_isnegative_def bind.bind_lunit low_bit nth_Cons_0 s(3) [symmetric] zmod_int [of _ 2, simplified, symmetric] of_nat_eq_iff)
qed

lemma fe_equals_ok:
  assumes "fe_bnd 3 a" "fe_bnd 3 b" "\<And>x y. length x = 32 \<Longrightarrow> length y = 32 \<Longrightarrow> verify x y = 0 \<longleftrightarrow> x = y"
  shows "fe_equals verify a b = Some (fe_value a mod fe_p = fe_value b mod fe_p)"
proof -
  obtain s where s: "fe_tobytes a = Some s" "length s = 32" "int (le_nat s) = fe_value a mod fe_p" using fe_tobytes_ok [OF assms(1)] by blast
  obtain t where t: "fe_tobytes b = Some t" "length t = 32" "int (le_nat t) = fe_value b mod fe_p" using fe_tobytes_ok [OF assms(2)] by blast
  have "s = t \<longleftrightarrow> le_nat s = le_nat t" using le_nat_inj [of s t] s(2) t(2) by auto
  also have "\<dots> \<longleftrightarrow> fe_value a mod fe_p = fe_value b mod fe_p" using s(3) t(3) by linarith
  finally show ?thesis using s t assms(3) by (simp add: fe_equals_def)
qed

section \<open>Reading bytes\<close>

lemma mod_split: "(N::nat) mod (a * b) = N mod a + a * (N div a mod b)"
  by (simp add: mod_mult2_eq)

lemma shifted_load:
  fixes w :: u64
  assumes "unat w = x" "x < 2 ^ 24" "n \<le> 7"
  shows "uint (push_bit n w) = 2 ^ n * int x"
proof -
  have "(2::nat) ^ n \<le> 2 ^ 7" using assms(3) by (intro power_increasing) simp_all
  then have "x * 2 ^ n \<le> 2 ^ 24 * 2 ^ 7" using assms(2) by (intro mult_mono) auto
  then have "unat (push_bit n w) = x * 2 ^ n" unfolding unsigned_push_bit_eq using assms(1) by (simp add: take_bit_eq_mod push_bit_eq_mult)
  then show ?thesis by (simp add: uint_nat)
qed


definition fe_windows :: "nat \<Rightarrow> nat \<Rightarrow> nat list" where
  "fe_windows N t = [N mod 2 ^ 32, N div 2 ^ 32 mod 2 ^ 24, N div 2 ^ 56 mod 2 ^ 24, N div 2 ^ 80 mod 2 ^ 24, N div 2 ^ 104 mod 2 ^ 24,
     N div 2 ^ 128 mod 2 ^ 32, N div 2 ^ 160 mod 2 ^ 24, N div 2 ^ 184 mod 2 ^ 24, N div 2 ^ 208 mod 2 ^ 24, N div 2 ^ 232 mod 2 ^ t]"

lemma windows_value:
  "N mod 2 ^ (232 + t) = N mod 2 ^ 32 + 2 ^ 32 * (N div 2 ^ 32 mod 2 ^ 24) + 2 ^ 56 * (N div 2 ^ 56 mod 2 ^ 24)
     + 2 ^ 80 * (N div 2 ^ 80 mod 2 ^ 24) + 2 ^ 104 * (N div 2 ^ 104 mod 2 ^ 24) + 2 ^ 128 * (N div 2 ^ 128 mod 2 ^ 32)
     + 2 ^ 160 * (N div 2 ^ 160 mod 2 ^ 24) + 2 ^ 184 * (N div 2 ^ 184 mod 2 ^ 24) + 2 ^ 208 * (N div 2 ^ 208 mod 2 ^ 24)
     + 2 ^ 232 * ((N::nat) div 2 ^ 232 mod 2 ^ t)"
proof -
  have e: "N mod 2 ^ (k + n) = N mod 2 ^ k + 2 ^ k * (N div 2 ^ k mod 2 ^ n)" for k n by (simp add: power_add mod_split)
  show ?thesis
    using e [of 232 t] e [of 208 24] e [of 184 24] e [of 160 24] e [of 128 32] e [of 104 24] e [of 80 24] e [of 56 24] e [of 32 24]
    by (simp del: power_numeral)
qed

lemma fe_load_eq:
  assumes s: "length s = 32" and m: "\<And>w. unat (m w) = unat w mod 2 ^ t" and t: "t \<le> 24"
  shows "fe_load m s = Some (map2 (\<lambda>n x. 2 ^ n * int x) [0, 6, 5, 3, 2, 0, 7, 5, 4, 2] (fe_windows (le_nat s) t))"
proof -
  let ?N = "le_nat s"
  note l3 = load_3_value [of _ s, unfolded s] and l4 = load_4_value [of _ s, unfolded s]
  obtain h0 where h0: "load_4 s 0 = Some h0" "unat h0 = ?N mod 2 ^ 32" using l4 [of 0] by auto
  obtain h1 where h1: "load_3 s 4 = Some h1" "unat h1 = ?N div 2 ^ 32 mod 2 ^ 24" using l3 [of 4] by auto
  obtain h2 where h2: "load_3 s 7 = Some h2" "unat h2 = ?N div 2 ^ 56 mod 2 ^ 24" using l3 [of 7] by auto
  obtain h3 where h3: "load_3 s 10 = Some h3" "unat h3 = ?N div 2 ^ 80 mod 2 ^ 24" using l3 [of 10] by auto
  obtain h4 where h4: "load_3 s 13 = Some h4" "unat h4 = ?N div 2 ^ 104 mod 2 ^ 24" using l3 [of 13] by auto
  obtain h5 where h5: "load_4 s 16 = Some h5" "unat h5 = ?N div 2 ^ 128 mod 2 ^ 32" using l4 [of 16] by auto
  obtain h6 where h6: "load_3 s 20 = Some h6" "unat h6 = ?N div 2 ^ 160 mod 2 ^ 24" using l3 [of 20] by auto
  obtain h7 where h7: "load_3 s 23 = Some h7" "unat h7 = ?N div 2 ^ 184 mod 2 ^ 24" using l3 [of 23] by auto
  obtain h8 where h8: "load_3 s 26 = Some h8" "unat h8 = ?N div 2 ^ 208 mod 2 ^ 24" using l3 [of 26] by auto
  obtain h9 where h9: "load_3 s 29 = Some h9" "unat h9 = ?N div 2 ^ 232 mod 2 ^ 24" using l3 [of 29] by auto
  have "unat (m h9) = ?N div 2 ^ 232 mod 2 ^ t"
    unfolding m h9(2) by (rule mod_mod_cancel) (rule le_imp_power_dvd [OF t])
  moreover have "?N div 2 ^ 232 mod 2 ^ t < 2 ^ 24"
  proof -
    have "?N div 2 ^ 232 mod 2 ^ t < 2 ^ t" by simp
    also have "(2::nat) ^ t \<le> 2 ^ 24" using t by (intro power_increasing) simp_all
    finally show ?thesis .
  qed
  moreover have "uint h0 = int (?N mod 2 ^ 32)" "uint h5 = int (?N div 2 ^ 128 mod 2 ^ 32)" unfolding uint_nat h0(2) h5(2) by simp_all
  ultimately show ?thesis
    unfolding fe_load_def h0(1) h1(1) h2(1) h3(1) h4(1) h5(1) h6(1) h7(1) h8(1) h9(1) bind.bind_lunit
    using shifted_load [OF h1(2)] shifted_load [OF h2(2)] shifted_load [OF h3(2)] shifted_load [OF h4(2)] shifted_load [OF h6(2)]
      shifted_load [OF h7(2)] shifted_load [OF h8(2)] shifted_load [of "m h9"]
    by (simp add: fe_windows_def)
qed


definition fe_load_bounds :: "bnd list" where
  "fe_load_bounds = map (\<lambda>n. (0, 2 ^ n)) [32, 30, 29, 27, 26, 32, 31, 29, 28, 26]"

lemma b_fe_load_ok:
  "case ofold b_fe_carry [9, 1, 3, 5, 7, 0, 2, 4, 6, 8] fe_load_bounds of None \<Rightarrow> False | Some B \<Rightarrow> inside B unit_bounds"
  by code_simp

lemma fe_from_limbs_ok:
  assumes "within fe_load_bounds h"
  shows "\<exists>y. fe_from_limbs h = Some y \<and> fe_bnd 1 y \<and> fe_value y mod fe_p = fe_value h mod fe_p"
proof -
  obtain B where B: "ofold b_fe_carry [9, 1, 3, 5, 7, 0, 2, 4, 6, 8] fe_load_bounds = Some B" "inside B unit_bounds"
    using b_fe_load_ok by (auto simp del: ofold.simps split: option.splits)
  obtain r where r: "ofold fe_carry [9, 1, 3, 5, 7, 0, 2, 4, 6, 8] h = Some r" "within B r"
    using ofold_sound [OF assms B(1), of fe_carry] b_fe_carry_sound by blast
  have u: "fe_bnd 1 r" using within_inside [OF r(2) B(2)] by (simp add: within_unit)
  then have "fe_from_limbs h = Some r" unfolding fe_from_limbs_def r(1) bind.bind_lunit by (rule fe_store_ok)
  then show ?thesis using u fe_carries_value [OF r(1)] by blast
qed

lemma load_limbs_value:
  "fe_value [x0, 2 ^ 6 * x1, 2 ^ 5 * x2, 2 ^ 3 * x3, 2 ^ 2 * x4, x5, 2 ^ 7 * x6, 2 ^ 5 * x7, 2 ^ 4 * x8, 2 ^ 2 * x9]
    = x0 + 2 ^ 32 * x1 + 2 ^ 56 * x2 + 2 ^ 80 * x3 + 2 ^ 104 * x4 + 2 ^ 128 * x5 + 2 ^ 160 * x6 + 2 ^ 184 * x7 + 2 ^ 208 * x8 + 2 ^ 232 * x9"
proof -
  have "fe_value h = h ! 0 + h ! 1 * 2 ^ 26 + h ! 2 * 2 ^ 51 + h ! 3 * 2 ^ 77 + h ! 4 * 2 ^ 102 + h ! 5 * 2 ^ 128
      + h ! 6 * 2 ^ 153 + h ! 7 * 2 ^ 179 + h ! 8 * 2 ^ 204 + h ! 9 * 2 ^ 230" if "length h = 10" for h
    unfolding limb_value_def that by (simp only: sum_upto_10 fe_wt_def) simp
  from this [of "[x0, 2 ^ 6 * x1, 2 ^ 5 * x2, 2 ^ 3 * x3, 2 ^ 2 * x4, x5, 2 ^ 7 * x6, 2 ^ 5 * x7, 2 ^ 4 * x8, 2 ^ 2 * x9]"]
  show ?thesis by simp
qed

lemma fe_load_ok:
  assumes s: "length s = 32" and m: "\<And>w. unat (m w) = unat w mod 2 ^ t" and t: "t \<le> 24"
  shows "\<exists>x :: nat \<Rightarrow> int. fe_load m s = Some [x 0, 2 ^ 6 * x 1, 2 ^ 5 * x 2, 2 ^ 3 * x 3, 2 ^ 2 * x 4, x 5, 2 ^ 7 * x 6, 2 ^ 5 * x 7, 2 ^ 4 * x 8, 2 ^ 2 * x 9]
    \<and> int (le_nat s mod 2 ^ (232 + t)) = x 0 + 2 ^ 32 * x 1 + 2 ^ 56 * x 2 + 2 ^ 80 * x 3 + 2 ^ 104 * x 4 + 2 ^ 128 * x 5 + 2 ^ 160 * x 6
      + 2 ^ 184 * x 7 + 2 ^ 208 * x 8 + 2 ^ 232 * x 9
    \<and> (\<forall>i < 9. 0 \<le> x i \<and> x i < 2 ^ (if i = 0 \<or> i = 5 then 32 else 24)) \<and> 0 \<le> x 9 \<and> x 9 < 2 ^ t"
proof (intro exI [of _ "\<lambda>i. int (fe_windows (le_nat s) t ! i)"] conjI)
  let ?N = "le_nat s" let ?x = "\<lambda>i. int (fe_windows ?N t ! i)"
  show "fe_load m s = Some [?x 0, 2 ^ 6 * ?x 1, 2 ^ 5 * ?x 2, 2 ^ 3 * ?x 3, 2 ^ 2 * ?x 4, ?x 5, 2 ^ 7 * ?x 6, 2 ^ 5 * ?x 7, 2 ^ 4 * ?x 8, 2 ^ 2 * ?x 9]"
    unfolding fe_load_eq [OF assms] by (simp add: fe_windows_def)
  show "int (?N mod 2 ^ (232 + t)) = ?x 0 + 2 ^ 32 * ?x 1 + 2 ^ 56 * ?x 2 + 2 ^ 80 * ?x 3 + 2 ^ 104 * ?x 4 + 2 ^ 128 * ?x 5 + 2 ^ 160 * ?x 6
      + 2 ^ 184 * ?x 7 + 2 ^ 208 * ?x 8 + 2 ^ 232 * ?x 9"
    unfolding windows_value by (simp add: fe_windows_def)
  show "\<forall>i < 9. 0 \<le> ?x i \<and> ?x i < 2 ^ (if i = 0 \<or> i = 5 then 32 else 24)"
  proof (intro allI impI conjI)
    fix i :: nat assume "i < 9"
    then show "?x i < 2 ^ (if i = 0 \<or> i = 5 then 32 else 24)"
      using less_10_cases [of i] by (auto simp: fe_windows_def)
  qed simp
  have "?N div 2 ^ 232 mod 2 ^ t < 2 ^ t" by simp
  then show "?x 9 < 2 ^ t" by (simp add: fe_windows_def)
qed simp

text \<open>The canonicity test, on the windows of the 255 bits.\<close>

lemma canonical_windows:
  fixes x :: "nat \<Rightarrow> int"
  assumes N: "N = x 0 + 2 ^ 32 * x 1 + 2 ^ 56 * x 2 + 2 ^ 80 * x 3 + 2 ^ 104 * x 4 + 2 ^ 128 * x 5 + 2 ^ 160 * x 6
      + 2 ^ 184 * x 7 + 2 ^ 208 * x 8 + 2 ^ 232 * x 9"
    and x: "\<forall>i < 9. 0 \<le> x i \<and> x i < 2 ^ (if i = 0 \<or> i = 5 then 32 else 24)" and x9: "0 \<le> x 9" "x 9 < 2 ^ 23"
  shows "(2 ^ 2 * x 9 = 33554428 \<and> 2 ^ 4 * x 8 = 268435440 \<and> 2 ^ 5 * x 7 = 536870880 \<and> 2 ^ 7 * x 6 = 2147483520 \<and>
        x 5 = 4294967295 \<and> 2 ^ 2 * x 4 = 67108860 \<and> 2 ^ 3 * x 3 = 134217720 \<and> 2 ^ 5 * x 2 = 536870880 \<and>
        2 ^ 6 * x 1 = 1073741760 \<and> x 0 \<ge> 4294967277) \<longleftrightarrow> fe_p \<le> N"
proof
  have b: "x 0 \<le> 4294967295" "x (Suc 0) \<le> 16777215" "x 2 \<le> 16777215" "x 3 \<le> 16777215" "x 4 \<le> 16777215" "x 5 \<le> 4294967295"
      "x 6 \<le> 16777215" "x 7 \<le> 16777215" "x 8 \<le> 16777215" "x 9 \<le> 8388607"
    using x [rule_format, of 0] x [rule_format, of 1] x [rule_format, of 2] x [rule_format, of 3] x [rule_format, of 4]
      x [rule_format, of 5] x [rule_format, of 6] x [rule_format, of 7] x [rule_format, of 8] x9 by simp_all
  assume "fe_p \<le> N"
  note p = this [unfolded N fe_p_def, simplified]
  have "8388607 \<le> x 9" using p b by linarith
  moreover have "16777215 \<le> x 8" using p b by linarith
  moreover have "16777215 \<le> x 7" using p b by linarith
  moreover have "16777215 \<le> x 6" using p b by linarith
  moreover have "4294967295 \<le> x 5" using p b by linarith
  moreover have "16777215 \<le> x 4" using p b by linarith
  moreover have "16777215 \<le> x 3" using p b by linarith
  moreover have "16777215 \<le> x 2" using p b by linarith
  moreover have "16777215 \<le> x (Suc 0)" using p b by linarith
  moreover have "4294967277 \<le> x 0" using p b by linarith
  ultimately show "2 ^ 2 * x 9 = 33554428 \<and> 2 ^ 4 * x 8 = 268435440 \<and> 2 ^ 5 * x 7 = 536870880 \<and> 2 ^ 7 * x 6 = 2147483520 \<and>
        x 5 = 4294967295 \<and> 2 ^ 2 * x 4 = 67108860 \<and> 2 ^ 3 * x 3 = 134217720 \<and> 2 ^ 5 * x 2 = 536870880 \<and>
        2 ^ 6 * x 1 = 1073741760 \<and> x 0 \<ge> 4294967277"
    using b by simp
qed (simp add: N fe_p_def)


lemma mask_23: "unat (w AND 8388607 :: u64) = unat w mod 2 ^ 23"
proof -
  have "(8388607 :: u64) = mask 23" by (simp add: mask_eq_exp_minus_1)
  then have "w AND 8388607 = take_bit 23 w" by (simp add: take_bit_eq_mask)
  then show ?thesis by (simp only: unat_take_bit)
qed

lemma fe_load_within:
  fixes x :: "nat \<Rightarrow> int"
  assumes "\<forall>i < 9. 0 \<le> x i \<and> x i < 2 ^ (if i = 0 \<or> i = 5 then 32 else 24)" "0 \<le> x 9" "x 9 < (2::int) ^ 24"
  shows "within fe_load_bounds [x 0, 2 ^ 6 * x 1, 2 ^ 5 * x 2, 2 ^ 3 * x 3, 2 ^ 2 * x 4, x 5, 2 ^ 7 * x 6, 2 ^ 5 * x 7, 2 ^ 4 * x 8, 2 ^ 2 * x 9]"
  using assms(1) [rule_format, of 0] assms(1) [rule_format, of 1] assms(1) [rule_format, of 2] assms(1) [rule_format, of 3] assms(1) [rule_format, of 4]
    assms(1) [rule_format, of 5] assms(1) [rule_format, of 6] assms(1) [rule_format, of 7] assms(1) [rule_format, of 8] assms(2,3)
  by (simp add: within_def fe_load_bounds_def in_bnd_def)

lemma fe_frombytes_ok:
  assumes s: "length s = 32"
  shows "le_nat s mod 2 ^ 255 \<ge> nat fe_p \<Longrightarrow> fe_frombytes_vartime s = Some None"
    "le_nat s mod 2 ^ 255 < nat fe_p \<Longrightarrow>
      \<exists>y. fe_frombytes_vartime s = Some (Some y) \<and> fe_bnd 1 y \<and> fe_value y mod fe_p = int (le_nat s mod 2 ^ 255)"
proof -
  obtain x :: "nat \<Rightarrow> int" where l: "fe_load (\<lambda>w. w AND 8388607) s = Some [x 0, 2 ^ 6 * x 1, 2 ^ 5 * x 2, 2 ^ 3 * x 3, 2 ^ 2 * x 4, x 5, 2 ^ 7 * x 6, 2 ^ 5 * x 7, 2 ^ 4 * x 8, 2 ^ 2 * x 9]" (is "_ = Some ?h")
    and v: "int (le_nat s mod 2 ^ 255) = x 0 + 2 ^ 32 * x 1 + 2 ^ 56 * x 2 + 2 ^ 80 * x 3 + 2 ^ 104 * x 4 + 2 ^ 128 * x 5 + 2 ^ 160 * x 6
      + 2 ^ 184 * x 7 + 2 ^ 208 * x 8 + 2 ^ 232 * x 9"
    and x: "\<forall>i < 9. 0 \<le> x i \<and> x i < 2 ^ (if i = 0 \<or> i = 5 then 32 else 24)" "0 \<le> x 9" "x 9 < 2 ^ 23"
    using fe_load_ok [OF s mask_23] by auto
  have c: "(?h ! 9 = 33554428 \<and> ?h ! 8 = 268435440 \<and> ?h ! 7 = 536870880 \<and> ?h ! 6 = 2147483520 \<and>
        ?h ! 5 = 4294967295 \<and> ?h ! 4 = 67108860 \<and> ?h ! 3 = 134217720 \<and> ?h ! 2 = 536870880 \<and>
        ?h ! 1 = 1073741760 \<and> ?h ! 0 \<ge> 4294967277) \<longleftrightarrow> fe_p \<le> int (le_nat s mod 2 ^ 255)"
    unfolding canonical_windows [OF v x, symmetric] by simp
  show "le_nat s mod 2 ^ 255 \<ge> nat fe_p \<Longrightarrow> fe_frombytes_vartime s = Some None"
    unfolding fe_frombytes_vartime_def l bind.bind_lunit c by (simp add: nat_le_iff)
  have "within fe_load_bounds ?h" using fe_load_within [OF x(1,2)] x(3) by simp
  from fe_from_limbs_ok [OF this] obtain y where y: "fe_from_limbs ?h = Some y" "fe_bnd 1 y" "fe_value y mod fe_p = fe_value ?h mod fe_p" by blast
  show "\<exists>y. fe_frombytes_vartime s = Some (Some y) \<and> fe_bnd 1 y \<and> fe_value y mod fe_p = int (le_nat s mod 2 ^ 255)" if "le_nat s mod 2 ^ 255 < nat fe_p"
  proof -
    have lt: "int (le_nat s mod 2 ^ 255) < fe_p" using that by (simp only: zless_nat_eq_int_zless)
    then have "fe_frombytes_vartime s = Some (Some y)"
      unfolding fe_frombytes_vartime_def l bind.bind_lunit c using y(1) by simp
    moreover have "fe_value y mod fe_p = int (le_nat s mod 2 ^ 255)"
      unfolding y(3) load_limbs_value v [symmetric] using lt by (intro mod_pos_pos_trivial) simp_all
    ultimately show ?thesis using y(2) by blast
  qed
qed

end
