(* ===== verification/Field_Power.thy ===== *)
theory Field_Power
  imports Field25519
begin

text \<open>
  Inversion and square roots in the field by fixed addition chains (\<open>fe_invert\<close>, \<open>fe_divpowm1\<close>) and the
  inversion of many elements at once (\<open>fe_batch_invert\<close>).  The first part is the calculus in which
  straight-line code over field elements is verified: \<open>ok P m\<close> says that \<open>m\<close> returns, with a result
  that satisfies \<open>P\<close>, and \<open>fe_rep k f x\<close> that \<open>f\<close> stands for the residue class of \<open>x\<close>, its limbs at
  most \<open>k\<close> times the bounds of a product.
\<close>

section \<open>A calculus for straight-line field arithmetic\<close>

named_theorems fe_ops

definition ok :: "('a \<Rightarrow> bool) \<Rightarrow> 'a option \<Rightarrow> bool" where
  "ok P m \<longleftrightarrow> (\<exists>h. m = Some h \<and> P h)"

lemma ok_bind: "ok P m \<Longrightarrow> (\<And>h. P h \<Longrightarrow> ok Q (f h)) \<Longrightarrow> ok Q (m \<bind> f)"
  by (auto simp: ok_def)

lemma ok_Some: "P h \<Longrightarrow> ok P (Some h)"
  by (simp add: ok_def)

lemma ok_mono: "ok P m \<Longrightarrow> (\<And>h. P h \<Longrightarrow> Q h) \<Longrightarrow> ok Q m"
  by (auto simp: ok_def)

definition fe_rep :: "int \<Rightarrow> fe \<Rightarrow> int \<Rightarrow> bool" where
  "fe_rep k f x \<longleftrightarrow> fe_bnd k f \<and> fe_value f mod fe_p = x mod fe_p"

lemma fe_rep_value: "fe_bnd k f \<Longrightarrow> fe_rep k f (fe_value f)"
  by (simp add: fe_rep_def)

lemma fe_rep_mono: "fe_rep k f x \<Longrightarrow> k \<le> l \<Longrightarrow> fe_rep l f x"
  by (auto simp: fe_rep_def intro: fe_bnd_mono)

lemma fe_rep_cong: "fe_rep k f x \<Longrightarrow> x mod fe_p = y mod fe_p \<Longrightarrow> fe_rep k f y"
  by (simp add: fe_rep_def)

lemma fe_rep_0 [fe_ops]: "fe_rep 1 fe_0 0"
  by (auto simp: fe_rep_def fe_bnd_def fe_0_def fe_unit_def limb_value_def nth_Cons' split: if_splits intro!: sum.neutral)

lemma fe_rep_1 [fe_ops]: "fe_rep 1 fe_1 1"
proof -
  have "fe_value fe_1 = 1" unfolding limb_value_def by (simp add: fe_1_def eval_nat_numeral fe_wt_def)
  then show ?thesis by (auto simp: fe_rep_def fe_bnd_def fe_1_def fe_unit_def nth_Cons' split: if_splits)
qed

lemma fe_add_rep [fe_ops]:
  "fe_rep k f x \<Longrightarrow> fe_rep l g y \<Longrightarrow> k + l \<le> 60 \<Longrightarrow> ok (\<lambda>h. fe_rep (k + l) h (x + y)) (fe_add f g)"
  unfolding fe_rep_def ok_def using fe_add_ok [of k f l g] by (metis mod_add_eq)

lemma fe_sub_rep [fe_ops]:
  "fe_rep k f x \<Longrightarrow> fe_rep l g y \<Longrightarrow> k + l \<le> 60 \<Longrightarrow> ok (\<lambda>h. fe_rep (k + l) h (x - y)) (fe_sub f g)"
  unfolding fe_rep_def ok_def using fe_sub_ok [of k f l g] by (metis mod_diff_eq)

lemma fe_neg_rep [fe_ops]:
  "fe_rep k f x \<Longrightarrow> k \<le> 60 \<Longrightarrow> ok (\<lambda>h. fe_rep k h (- x)) (fe_neg f)"
  unfolding fe_rep_def ok_def using fe_neg_ok [of k f] by (metis mod_minus_eq)

lemma fe_mul_rep [fe_ops]:
  "fe_rep k f x \<Longrightarrow> fe_rep l g y \<Longrightarrow> k \<le> 3 \<Longrightarrow> l \<le> 3 \<Longrightarrow> ok (\<lambda>h. fe_rep 1 h (x * y)) (fe_mul f g)"
  unfolding fe_rep_def ok_def using fe_mul_ok [of f g] fe_bnd_mono by (metis mod_mult_eq)

lemma fe_sq_rep [fe_ops]:
  "fe_rep k f x \<Longrightarrow> k \<le> 3 \<Longrightarrow> ok (\<lambda>h. fe_rep 1 h (x * x)) (fe_sq f)"
  unfolding fe_rep_def ok_def using fe_sq_ok [of f] fe_bnd_mono by (metis mod_mult_eq)

lemma fe_sq2_rep [fe_ops]:
  "fe_rep k f x \<Longrightarrow> k \<le> 3 \<Longrightarrow> ok (\<lambda>h. fe_rep 1 h (2 * (x * x))) (fe_sq2 f)"
proof -
  assume f: "fe_rep k f x" "k \<le> 3"
  have "(2 * (fe_value f * fe_value f)) mod fe_p = (2 * (x * x)) mod fe_p"
    using f(1) unfolding fe_rep_def by (intro mod_mult_cong refl) simp_all
  then show ?thesis using fe_sq2_ok [OF fe_bnd_mono [of k f]] f by (auto simp: fe_rep_def ok_def)
qed

lemma fe_rep_copy: "fe_rep k f x \<Longrightarrow> fe_rep k (fe_copy f) x"
  by (simp add: fe_rep_def fe_bnd_def fe_copy_eq)

lemma fe_cmov_rep:
  "fe_rep k f x \<Longrightarrow> fe_rep k g y \<Longrightarrow> k \<le> 60 \<Longrightarrow> ok (\<lambda>h. fe_rep k h (if b then y else x)) (fe_cmov f g (if b then 1 else 0))"
  using fe_cmov_eq [of k f g] by (auto simp: fe_rep_def ok_def)

lemma fe_isnonzero_rep: "fe_rep k f x \<Longrightarrow> k \<le> 3 \<Longrightarrow> fe_isnonzero f = Some (if x mod fe_p = 0 then 0 else 1)"
  using fe_isnonzero_ok [of f] fe_bnd_mono by (fastforce simp: fe_rep_def)

lemma fe_isnegative_rep: "fe_rep k f x \<Longrightarrow> k \<le> 3 \<Longrightarrow> fe_isnegative f = Some (x mod fe_p mod 2)"
  using fe_isnegative_ok [of f] fe_bnd_mono by (fastforce simp: fe_rep_def)

lemma fe_tobytes_rep:
  "fe_rep k f x \<Longrightarrow> k \<le> 3 \<Longrightarrow> ok (\<lambda>s. length s = 32 \<and> int (le_nat s) = x mod fe_p) (fe_tobytes f)"
  unfolding fe_rep_def ok_def using fe_tobytes_ok [of f] fe_bnd_mono by metis

section \<open>Addition chains\<close>

text \<open>\<open>for (i = 0; i < n; ++i) fe_sq(t, t)\<close>.\<close>

definition fe_sqs :: "nat \<Rightarrow> fe \<Rightarrow> fe option" where
  "fe_sqs n t = ofold (\<lambda>_ t. fe_sq t) [0..<n] t"

definition fe_invert :: "fe \<Rightarrow> fe option" where
  "fe_invert z = do {
     t0 \<leftarrow> fe_sq z;
     t1 \<leftarrow> fe_sq t0;
     t1 \<leftarrow> fe_sq t1;
     t1 \<leftarrow> fe_mul z t1;
     t0 \<leftarrow> fe_mul t0 t1;
     t2 \<leftarrow> fe_sq t0;
     t1 \<leftarrow> fe_mul t1 t2;
     t2 \<leftarrow> fe_sq t1;
     t2 \<leftarrow> fe_sqs 4 t2;
     t1 \<leftarrow> fe_mul t2 t1;
     t2 \<leftarrow> fe_sq t1;
     t2 \<leftarrow> fe_sqs 9 t2;
     t2 \<leftarrow> fe_mul t2 t1;
     t3 \<leftarrow> fe_sq t2;
     t3 \<leftarrow> fe_sqs 19 t3;
     t2 \<leftarrow> fe_mul t3 t2;
     t2 \<leftarrow> fe_sq t2;
     t2 \<leftarrow> fe_sqs 9 t2;
     t1 \<leftarrow> fe_mul t2 t1;
     t2 \<leftarrow> fe_sq t1;
     t2 \<leftarrow> fe_sqs 49 t2;
     t2 \<leftarrow> fe_mul t2 t1;
     t3 \<leftarrow> fe_sq t2;
     t3 \<leftarrow> fe_sqs 99 t3;
     t2 \<leftarrow> fe_mul t3 t2;
     t2 \<leftarrow> fe_sq t2;
     t2 \<leftarrow> fe_sqs 49 t2;
     t1 \<leftarrow> fe_mul t2 t1;
     t1 \<leftarrow> fe_sq t1;
     t1 \<leftarrow> fe_sqs 4 t1;
     fe_mul t1 t0 }"

text \<open>\<open>(u v^7)^((q-5)/8)\<close> by the chain of \<open>fe_pow22523\<close>, then the factors \<open>v^3\<close> and \<open>u\<close>.\<close>

definition fe_divpowm1 :: "fe \<Rightarrow> fe \<Rightarrow> fe option" where
  "fe_divpowm1 u v = do {
     v3 \<leftarrow> fe_sq v;
     v3 \<leftarrow> fe_mul v3 v;
     uv7 \<leftarrow> fe_sq v3;
     uv7 \<leftarrow> fe_mul uv7 v;
     uv7 \<leftarrow> fe_mul uv7 u;
     t0 \<leftarrow> fe_sq uv7;
     t1 \<leftarrow> fe_sq t0;
     t1 \<leftarrow> fe_sq t1;
     t1 \<leftarrow> fe_mul uv7 t1;
     t0 \<leftarrow> fe_mul t0 t1;
     t0 \<leftarrow> fe_sq t0;
     t0 \<leftarrow> fe_mul t1 t0;
     t1 \<leftarrow> fe_sq t0;
     t1 \<leftarrow> fe_sqs 4 t1;
     t0 \<leftarrow> fe_mul t1 t0;
     t1 \<leftarrow> fe_sq t0;
     t1 \<leftarrow> fe_sqs 9 t1;
     t1 \<leftarrow> fe_mul t1 t0;
     t2 \<leftarrow> fe_sq t1;
     t2 \<leftarrow> fe_sqs 19 t2;
     t1 \<leftarrow> fe_mul t2 t1;
     t1 \<leftarrow> fe_sqs 10 t1;
     t0 \<leftarrow> fe_mul t1 t0;
     t1 \<leftarrow> fe_sq t0;
     t1 \<leftarrow> fe_sqs 49 t1;
     t1 \<leftarrow> fe_mul t1 t0;
     t2 \<leftarrow> fe_sq t1;
     t2 \<leftarrow> fe_sqs 99 t2;
     t1 \<leftarrow> fe_mul t2 t1;
     t1 \<leftarrow> fe_sqs 50 t1;
     t0 \<leftarrow> fe_mul t1 t0;
     t0 \<leftarrow> fe_sq t0;
     t0 \<leftarrow> fe_sq t0;
     t0 \<leftarrow> fe_mul t0 uv7;
     t0 \<leftarrow> fe_mul t0 v3;
     fe_mul t0 u }"

section \<open>Exponents\<close>

lemma pow_mul:
  "fe_rep 3 f (x ^ m) \<Longrightarrow> fe_rep 3 g (x ^ n) \<Longrightarrow> ok (\<lambda>h. fe_rep 1 h (x ^ (m + n))) (fe_mul f g)"
  by (simp only: power_add fe_mul_rep order_refl)

lemma pow_sq: "fe_rep 3 f (x ^ m) \<Longrightarrow> ok (\<lambda>h. fe_rep 1 h (x ^ (m + m))) (fe_sq f)"
  by (simp only: power_add fe_sq_rep order_refl)

lemma pow_sqs: "fe_rep 3 f (x ^ m) \<Longrightarrow> ok (\<lambda>h. fe_rep 3 h (x ^ (m * 2 ^ n))) (fe_sqs n f)"
proof (induction n)
  case 0
  then show ?case by (auto simp: fe_sqs_def intro: ok_Some)
next
  case (Suc n)
  have "ok (\<lambda>h. fe_rep 3 h (x ^ (m * 2 ^ n + m * 2 ^ n))) (fe_sq g)" if "fe_rep 3 g (x ^ (m * 2 ^ n))" for g
    using ok_mono [OF pow_sq [OF that]] fe_rep_mono by fastforce
  then have "ok (\<lambda>h. fe_rep 3 h (x ^ (m * 2 ^ n + m * 2 ^ n))) (fe_sqs n f \<bind> fe_sq)"
    by (rule ok_bind [OF Suc.IH [OF Suc.prems]])
  moreover have "fe_sqs (Suc n) f = fe_sqs n f \<bind> fe_sq"
    unfolding fe_sqs_def by (simp add: ofold_append) (cases "ofold (\<lambda>_. fe_sq) [0..<n] f"; simp; cases "fe_sq (the (ofold (\<lambda>_. fe_sq) [0..<n] f))"; simp)
  ultimately show ?case by (simp add: mult_2 distrib_left)
qed

lemma pow_sq_bind:
  "fe_rep 3 f (x ^ m) \<Longrightarrow> m + m = e \<Longrightarrow> (\<And>h. fe_rep 3 h (x ^ e) \<Longrightarrow> ok Q (c h)) \<Longrightarrow> ok Q (fe_sq f \<bind> c)"
  by (rule ok_bind [OF pow_sq]) (auto dest: fe_rep_mono [where k = 1 and l = 3])

lemma pow_sqs_bind:
  "fe_rep 3 f (x ^ m) \<Longrightarrow> m * 2 ^ n = e \<Longrightarrow> (\<And>h. fe_rep 3 h (x ^ e) \<Longrightarrow> ok Q (c h)) \<Longrightarrow> ok Q (fe_sqs n f \<bind> c)"
  by (rule ok_bind [OF pow_sqs]) auto

lemma pow_mul_bind:
  "fe_rep 3 f (x ^ m) \<Longrightarrow> fe_rep 3 g (x ^ n) \<Longrightarrow> m + n = e \<Longrightarrow> (\<And>h. fe_rep 3 h (x ^ e) \<Longrightarrow> ok Q (c h)) \<Longrightarrow> ok Q (fe_mul f g \<bind> c)"
  by (rule ok_bind [OF pow_mul]) (auto dest: fe_rep_mono [where k = 1 and l = 3])

lemma fe_invert_ok:
  assumes "fe_rep k z x" "k \<le> 3"
  shows "ok (\<lambda>h. fe_rep 1 h (x ^ (2 ^ 255 - 21))) (fe_invert z)"
proof -
  have "ok (\<lambda>h. fe_rep 1 h (x ^ (2 ^ 255 - 21))) (fe_invert z)" if z: "fe_rep 3 z (x ^ 1)"
    using z unfolding fe_invert_def
    apply -
    apply ((rule pow_sq_bind pow_sqs_bind, assumption, simp (no_asm) | rule pow_mul_bind, assumption, assumption, simp (no_asm))+)
    apply (rule ok_mono, rule pow_mul, assumption, assumption, simp)
    done
  then show ?thesis using fe_rep_mono [OF assms] by simp
qed


lemma fe_divpowm1_ok:
  assumes u: "fe_rep 3 u x" and v: "fe_rep 3 v y"
  shows "ok (\<lambda>h. fe_rep 1 h ((x * y ^ 7) ^ (2 ^ 252 - 3) * (y * y * y) * x)) (fe_divpowm1 u v)"
proof -
  have up: "fe_rep 3 f z" if "fe_rep 1 f z" for f z using that by (rule fe_rep_mono) simp
  have v3: "ok (\<lambda>h. fe_rep 1 h (y * y * y)) (fe_mul a v)" if "fe_rep 1 a (y * y)" for a
    by (rule fe_mul_rep [OF up [OF that] v]) simp_all
  have v7: "ok (\<lambda>h. fe_rep 3 h ((x * y ^ 7) ^ 1)) (fe_mul b u)" if "fe_rep 1 b (y * y * y * (y * y * y) * y)" for b
  proof -
    have e: "y * y * y * (y * y * y) * y * x = (x * y ^ 7) ^ 1" by (simp add: eval_nat_numeral)
    have "ok (\<lambda>h. fe_rep 1 h (y * y * y * (y * y * y) * y * x)) (fe_mul b u)" by (rule fe_mul_rep [OF up [OF that] u]) simp_all
    then show ?thesis unfolding e by (rule ok_mono) (rule up)
  qed
  show ?thesis
    unfolding fe_divpowm1_def
    apply (rule ok_bind [OF fe_sq_rep [OF v]], simp)
    apply (rule ok_bind [OF v3], assumption)
    apply (rule ok_bind [OF fe_sq_rep], assumption, simp)
    apply (rule ok_bind [OF fe_mul_rep [OF up v]], assumption, simp, simp)
    apply (rule ok_bind [OF v7], assumption)
    apply ((rule pow_sq_bind pow_sqs_bind, assumption, simp (no_asm) | rule pow_mul_bind, assumption, assumption, simp (no_asm))+)
    apply (rule ok_bind [OF fe_mul_rep], assumption, assumption, simp, simp)
    apply (rule ok_mono [OF fe_mul_rep [OF up u]], assumption, simp, simp, simp)
    done
qed

section \<open>Batch inversion\<close>

text \<open>\<open>None\<close> inside \<open>Some\<close> where the code returns -1.\<close>

definition fe_batch_step :: "fe list \<Rightarrow> nat \<Rightarrow> fe list \<times> fe \<Rightarrow> (fe list \<times> fe) option" where
  "fe_batch_step ins i = (\<lambda>(out, a). do {
     h \<leftarrow> fe_mul a (out ! (i - 2));
     a \<leftarrow> fe_mul a (ins ! (i - 1));
     Some (out[i - 1 := h], a) })"

definition fe_batch_invert :: "fe list \<Rightarrow> fe list \<Rightarrow> fe list option option" where
  "fe_batch_invert out ins =
     (let n = length ins in
      if n = 0 then Some (Some out)
      else do {
        out \<leftarrow> ofold (\<lambda>i out. do { h \<leftarrow> fe_mul (out ! (i - 1)) (ins ! i); Some (out[i := h]) }) [1..<n] (out[0 := fe_copy (ins ! 0)]);
        nonzero \<leftarrow> fe_isnonzero (out ! (n - 1));
        if nonzero = 0 then Some None
        else do {
          a \<leftarrow> fe_invert (out ! (n - 1));
          (out, a) \<leftarrow> ofold (fe_batch_step ins) (rev [2..<Suc n]) (out, a);
          Some (Some (out[0 := fe_copy a])) } })"

definition prefixes :: "(nat \<Rightarrow> int) \<Rightarrow> nat \<Rightarrow> nat \<Rightarrow> fe list \<Rightarrow> bool" where
  "prefixes x n i out \<longleftrightarrow> length out = n \<and> (\<forall>j < i. fe_rep 1 (out ! j) (\<Prod>k \<le> j. x k))"

lemma up3: "fe_rep 1 f z \<Longrightarrow> fe_rep 3 f z"
  by (erule fe_rep_mono) simp

lemma batch_prefixes:
  assumes ins: "\<forall>j < n. fe_rep 1 (ins ! j) (x j)" and out: "length out = n" "0 < n"
  shows "m < n \<Longrightarrow> ok (prefixes x n (Suc m))
    (ofold (\<lambda>i out. do { h \<leftarrow> fe_mul (out ! (i - 1)) (ins ! i); Some (out[i := h]) }) [1..<Suc m] (out[0 := fe_copy (ins ! 0)]))"
proof (induction m)
  case 0
  then show ?case using fe_rep_copy [OF ins [rule_format, of 0]] out by (auto simp: prefixes_def intro: ok_Some)
next
  case (Suc m)
  let ?f = "\<lambda>i out. do { h \<leftarrow> fe_mul (out ! (i - 1)) (ins ! i); Some (out[i := h]) }"
  have "ok (prefixes x n (Suc (Suc m))) (?f (Suc m) o1)" if o1: "prefixes x n (Suc m) o1" for o1
  proof -
    have "fe_rep 3 (o1 ! m) (\<Prod>k \<le> m. x k)" using o1 by (auto simp: prefixes_def intro: up3)
    then have "ok (\<lambda>h. fe_rep 1 h ((\<Prod>k \<le> m. x k) * x (Suc m))) (fe_mul (o1 ! m) (ins ! Suc m))"
      by (rule fe_mul_rep [OF _ up3 [OF ins [rule_format]]]) (use Suc.prems in simp_all)
    then show ?thesis using o1 Suc.prems by (auto simp: ok_def prefixes_def nth_list_update less_Suc_eq)
  qed
  then have "ok (prefixes x n (Suc (Suc m))) (ofold ?f [1..<Suc m] (out[0 := fe_copy (ins ! 0)]) \<bind> ?f (Suc m))"
    using Suc by (intro ok_bind [OF Suc.IH]) auto
  moreover have "[1..<Suc (Suc m)] = [1..<Suc m] @ [Suc m]" by simp
  ultimately show ?case by (simp only: ofold_append ofold.simps) (simp add: bind_assoc)
qed

definition batch_inv :: "(nat \<Rightarrow> int) \<Rightarrow> nat \<Rightarrow> int \<Rightarrow> nat \<Rightarrow> fe list \<times> fe \<Rightarrow> bool" where
  "batch_inv x n q i = (\<lambda>(out, a). prefixes x n i out \<and> fe_rep 1 a (q * (\<Prod>k = i..<n. x k)) \<and>
     (\<forall>j < n. i \<le> j \<longrightarrow> fe_rep 1 (out ! j) (q * (\<Prod>k \<in> {..<n} - {j}. x k))))"

lemma batch_others:
  fixes x :: "nat \<Rightarrow> int"
  assumes "i < n"
  shows "(\<Prod>k = Suc i..<n. x k) * (\<Prod>k < i. x k) = (\<Prod>k \<in> {..<n} - {i}. x k)"
proof -
  have "{..<n} - {i} = {..<i} \<union> {Suc i..<n}" using assms by auto
  moreover have "{..<i} \<inter> {Suc i..<n} = {}" by auto
  ultimately show ?thesis using prod.union_disjoint [of "{..<i}" "{Suc i..<n}" x] by (simp add: mult.commute)
qed

lemma batch_step:
  assumes ins: "\<forall>j < n. fe_rep 1 (ins ! j) (x j)" and s: "batch_inv x n q (Suc (Suc i)) s" and i: "Suc i < n"
  shows "ok (batch_inv x n q (Suc i)) (fe_batch_step ins (Suc (Suc i)) s)"
proof -
  obtain out a where sa: "s = (out, a)" by fastforce
  note inv = s [unfolded batch_inv_def sa prod.case prefixes_def]
  have a: "fe_rep 3 a (q * (\<Prod>k = Suc (Suc i)..<n. x k))" and o: "fe_rep 3 (out ! i) (\<Prod>k \<le> i. x k)" using inv by (auto intro: up3)
  obtain h where h: "fe_mul a (out ! i) = Some h" "fe_rep 1 h (q * (\<Prod>k = Suc (Suc i)..<n. x k) * (\<Prod>k \<le> i. x k))"
    using fe_mul_rep [OF a o] by (auto simp: ok_def)
  obtain b where b: "fe_mul a (ins ! Suc i) = Some b" "fe_rep 1 b (q * (\<Prod>k = Suc (Suc i)..<n. x k) * x (Suc i))"
    using fe_mul_rep [OF a up3 [OF ins [rule_format, OF i]]] by (auto simp: ok_def)
  have "(\<Prod>k = Suc (Suc i)..<n. x k) * x (Suc i) = (\<Prod>k = Suc i..<n. x k)" using i by (simp add: prod.atLeast_Suc_lessThan [of "Suc i" n])
  then have b': "fe_rep 1 b (q * (\<Prod>k = Suc i..<n. x k))" using b(2) by (simp add: mult.assoc)
  have "(\<Prod>k = Suc (Suc i)..<n. x k) * (\<Prod>k \<le> i. x k) = (\<Prod>k \<in> {..<n} - {Suc i}. x k)"
    using batch_others [OF i, of x] by (simp only: lessThan_Suc_atMost)
  then have h': "fe_rep 1 h (q * (\<Prod>k \<in> {..<n} - {Suc i}. x k))" using h(2) by (simp add: mult.assoc)
  have "fe_batch_step ins (Suc (Suc i)) s = Some (out[Suc i := h], b)" using h(1) b(1) by (simp add: fe_batch_step_def sa)
  moreover have "batch_inv x n q (Suc i) (out[Suc i := h], b)"
    using inv h' b' i by (auto simp: batch_inv_def prefixes_def nth_list_update le_Suc_eq)
  ultimately show ?thesis by (simp add: ok_def)
qed

lemma batch_steps:
  assumes ins: "\<forall>j < n. fe_rep 1 (ins ! j) (x j)"
  shows "Suc m \<le> n \<Longrightarrow> batch_inv x n q (Suc m) s \<Longrightarrow> ok (batch_inv x n q 1) (ofold (fe_batch_step ins) (rev [2..<Suc (Suc m)]) s)"
proof (induction m arbitrary: s)
  case (Suc m)
  have r: "rev [2..<Suc (Suc (Suc m))] = Suc (Suc m) # rev [2..<Suc (Suc m)]" by simp
  have "ok (batch_inv x n q (Suc m)) (fe_batch_step ins (Suc (Suc m)) s)" using batch_step [OF ins Suc.prems(2)] Suc.prems(1) by simp
  then show ?case unfolding r ofold.simps by (rule ok_bind) (rule Suc.IH, use Suc.prems in simp_all)
qed (simp add: ok_Some)

lemma fe_batch_invert_ok:
  assumes ins: "\<forall>j < n. fe_rep 1 (ins ! j) (x j)" and n: "length ins = n" "length out = n" "0 < n"
    and P: "P = (\<Prod>k < n. x k)" and e: "e = 2 ^ 255 - 21"
  shows "ok (\<lambda>r. case r of None \<Rightarrow> P mod fe_p = 0
    | Some out \<Rightarrow> P mod fe_p \<noteq> 0 \<and> length out = n \<and> (\<forall>j < n. fe_rep 1 (out ! j) (P ^ e * (\<Prod>k \<in> {..<n} - {j}. x k))))
    (fe_batch_invert out ins)"
proof -
  obtain m where m: "n = Suc m" using n(3) by (cases n) auto
  obtain o1 where o1: "ofold (\<lambda>i out. do { h \<leftarrow> fe_mul (out ! (i - 1)) (ins ! i); Some (out[i := h]) }) [1..<n] (out[0 := fe_copy (ins ! 0)]) = Some o1"
      "prefixes x n n o1"
  proof -
    have "m < n" using m by simp
    from batch_prefixes [of n ins x out m, OF ins n(2,3) this]
    show thesis unfolding m [symmetric] ok_def by (elim exE conjE) (rule that)
  qed
  have "{..m} = {..<n}" using m by auto
  moreover have "fe_rep 1 (o1 ! m) (\<Prod>k \<le> m. x k)" using o1(2) m by (simp add: prefixes_def)
  ultimately have l: "fe_rep 1 (o1 ! (n - 1)) P" by (simp add: m P)
  note nz = fe_isnonzero_rep [OF l]
  show ?thesis
  proof (cases "P mod fe_p = 0")
    case True
    then show ?thesis using o1(1) nz n by (simp add: fe_batch_invert_def Let_def ok_def)
  next
    case False
    obtain a where a: "fe_invert (o1 ! (n - 1)) = Some a" "fe_rep 1 a (P ^ e)"
      using fe_invert_ok [OF l] unfolding ok_def e by auto
    have "batch_inv x n (P ^ e) n (o1, a)" using o1(2) a(2) by (simp add: batch_inv_def)
    then obtain o2 b where o2: "ofold (fe_batch_step ins) (rev [2..<Suc n]) (o1, a) = Some (o2, b)" "batch_inv x n (P ^ e) 1 (o2, b)"
      using batch_steps [OF ins, of m "P ^ e" "(o1, a)"] m by (auto simp: ok_def)
    have b: "fe_rep 1 (fe_copy b) (P ^ e * (\<Prod>k \<in> {..<n} - {0}. x k))"
      using fe_rep_copy o2(2) batch_others [of 0 n x] n(3) by (simp add: batch_inv_def)
    have "fe_batch_invert out ins = Some (Some (o2[0 := fe_copy b]))"
      using o1(1) nz n a(1) o2(1) False by (simp add: fe_batch_invert_def Let_def)
    moreover have "fe_rep 1 (o2[0 := fe_copy b] ! j) (P ^ e * (\<Prod>k \<in> {..<n} - {j}. x k))" if "j < n" for j
      using o2(2) b that by (cases "j = 0") (simp_all add: batch_inv_def prefixes_def)
    ultimately show ?thesis using False o2(2) by (simp add: ok_def batch_inv_def prefixes_def)
  qed
qed

section \<open>Properties\<close>

lemma fe_frombytes_tobytes:
  assumes "length s = 32" "le_nat s < nat fe_p"
  shows "\<exists>g. fe_frombytes_vartime s = Some (Some g) \<and> fe_bnd 1 g \<and> fe_value g mod fe_p = int (le_nat s) \<and> fe_tobytes g = Some s"
proof -
  have "nat fe_p < 2 ^ 255" by (simp add: fe_p_def)
  then have "le_nat s < 2 ^ 255" using assms(2) by linarith
  then have m: "le_nat s mod 2 ^ 255 = le_nat s" by (rule mod_less)
  then obtain g where g: "fe_frombytes_vartime s = Some (Some g)" "fe_bnd 1 g" "fe_value g mod fe_p = int (le_nat s)"
    using fe_frombytes_ok(2) [OF assms(1)] assms(2) by auto
  obtain t where t: "fe_tobytes g = Some t" "length t = 32" "int (le_nat t) = fe_value g mod fe_p"
    using fe_tobytes_ok [OF fe_bnd_mono [OF g(2)]] by auto
  then have "t = s" using le_nat_inj [of t s] g(3) assms(1) by simp
  then show ?thesis using g t by blast
qed

text \<open>C28: field elements keep their limb bounds, so that no 32-bit limb and no 64-bit accumulator overflows: with operands
  up to three times the bounds of a reduced element, \<^verbatim>\<open>fe_mul\<close>, \<^verbatim>\<open>fe_sq\<close> and \<^verbatim>\<open>fe_sq2\<close> return a
  reduced element and \<^verbatim>\<open>fe_add\<close>, \<^verbatim>\<open>fe_sub\<close>, \<^verbatim>\<open>fe_neg\<close> one within the sum of the operands' bounds,
  each with the value of the arithmetic operation modulo 2^255-19.\<close>

theorem fe_arith_correct:
  assumes "fe_bnd k f" "fe_bnd l g" "k \<le> 3" "l \<le> 3"
  shows "ok (\<lambda>h. fe_bnd 1 h \<and> fe_value h mod fe_p = (fe_value f * fe_value g) mod fe_p) (fe_mul f g) \<and>
    ok (\<lambda>h. fe_bnd 1 h \<and> fe_value h mod fe_p = (fe_value f * fe_value f) mod fe_p) (fe_sq f) \<and>
    ok (\<lambda>h. fe_bnd 1 h \<and> fe_value h mod fe_p = (2 * (fe_value f * fe_value f)) mod fe_p) (fe_sq2 f) \<and>
    ok (\<lambda>h. fe_bnd (k + l) h \<and> fe_value h = fe_value f + fe_value g) (fe_add f g) \<and>
    ok (\<lambda>h. fe_bnd (k + l) h \<and> fe_value h = fe_value f - fe_value g) (fe_sub f g) \<and>
    ok (\<lambda>h. fe_bnd k h \<and> fe_value h = - fe_value f) (fe_neg f)"
  using fe_mul_ok [OF fe_bnd_mono [OF assms(1,3)] fe_bnd_mono [OF assms(2,4)]] fe_sq_ok [OF fe_bnd_mono [OF assms(1,3)]]
    fe_sq2_ok [OF fe_bnd_mono [OF assms(1,3)]] fe_add_ok [OF assms(1,2)] fe_sub_ok [OF assms(1,2)] fe_neg_ok [OF assms(1)] assms(3,4)
  unfolding ok_def by simp

theorem fe_arith_correct_witness:
  "fe_bnd 3 (replicate 10 50000000) \<and> ok (\<lambda>h. fe_bnd 1 h \<and> fe_value h mod fe_p =
     (fe_value (replicate 10 50000000) * fe_value (replicate 10 50000000)) mod fe_p) (fe_mul (replicate 10 50000000) (replicate 10 50000000))"
proof -
  have "fe_bnd 3 (replicate 10 50000000)" by (simp add: fe_bnd_def fe_unit_def)
  then show ?thesis using fe_arith_correct [of 3 "replicate 10 50000000" 3 "replicate 10 50000000"] by simp
qed

text \<open>C29: \<^verbatim>\<open>fe_tobytes\<close> writes the canonical 32-byte little-endian residue of an element, reading these bytes with
  \<^verbatim>\<open>fe_frombytes_vartime\<close> gives the element back, and \<^verbatim>\<open>fe_reduce_vartime\<close> therefore returns a
  reduced element of the same value.\<close>

theorem fe_bytes_roundtrip:
  assumes "fe_bnd 3 f"
  shows "\<exists>s g. fe_tobytes f = Some s \<and> length s = 32 \<and> int (le_nat s) = fe_value f mod fe_p \<and>
    fe_frombytes_vartime s = Some (Some g) \<and> fe_reduce_vartime f = Some (Some g) \<and>
    fe_bnd 1 g \<and> fe_value g mod fe_p = fe_value f mod fe_p \<and> fe_tobytes g = Some s"
proof -
  obtain s where s: "fe_tobytes f = Some s" "length s = 32" "int (le_nat s) = fe_value f mod fe_p"
    using fe_tobytes_ok [OF assms] by blast
  have "int (le_nat s) < fe_p" unfolding s(3) by (simp add: fe_p_def)
  then have "le_nat s < nat fe_p" by linarith
  from fe_frombytes_tobytes [OF s(2) this] s show ?thesis by (auto simp: fe_reduce_vartime_def)
qed

theorem fe_bytes_roundtrip_witness:
  "\<exists>s g. fe_tobytes (replicate 10 (- 1)) = Some s \<and> length s = 32 \<and> fe_frombytes_vartime s = Some (Some g) \<and> fe_tobytes g = Some s"
proof -
  have "fe_bnd 3 (replicate 10 (- 1))" by (simp add: fe_bnd_def fe_unit_def)
  from fe_bytes_roundtrip [OF this] show ?thesis by blast
qed

text \<open>\<^verbatim>\<open>fe_frombytes_vartime\<close> returns -1 exactly on the non-canonical encodings, those whose low 255 bits
  are 2^255-19 or more.\<close>

theorem fe_frombytes_rejects_iff:
  assumes "length s = 32"
  shows "fe_frombytes_vartime s = Some None \<longleftrightarrow> int (le_nat s mod 2 ^ 255) \<ge> fe_p"
proof (cases "le_nat s mod 2 ^ 255 \<ge> nat fe_p")
  case True
  then show ?thesis using fe_frombytes_ok(1) [OF assms] by linarith
next
  case False
  then obtain y where "fe_frombytes_vartime s = Some (Some y)" using fe_frombytes_ok(2) [OF assms] by (meson not_le)
  moreover have "\<not> fe_p \<le> int (le_nat s mod 2 ^ 255)" using False by (simp only: nat_le_iff not_False_eq_True)
  ultimately show ?thesis by simp
qed

theorem fe_frombytes_rejects_iff_witness:
  "length (replicate 32 (255 :: u8)) = 32 \<and> fe_frombytes_vartime (replicate 32 255) = Some None"
proof -
  have "le_nat (replicate 32 (255 :: u8)) = 2 ^ 256 - 1" using le_nat_replicate [of 32 "255 :: u8"] by simp
  then have "int (le_nat (replicate 32 (255 :: u8)) mod 2 ^ 255) \<ge> fe_p" by (simp add: fe_p_def)
  then show ?thesis using fe_frombytes_rejects_iff [of "replicate 32 255"] by simp
qed

text \<open>C30: \<^verbatim>\<open>fe_invert\<close> raises to the power 2^255-21, the exponent of the inverse modulo the prime 2^255-19, and
  \<^verbatim>\<open>fe_batch_invert\<close> returns -1 exactly when some product of the inputs vanishes and otherwise writes for every input
  the same power of the product of all inputs times the product of the other inputs: every input times its output is
  one and the same value, the product to the power 2^255-20.\<close>

theorem fe_batch_invert_correct:
  assumes "\<forall>f \<in> set ins. fe_bnd 1 f" "ins \<noteq> []" "length out = length ins"
  shows "ok (\<lambda>r. case r of
      None \<Rightarrow> prod_list (map fe_value ins) mod fe_p = 0
    | Some out \<Rightarrow> prod_list (map fe_value ins) mod fe_p \<noteq> 0 \<and> length out = length ins \<and>
        (\<forall>j < length ins. fe_bnd 1 (out ! j) \<and>
           (fe_value (ins ! j) * fe_value (out ! j)) mod fe_p = (prod_list (map fe_value ins) ^ (2 ^ 255 - 20)) mod fe_p))
    (fe_batch_invert out ins) \<and>
    (\<forall>f \<in> set ins. ok (\<lambda>h. fe_bnd 1 h \<and> fe_value h mod fe_p = (fe_value f ^ (2 ^ 255 - 21)) mod fe_p) (fe_invert f))"
proof -
  let ?n = "length ins" and ?x = "\<lambda>j. fe_value (ins ! j)"
  define P e where "P = (\<Prod>k < ?n. ?x k)" and "e = (2 ^ 255 - 21 :: nat)"
  have P: "prod_list (map fe_value ins) = P" unfolding P_def prod.list_conv_set_nth by (simp add: atLeast0LessThan)
  have e: "2 ^ 255 - 20 = Suc e" by (simp add: e_def)
  have ins: "\<forall>j < ?n. fe_rep 1 (ins ! j) (?x j)" using assms(1) by (auto intro: fe_rep_value)
  have key: "(?x j * fe_value f) mod fe_p = (P ^ Suc e) mod fe_p" if "j < ?n" "fe_rep 1 f (P ^ e * (\<Prod>k \<in> {..<?n} - {j}. ?x k))" for j f
  proof -
    have "P = ?x j * (\<Prod>k \<in> {..<?n} - {j}. ?x k)" unfolding P_def using that(1) by (simp add: prod.remove)
    then have "?x j * (P ^ e * (\<Prod>k \<in> {..<?n} - {j}. ?x k)) = P ^ Suc e" by (simp add: ac_simps)
    moreover have "(?x j * fe_value f) mod fe_p = (?x j * (P ^ e * (\<Prod>k \<in> {..<?n} - {j}. ?x k))) mod fe_p"
      using that(2) by (intro mod_mult_cong) (auto simp: fe_rep_def)
    ultimately show ?thesis by (simp only:)
  qed
  have "ok (\<lambda>r. case r of None \<Rightarrow> P mod fe_p = 0 | Some out \<Rightarrow> P mod fe_p \<noteq> 0 \<and> length out = ?n \<and>
      (\<forall>j < ?n. fe_rep 1 (out ! j) (P ^ e * (\<Prod>k \<in> {..<?n} - {j}. ?x k)))) (fe_batch_invert out ins)"
    by (rule fe_batch_invert_ok [OF ins refl assms(3) _ P_def e_def]) (use assms(2) in simp)
  then have "ok (\<lambda>r. case r of None \<Rightarrow> P mod fe_p = 0 | Some out \<Rightarrow> P mod fe_p \<noteq> 0 \<and> length out = ?n \<and>
      (\<forall>j < ?n. fe_bnd 1 (out ! j) \<and> (?x j * fe_value (out ! j)) mod fe_p = (P ^ Suc e) mod fe_p)) (fe_batch_invert out ins)"
    by (rule ok_mono) (auto split: option.splits simp: key, auto simp: fe_rep_def)
  moreover have "ok (\<lambda>h. fe_bnd 1 h \<and> fe_value h mod fe_p = (fe_value f ^ e) mod fe_p) (fe_invert f)" if "f \<in> set ins" for f
    unfolding e_def fe_rep_def [symmetric] using assms(1) that by (intro fe_invert_ok [OF fe_rep_value]) auto
  ultimately show ?thesis unfolding P e unfolding e_def [symmetric] by blast
qed

theorem fe_batch_invert_correct_witness:
  "ok (\<lambda>r. case r of None \<Rightarrow> prod_list (map fe_value [fe_1, fe_1]) mod fe_p = 0
    | Some out \<Rightarrow> length out = 2 \<and> (\<forall>j < 2. fe_bnd 1 (out ! j))) (fe_batch_invert [fe_0, fe_0] [fe_1, fe_1])"
proof -
  have "fe_bnd 1 fe_1" using fe_rep_1 by (simp add: fe_rep_def)
  then have "\<forall>f \<in> set [fe_1, fe_1]. fe_bnd 1 f" by simp
  note t = fe_batch_invert_correct [OF this, of "[fe_0, fe_0]", THEN conjunct1]
  show ?thesis by (rule ok_mono [OF t]) (simp_all del: power_numeral split: option.splits)
qed

end
