(* ===== verification/Group25519.thy ===== *)
theory Group25519
  imports Field_Power
begin

unbundle bit_operations_syntax

text \<open>
  Points of the Edwards curve \<open>-x^2 + y^2 = 1 + d x^2 y^2\<close> in the coordinate systems of
  \<open>src/crypto/crypto-ops.c\<close>: projective (\<open>ge_p2\<close>), extended (\<open>ge_p3\<close>), completed (\<open>ge_p1p1\<close>), and the two
  forms prepared for additions (\<open>ge_precomp\<close>, \<open>ge_cached\<close>).
\<close>

section \<open>Coordinates\<close>

record ge_p2 =
  p2_X :: fe
  p2_Y :: fe
  p2_Z :: fe

record ge_p3 =
  p3_X :: fe
  p3_Y :: fe
  p3_Z :: fe
  p3_T :: fe

record ge_p1p1 =
  p1p1_X :: fe
  p1p1_Y :: fe
  p1p1_Z :: fe
  p1p1_T :: fe

record ge_precomp =
  yplusx :: fe
  yminusx :: fe
  xy2d :: fe

record ge_cached =
  YplusX :: fe
  YminusX :: fe
  cached_Z :: fe
  T2d :: fe

definition fe_d :: fe where
  "fe_d = [-10913610, 13857413, -15372611, 6949391, 114729, -8787816, -6275908, -3247719, -18696448, -12055116]"

definition fe_sqrtm1 :: fe where
  "fe_sqrtm1 = [-32595792, -7943725, 9377950, 3500415, 12389472, -272473, -25146209, -2005654, 326686, 11406482]"

definition fe_d2 :: fe where
  "fe_d2 = [-21827239, -5839606, -30745221, 13898782, 229458, 15978800, -12551817, -6495438, 29715968, 9444199]"

section \<open>Group operations\<close>

definition ge_add :: "ge_p3 \<Rightarrow> ge_cached \<Rightarrow> ge_p1p1 option" where
  "ge_add p q = do {
     rX \<leftarrow> fe_add (p3_Y p) (p3_X p);
     rY \<leftarrow> fe_sub (p3_Y p) (p3_X p);
     rZ \<leftarrow> fe_mul rX (YplusX q);
     rY \<leftarrow> fe_mul rY (YminusX q);
     rT \<leftarrow> fe_mul (T2d q) (p3_T p);
     rX \<leftarrow> fe_mul (p3_Z p) (cached_Z q);
     t0 \<leftarrow> fe_add rX rX;
     rX \<leftarrow> fe_sub rZ rY;
     rY \<leftarrow> fe_add rZ rY;
     rZ \<leftarrow> fe_add t0 rT;
     rT \<leftarrow> fe_sub t0 rT;
     Some \<lparr>p1p1_X = rX, p1p1_Y = rY, p1p1_Z = rZ, p1p1_T = rT\<rparr> }"

definition ge_sub :: "ge_p3 \<Rightarrow> ge_cached \<Rightarrow> ge_p1p1 option" where
  "ge_sub p q = do {
     rX \<leftarrow> fe_add (p3_Y p) (p3_X p);
     rY \<leftarrow> fe_sub (p3_Y p) (p3_X p);
     rZ \<leftarrow> fe_mul rX (YminusX q);
     rY \<leftarrow> fe_mul rY (YplusX q);
     rT \<leftarrow> fe_mul (T2d q) (p3_T p);
     rX \<leftarrow> fe_mul (p3_Z p) (cached_Z q);
     t0 \<leftarrow> fe_add rX rX;
     rX \<leftarrow> fe_sub rZ rY;
     rY \<leftarrow> fe_add rZ rY;
     rZ \<leftarrow> fe_sub t0 rT;
     rT \<leftarrow> fe_add t0 rT;
     Some \<lparr>p1p1_X = rX, p1p1_Y = rY, p1p1_Z = rZ, p1p1_T = rT\<rparr> }"

definition ge_madd :: "ge_p3 \<Rightarrow> ge_precomp \<Rightarrow> ge_p1p1 option" where
  "ge_madd p q = do {
     rX \<leftarrow> fe_add (p3_Y p) (p3_X p);
     rY \<leftarrow> fe_sub (p3_Y p) (p3_X p);
     rZ \<leftarrow> fe_mul rX (yplusx q);
     rY \<leftarrow> fe_mul rY (yminusx q);
     rT \<leftarrow> fe_mul (xy2d q) (p3_T p);
     t0 \<leftarrow> fe_add (p3_Z p) (p3_Z p);
     rX \<leftarrow> fe_sub rZ rY;
     rY \<leftarrow> fe_add rZ rY;
     rZ \<leftarrow> fe_add t0 rT;
     rT \<leftarrow> fe_sub t0 rT;
     Some \<lparr>p1p1_X = rX, p1p1_Y = rY, p1p1_Z = rZ, p1p1_T = rT\<rparr> }"

definition ge_msub :: "ge_p3 \<Rightarrow> ge_precomp \<Rightarrow> ge_p1p1 option" where
  "ge_msub p q = do {
     rX \<leftarrow> fe_add (p3_Y p) (p3_X p);
     rY \<leftarrow> fe_sub (p3_Y p) (p3_X p);
     rZ \<leftarrow> fe_mul rX (yminusx q);
     rY \<leftarrow> fe_mul rY (yplusx q);
     rT \<leftarrow> fe_mul (xy2d q) (p3_T p);
     t0 \<leftarrow> fe_add (p3_Z p) (p3_Z p);
     rX \<leftarrow> fe_sub rZ rY;
     rY \<leftarrow> fe_add rZ rY;
     rZ \<leftarrow> fe_sub t0 rT;
     rT \<leftarrow> fe_add t0 rT;
     Some \<lparr>p1p1_X = rX, p1p1_Y = rY, p1p1_Z = rZ, p1p1_T = rT\<rparr> }"

definition ge_p1p1_to_p2 :: "ge_p1p1 \<Rightarrow> ge_p2 option" where
  "ge_p1p1_to_p2 p = do {
     rX \<leftarrow> fe_mul (p1p1_X p) (p1p1_T p);
     rY \<leftarrow> fe_mul (p1p1_Y p) (p1p1_Z p);
     rZ \<leftarrow> fe_mul (p1p1_Z p) (p1p1_T p);
     Some \<lparr>p2_X = rX, p2_Y = rY, p2_Z = rZ\<rparr> }"

definition ge_p1p1_to_p3 :: "ge_p1p1 \<Rightarrow> ge_p3 option" where
  "ge_p1p1_to_p3 p = do {
     rX \<leftarrow> fe_mul (p1p1_X p) (p1p1_T p);
     rY \<leftarrow> fe_mul (p1p1_Y p) (p1p1_Z p);
     rZ \<leftarrow> fe_mul (p1p1_Z p) (p1p1_T p);
     rT \<leftarrow> fe_mul (p1p1_X p) (p1p1_Y p);
     Some \<lparr>p3_X = rX, p3_Y = rY, p3_Z = rZ, p3_T = rT\<rparr> }"

definition ge_p2_0 :: ge_p2 where
  "ge_p2_0 = \<lparr>p2_X = fe_0, p2_Y = fe_1, p2_Z = fe_1\<rparr>"

definition ge_p2_dbl :: "ge_p2 \<Rightarrow> ge_p1p1 option" where
  "ge_p2_dbl p = do {
     rX \<leftarrow> fe_sq (p2_X p);
     rZ \<leftarrow> fe_sq (p2_Y p);
     rT \<leftarrow> fe_sq2 (p2_Z p);
     rY \<leftarrow> fe_add (p2_X p) (p2_Y p);
     t0 \<leftarrow> fe_sq rY;
     rY \<leftarrow> fe_add rZ rX;
     rZ \<leftarrow> fe_sub rZ rX;
     rX \<leftarrow> fe_sub t0 rY;
     rT \<leftarrow> fe_sub rT rZ;
     Some \<lparr>p1p1_X = rX, p1p1_Y = rY, p1p1_Z = rZ, p1p1_T = rT\<rparr> }"

definition ge_p3_0 :: ge_p3 where
  "ge_p3_0 = \<lparr>p3_X = fe_0, p3_Y = fe_1, p3_Z = fe_1, p3_T = fe_0\<rparr>"

definition ge_p3_to_p2 :: "ge_p3 \<Rightarrow> ge_p2" where
  "ge_p3_to_p2 p = \<lparr>p2_X = fe_copy (p3_X p), p2_Y = fe_copy (p3_Y p), p2_Z = fe_copy (p3_Z p)\<rparr>"

definition ge_p3_dbl :: "ge_p3 \<Rightarrow> ge_p1p1 option" where
  "ge_p3_dbl p = (let q = ge_p3_to_p2 p in ge_p2_dbl q)"

definition ge_p3_to_cached :: "ge_p3 \<Rightarrow> ge_cached option" where
  "ge_p3_to_cached p = do {
     a \<leftarrow> fe_add (p3_Y p) (p3_X p);
     b \<leftarrow> fe_sub (p3_Y p) (p3_X p);
     let c = fe_copy (p3_Z p);
     e \<leftarrow> fe_mul (p3_T p) fe_d2;
     Some \<lparr>YplusX = a, YminusX = b, cached_Z = c, T2d = e\<rparr> }"

definition ge_precomp_0 :: ge_precomp where
  "ge_precomp_0 = \<lparr>yplusx = fe_1, yminusx = fe_1, xy2d = fe_0\<rparr>"

definition ge_cached_0 :: ge_cached where
  "ge_cached_0 = \<lparr>YplusX = fe_1, YminusX = fe_1, cached_Z = fe_1, T2d = fe_0\<rparr>"

definition ge_precomp_cmov :: "ge_precomp \<Rightarrow> ge_precomp \<Rightarrow> u8 \<Rightarrow> ge_precomp option" where
  "ge_precomp_cmov t u b = do {
     x \<leftarrow> fe_cmov (yplusx t) (yplusx u) (ucast b);
     y \<leftarrow> fe_cmov (yminusx t) (yminusx u) (ucast b);
     z \<leftarrow> fe_cmov (xy2d t) (xy2d u) (ucast b);
     Some \<lparr>yplusx = x, yminusx = y, xy2d = z\<rparr> }"

definition ge_cached_cmov :: "ge_cached \<Rightarrow> ge_cached \<Rightarrow> u8 \<Rightarrow> ge_cached option" where
  "ge_cached_cmov t u b = do {
     x \<leftarrow> fe_cmov (YplusX t) (YplusX u) (ucast b);
     y \<leftarrow> fe_cmov (YminusX t) (YminusX u) (ucast b);
     z \<leftarrow> fe_cmov (cached_Z t) (cached_Z u) (ucast b);
     w \<leftarrow> fe_cmov (T2d t) (T2d u) (ucast b);
     Some \<lparr>YplusX = x, YminusX = y, cached_Z = z, T2d = w\<rparr> }"

text \<open>\<open>r = 8 * t\<close>.\<close>

definition ge_mul8 :: "ge_p2 \<Rightarrow> ge_p1p1 option" where
  "ge_mul8 t = do {
     r \<leftarrow> ge_p2_dbl t;
     u \<leftarrow> ge_p1p1_to_p2 r;
     r \<leftarrow> ge_p2_dbl u;
     u \<leftarrow> ge_p1p1_to_p2 r;
     ge_p2_dbl u }"

text \<open>Bytes of a point: \<open>Some None\<close> where the code returns -1.\<close>

definition ge_frombytes_vartime :: "bytes \<Rightarrow> ge_p3 option option" where
  "ge_frombytes_vartime s = do {
     r \<leftarrow> fe_frombytes_vartime s;
     (case r of None \<Rightarrow> Some None | Some hY \<Rightarrow> do {
       let hZ = fe_1;
       u \<leftarrow> fe_sq hY;
       v \<leftarrow> fe_mul u fe_d;
       u \<leftarrow> fe_sub u hZ;
       v \<leftarrow> fe_add v hZ;
       hX \<leftarrow> fe_divpowm1 u v;
       vxx \<leftarrow> fe_sq hX;
       vxx \<leftarrow> fe_mul vxx v;
       r \<leftarrow> do {
         check \<leftarrow> fe_sub vxx u;
         nz \<leftarrow> fe_isnonzero check;
         if nz \<noteq> 0 then do {
           check \<leftarrow> fe_add vxx u;
           nz \<leftarrow> fe_isnonzero check;
           if nz \<noteq> 0 then Some None else do { hX \<leftarrow> fe_mul hX fe_sqrtm1; Some (Some hX) } }
         else Some (Some hX) };
       (case r of None \<Rightarrow> Some None | Some hX \<Rightarrow> do {
         neg \<leftarrow> fe_isnegative hX;
         r \<leftarrow> (if neg \<noteq> uint (drop_bit 7 (s ! 31)) then do {
             nz \<leftarrow> fe_isnonzero hX;
             if nz = 0 then Some None else do { hX \<leftarrow> fe_neg hX; Some (Some hX) } }
           else Some (Some hX));
         (case r of None \<Rightarrow> Some None | Some hX \<Rightarrow> do {
           hT \<leftarrow> fe_mul hX hY;
           Some (Some \<lparr>p3_X = hX, p3_Y = hY, p3_Z = hZ, p3_T = hT\<rparr>) }) }) }) }"

definition ge_p3_tobytes :: "ge_p3 \<Rightarrow> bytes option" where
  "ge_p3_tobytes h = do {
     recip \<leftarrow> fe_invert (p3_Z h);
     x \<leftarrow> fe_mul (p3_X h) recip;
     y \<leftarrow> fe_mul (p3_Y h) recip;
     s \<leftarrow> fe_tobytes y;
     neg \<leftarrow> fe_isnegative x;
     Some (s[31 := s ! 31 XOR word_of_int (neg * 2 ^ 7)]) }"

definition ge_tobytes :: "ge_p2 \<Rightarrow> bytes option" where
  "ge_tobytes h = do {
     recip \<leftarrow> fe_invert (p2_Z h);
     x \<leftarrow> fe_mul (p2_X h) recip;
     y \<leftarrow> fe_mul (p2_Y h) recip;
     s \<leftarrow> fe_tobytes y;
     neg \<leftarrow> fe_isnegative x;
     Some (s[31 := s ! 31 XOR word_of_int (neg * 2 ^ 7)]) }"

definition edwardsYZ_to_x25519 :: "fe \<Rightarrow> fe \<Rightarrow> (int \<times> bytes) option" where
  "edwardsYZ_to_x25519 Y Z = do {
     tmp0 \<leftarrow> fe_add Z Y;
     tmp1 \<leftarrow> fe_sub Z Y;
     nz \<leftarrow> fe_isnonzero tmp1;
     let r = (if nz = 0 then - 1 else 0);
     tmp1 \<leftarrow> fe_invert tmp1;
     tmp0 \<leftarrow> fe_mul tmp0 tmp1;
     xbytes \<leftarrow> fe_tobytes tmp0;
     Some (r, xbytes) }"

definition ge_p3_to_x25519 :: "ge_p3 \<Rightarrow> (int \<times> bytes) option" where
  "ge_p3_to_x25519 h = edwardsYZ_to_x25519 (p3_Y h) (p3_Z h)"

text \<open>The bytes are written only when the point decodes.\<close>

definition edwards_bytes_to_x25519_vartime :: "bytes \<Rightarrow> (int \<times> bytes option) option" where
  "edwards_bytes_to_x25519_vartime s = do {
     r \<leftarrow> ge_frombytes_vartime s;
     (case r of None \<Rightarrow> Some (- 1, None)
      | Some h \<Rightarrow> do { (r, xbytes) \<leftarrow> edwardsYZ_to_x25519 (p3_Y h) (p3_Z h); Some (r, Some xbytes) }) }"

definition ge_p3_is_point_at_infinity_vartime :: "ge_p3 \<Rightarrow> bool option" where
  "ge_p3_is_point_at_infinity_vartime p = do {
     result_X_bytes \<leftarrow> fe_tobytes (p3_X p);
     if list_ex (\<lambda>b. b \<noteq> 0) result_X_bytes then Some False else do {
     result_T_bytes \<leftarrow> fe_tobytes (p3_T p);
     if list_ex (\<lambda>b. b \<noteq> 0) result_T_bytes then Some False else do {
     result_Y_bytes \<leftarrow> fe_tobytes (p3_Y p);
     result_Z_bytes \<leftarrow> fe_tobytes (p3_Z p);
     if list_ex (\<lambda>i. result_Y_bytes ! i \<noteq> result_Z_bytes ! i) [0..<32] then Some False
     else Some (list_ex (\<lambda>b. b \<noteq> 0) result_Y_bytes) } } }"

definition fe_a_inv_3 :: fe where
  "fe_a_inv_3 = [-22207407, 11184811, 22369621, -11184811, -22369621, 11184811, 22369621, -11184811, -22369621, 11184811]"

definition fe_c :: fe where
  "fe_c = [12222970, 8312128, 11511410, -9067497, 15300785, 241793, -25456130, -14121551, 12187136, -3972024]"

definition fe_ed_derivatives_to_wei_x :: "fe \<Rightarrow> fe \<Rightarrow> bytes option" where
  "fe_ed_derivatives_to_wei_x inv_one_minus_y one_plus_y = do {
     inv_one_minus_y_mul_one_plus_y \<leftarrow> fe_mul inv_one_minus_y one_plus_y;
     wei_x_fe \<leftarrow> fe_add inv_one_minus_y_mul_one_plus_y fe_a_inv_3;
     fe_tobytes wei_x_fe }"

definition fe_ed_derivatives_to_wei_x_y :: "fe \<Rightarrow> fe \<Rightarrow> fe \<Rightarrow> (bytes \<times> bytes) option" where
  "fe_ed_derivatives_to_wei_x_y inv_one_minus_y one_plus_y inv_one_minus_y_mul_x = do {
     wei_x \<leftarrow> fe_ed_derivatives_to_wei_x inv_one_minus_y one_plus_y;
     fe_c_mul_one_plus_y \<leftarrow> fe_mul fe_c one_plus_y;
     wei_y_fe \<leftarrow> fe_mul fe_c_mul_one_plus_y inv_one_minus_y_mul_x;
     wei_y \<leftarrow> fe_tobytes wei_y_fe;
     Some (wei_x, wei_y) }"

section \<open>The curve\<close>

type_synonym point = "int \<times> int"

definition ed_d :: int where
  "ed_d = 37095705934669439343138083508754565189542113879843219016388785533085940283555"

definition unit_p :: "int \<Rightarrow> bool" where
  "unit_p z \<longleftrightarrow> (\<exists>w. (z * w) mod fe_p = 1)"

definition ed_curve :: "point \<Rightarrow> bool" where
  "ed_curve = (\<lambda>(x, y). (y * y - x * x) mod fe_p = (1 + ed_d * (x * x * (y * y))) mod fe_p)"

definition ed_neg :: "point \<Rightarrow> point" where
  "ed_neg = (\<lambda>(x, y). (- x, y))"

text \<open>\<open>(x3, y3)\<close> is the sum by the addition law, whose denominators are invertible.\<close>

definition ed_sum :: "point \<Rightarrow> point \<Rightarrow> point \<Rightarrow> bool" where
  "ed_sum = (\<lambda>(x1, y1) (x2, y2) (x3, y3).
     let D = ed_d * (x1 * x2 * (y1 * y2)) in
     unit_p (1 + D) \<and> unit_p (1 - D) \<and>
     (x3 * (1 + D)) mod fe_p = (x1 * y2 + y1 * x2) mod fe_p \<and>
     (y3 * (1 - D)) mod fe_p = (y1 * y2 + x1 * x2) mod fe_p)"

lemma fe_p_gt: "1 < fe_p"
  by (simp add: fe_p_def)

lemma unit_p_1: "unit_p 1"
  unfolding unit_p_def using fe_p_gt by (intro exI [of _ 1]) simp

lemma unit_p_2: "unit_p 2"
  unfolding unit_p_def by (intro exI [of _ "2 ^ 254 - 9"]) (simp add: fe_p_def)

lemma unit_p_mult: "unit_p a \<Longrightarrow> unit_p b \<Longrightarrow> unit_p (a * b)"
proof -
  assume "unit_p a" "unit_p b"
  then obtain v w where vw: "(a * v) mod fe_p = 1" "(b * w) mod fe_p = 1" by (auto simp: unit_p_def)
  have "(a * b * (v * w)) mod fe_p = ((a * v) * (b * w)) mod fe_p" by (simp add: ac_simps)
  also have "\<dots> = 1" using vw fe_p_gt by (metis mod_mult_eq mult_1 mod_pos_pos_trivial zero_le_one)
  finally show ?thesis by (auto simp: unit_p_def)
qed

lemma unit_p_cong: "unit_p a \<Longrightarrow> a mod fe_p = b mod fe_p \<Longrightarrow> unit_p b"
  unfolding unit_p_def by (metis mod_mult_left_eq)

definition p2_point :: "ge_p2 \<Rightarrow> point \<Rightarrow> bool" where
  "p2_point p = (\<lambda>(x, y). \<exists>Z. unit_p Z \<and> fe_rep 1 (p2_X p) (x * Z) \<and> fe_rep 1 (p2_Y p) (y * Z) \<and> fe_rep 1 (p2_Z p) Z)"

definition p3_point :: "ge_p3 \<Rightarrow> point \<Rightarrow> bool" where
  "p3_point p = (\<lambda>(x, y). \<exists>Z. unit_p Z \<and> fe_rep 1 (p3_X p) (x * Z) \<and> fe_rep 1 (p3_Y p) (y * Z) \<and>
     fe_rep 1 (p3_Z p) Z \<and> fe_rep 1 (p3_T p) (x * y * Z))"

definition p1p1_point :: "ge_p1p1 \<Rightarrow> point \<Rightarrow> bool" where
  "p1p1_point p = (\<lambda>(x, y). \<exists>Z T. unit_p Z \<and> unit_p T \<and> fe_rep 3 (p1p1_X p) (x * Z) \<and> fe_rep 3 (p1p1_Y p) (y * T) \<and>
     fe_rep 3 (p1p1_Z p) Z \<and> fe_rep 3 (p1p1_T p) T)"

definition cached_point :: "ge_cached \<Rightarrow> point \<Rightarrow> bool" where
  "cached_point q = (\<lambda>(x, y). \<exists>Z. unit_p Z \<and> fe_rep 2 (YplusX q) ((y + x) * Z) \<and> fe_rep 2 (YminusX q) ((y - x) * Z) \<and>
     fe_rep 1 (cached_Z q) Z \<and> fe_rep 1 (T2d q) (2 * ed_d * (x * y * Z)))"

definition precomp_point :: "ge_precomp \<Rightarrow> point \<Rightarrow> bool" where
  "precomp_point q = (\<lambda>(x, y). fe_rep 1 (yplusx q) (y + x) \<and> fe_rep 1 (yminusx q) (y - x) \<and> fe_rep 1 (xy2d q) (2 * ed_d * (x * y)))"

lemma fe_value_10: "length h = 10 \<Longrightarrow> fe_value h = h ! 0 + h ! 1 * 2 ^ 26 + h ! 2 * 2 ^ 51 + h ! 3 * 2 ^ 77 + h ! 4 * 2 ^ 102 + h ! 5 * 2 ^ 128
      + h ! 6 * 2 ^ 153 + h ! 7 * 2 ^ 179 + h ! 8 * 2 ^ 204 + h ! 9 * 2 ^ 230"
  unfolding limb_value_def by (simp only: sum_upto_10 fe_wt_def) simp

lemma fe_bnd_list: "length f = 10 \<Longrightarrow> list_all2 (\<lambda>i x. \<bar>x\<bar> \<le> k * fe_unit i) [0..<10] f \<Longrightarrow> fe_bnd k f"
  by (auto simp: fe_bnd_def list_all2_conv_all_nth)

lemma fe_d_rep: "fe_rep 1 fe_d ed_d"
  unfolding fe_rep_def
proof
  show "fe_bnd 1 fe_d" by (rule fe_bnd_list) (simp_all add: fe_d_def fe_unit_def upt_10)
  show "fe_value fe_d mod fe_p = ed_d mod fe_p" by (subst fe_value_10) (simp_all add: fe_d_def ed_d_def fe_p_def)
qed

lemma fe_d2_rep: "fe_rep 1 fe_d2 (2 * ed_d)"
  unfolding fe_rep_def
proof
  show "fe_bnd 1 fe_d2" by (rule fe_bnd_list) (simp_all add: fe_d2_def fe_unit_def upt_10)
  show "fe_value fe_d2 mod fe_p = (2 * ed_d) mod fe_p" by (subst fe_value_10) (simp_all add: fe_d2_def ed_d_def fe_p_def)
qed

text \<open>The curve constant is \<open>-121665/121666\<close>, and \<open>fe_sqrtm1\<close> is a square root of -1.\<close>

lemma ed_d_eq: "(121666 * ed_d) mod fe_p = (- 121665) mod fe_p"
  by (simp add: ed_d_def fe_p_def)

lemma fe_sqrtm1_rep: "fe_rep 1 fe_sqrtm1 (fe_value fe_sqrtm1)" "(fe_value fe_sqrtm1 * fe_value fe_sqrtm1) mod fe_p = (- 1) mod fe_p"
proof -
  have "fe_bnd 1 fe_sqrtm1" by (rule fe_bnd_list) (simp_all add: fe_sqrtm1_def fe_unit_def upt_10)
  then show "fe_rep 1 fe_sqrtm1 (fe_value fe_sqrtm1)" by (rule fe_rep_value)
  show "(fe_value fe_sqrtm1 * fe_value fe_sqrtm1) mod fe_p = (- 1) mod fe_p"
    by (subst fe_value_10, simp add: fe_sqrtm1_def)+ (simp add: fe_sqrtm1_def fe_p_def)
qed


section \<open>Correctness of the group operations\<close>

lemma fe_add_bind:
  "fe_rep k f x \<Longrightarrow> fe_rep l g y \<Longrightarrow> k + l \<le> 60 \<Longrightarrow> (\<And>h. fe_rep (k + l) h (x + y) \<Longrightarrow> ok Q (c h)) \<Longrightarrow> ok Q (fe_add f g \<bind> c)"
  by (rule ok_bind [OF fe_add_rep])

lemma fe_sub_bind:
  "fe_rep k f x \<Longrightarrow> fe_rep l g y \<Longrightarrow> k + l \<le> 60 \<Longrightarrow> (\<And>h. fe_rep (k + l) h (x - y) \<Longrightarrow> ok Q (c h)) \<Longrightarrow> ok Q (fe_sub f g \<bind> c)"
  by (rule ok_bind [OF fe_sub_rep])

lemma fe_mul_bind:
  "fe_rep k f x \<Longrightarrow> fe_rep l g y \<Longrightarrow> k \<le> 3 \<and> l \<le> 3 \<Longrightarrow> (\<And>h. fe_rep 1 h (x * y) \<Longrightarrow> ok Q (c h)) \<Longrightarrow> ok Q (fe_mul f g \<bind> c)"
  by (rule ok_bind [OF fe_mul_rep]) auto

lemma fe_sq_bind: "fe_rep k f x \<Longrightarrow> k \<le> 3 \<Longrightarrow> (\<And>h. fe_rep 1 h (x * x) \<Longrightarrow> ok Q (c h)) \<Longrightarrow> ok Q (fe_sq f \<bind> c)"
  by (rule ok_bind [OF fe_sq_rep])

lemma fe_sq2_bind: "fe_rep k f x \<Longrightarrow> k \<le> 3 \<Longrightarrow> (\<And>h. fe_rep 1 h (2 * (x * x)) \<Longrightarrow> ok Q (c h)) \<Longrightarrow> ok Q (fe_sq2 f \<bind> c)"
  by (rule ok_bind [OF fe_sq2_rep])

lemmas fe_binds2 = fe_add_bind fe_sub_bind fe_mul_bind
  and fe_binds1 = fe_sq_bind fe_sq2_bind

lemma p1p1_pointI:
  assumes "fe_rep k1 X a" "fe_rep k2 Y b" "fe_rep k3 Z c" "fe_rep k4 T e" "k1 \<le> 3 \<and> k2 \<le> 3 \<and> k3 \<le> 3 \<and> k4 \<le> 3"
    "unit_p c \<and> unit_p e \<and> a mod fe_p = (x * c) mod fe_p \<and> b mod fe_p = (y * e) mod fe_p"
  shows "p1p1_point \<lparr>p1p1_X = X, p1p1_Y = Y, p1p1_Z = Z, p1p1_T = T\<rparr> (x, y)"
proof -
  have "fe_rep 3 X (x * c)" "fe_rep 3 Y (y * e)" "fe_rep 3 Z c" "fe_rep 3 T e"
    using assms by (blast intro: fe_rep_mono fe_rep_cong)+
  then show ?thesis using assms(6) unfolding p1p1_point_def by auto
qed

text \<open>The completed coordinates of a sum: with the products \<open>W\<close> of the \<open>Z\<close> coordinates, \<open>n1/(1+D)\<close> and \<open>n2/(1-D)\<close>.\<close>

lemma completed:
  assumes s: "ed_sum (x1, y1) (x2, y2) (x3, y3)" and W: "unit_p W"
    and "c = 2 * W * (1 + ed_d * (x1 * x2 * (y1 * y2)))" "e = 2 * W * (1 - ed_d * (x1 * x2 * (y1 * y2)))"
    and "a = 2 * W * (x1 * y2 + y1 * x2)" "b = 2 * W * (y1 * y2 + x1 * x2)"
  shows "unit_p c \<and> unit_p e \<and> a mod fe_p = (x3 * c) mod fe_p \<and> b mod fe_p = (y3 * e) mod fe_p"
proof -
  let ?D = "ed_d * (x1 * x2 * (y1 * y2))"
  have s': "unit_p (1 + ?D)" "unit_p (1 - ?D)" "(x1 * y2 + y1 * x2) mod fe_p = (x3 * (1 + ?D)) mod fe_p"
    "(y1 * y2 + x1 * x2) mod fe_p = (y3 * (1 - ?D)) mod fe_p" using s by (simp_all add: ed_sum_def Let_def)
  have "a mod fe_p = (2 * W * (x3 * (1 + ?D))) mod fe_p" "b mod fe_p = (2 * W * (y3 * (1 - ?D))) mod fe_p"
    unfolding assms(5,6) by (rule mod_mult_cong [OF refl s'(3)], rule mod_mult_cong [OF refl s'(4)])
  moreover have "2 * W * (x3 * (1 + ?D)) = x3 * c" "2 * W * (y3 * (1 - ?D)) = y3 * e" unfolding assms(3,4) by (simp_all add: ac_simps)
  moreover have "unit_p c" "unit_p e" unfolding assms(3,4) using W s'(1,2) by (intro unit_p_mult unit_p_2; simp)+
  ultimately show ?thesis by simp
qed

definition p3_at :: "ge_p3 \<Rightarrow> int \<Rightarrow> int \<Rightarrow> int \<Rightarrow> bool" where
  "p3_at p Z x y \<longleftrightarrow> fe_rep 1 (p3_X p) (x * Z) \<and> fe_rep 1 (p3_Y p) (y * Z) \<and> fe_rep 1 (p3_Z p) Z \<and> fe_rep 1 (p3_T p) (x * y * Z)"

lemma p3_point_at: "p3_point p (x, y) \<longleftrightarrow> (\<exists>Z. unit_p Z \<and> p3_at p Z x y)"
  by (simp add: p3_point_def p3_at_def)

lemma ge_add_point:
  assumes p: "p3_point p P" and q: "cached_point q Q" and s: "ed_sum P Q R"
  shows "ok (\<lambda>r. p1p1_point r R) (ge_add p q)"
proof -
  obtain x1 y1 x2 y2 x3 y3 where PQR: "P = (x1, y1)" "Q = (x2, y2)" "R = (x3, y3)" by (metis surj_pair)
  obtain Z1 where Z1: "unit_p Z1" "p3_at p Z1 x1 y1" using p by (auto simp: p3_point_at PQR)
  obtain Z2 where Z2: "unit_p Z2" "fe_rep 2 (YplusX q) ((y2 + x2) * Z2)" "fe_rep 2 (YminusX q) ((y2 - x2) * Z2)" "fe_rep 1 (cached_Z q) Z2"
      "fe_rep 1 (T2d q) (2 * ed_d * (x2 * y2 * Z2))"
    using q by (auto simp: cached_point_def PQR)
  note W = completed [OF s [unfolded PQR] unit_p_mult [OF Z1(1) Z2(1)]]
  show ?thesis
    unfolding ge_add_def PQR using Z1(2) [unfolded p3_at_def] Z2(2-)
    apply (elim conjE)
    apply ((rule fe_binds2, assumption, assumption, simp (no_asm))+)
    apply (rule ok_Some, rule p1p1_pointI, assumption, assumption, assumption, assumption, simp (no_asm), rule W)
    by (simp_all add: algebra_simps)
qed

lemma ge_sub_point:
  assumes p: "p3_point p P" and q: "cached_point q Q" and s: "ed_sum P (ed_neg Q) R"
  shows "ok (\<lambda>r. p1p1_point r R) (ge_sub p q)"
proof -
  obtain x1 y1 x2 y2 x3 y3 where PQR: "P = (x1, y1)" "Q = (x2, y2)" "R = (x3, y3)" by (metis surj_pair)
  obtain Z1 where Z1: "unit_p Z1" "p3_at p Z1 x1 y1" using p by (auto simp: p3_point_at PQR)
  obtain Z2 where Z2: "unit_p Z2" "fe_rep 2 (YplusX q) ((y2 + x2) * Z2)" "fe_rep 2 (YminusX q) ((y2 - x2) * Z2)" "fe_rep 1 (cached_Z q) Z2"
      "fe_rep 1 (T2d q) (2 * ed_d * (x2 * y2 * Z2))"
    using q by (auto simp: cached_point_def PQR)
  note W = completed [OF s [unfolded PQR ed_neg_def split_conv] unit_p_mult [OF Z1(1) Z2(1)]]
  show ?thesis
    unfolding ge_sub_def PQR using Z1(2) [unfolded p3_at_def] Z2(2-)
    apply (elim conjE)
    apply ((rule fe_binds2, assumption, assumption, simp (no_asm))+)
    apply (rule ok_Some, rule p1p1_pointI, assumption, assumption, assumption, assumption, simp (no_asm), rule W)
    by (simp_all add: algebra_simps)
qed

lemma ge_madd_point:
  assumes p: "p3_point p P" and q: "precomp_point q Q" and s: "ed_sum P Q R"
  shows "ok (\<lambda>r. p1p1_point r R) (ge_madd p q)"
proof -
  obtain x1 y1 x2 y2 x3 y3 where PQR: "P = (x1, y1)" "Q = (x2, y2)" "R = (x3, y3)" by (metis surj_pair)
  obtain Z1 where Z1: "unit_p Z1" "p3_at p Z1 x1 y1" using p by (auto simp: p3_point_at PQR)
  have Z2: "fe_rep 1 (yplusx q) (y2 + x2)" "fe_rep 1 (yminusx q) (y2 - x2)" "fe_rep 1 (xy2d q) (2 * ed_d * (x2 * y2))"
    using q by (auto simp: precomp_point_def PQR)
  note W = completed [OF s [unfolded PQR] Z1(1)]
  show ?thesis
    unfolding ge_madd_def PQR using Z1(2) [unfolded p3_at_def] Z2
    apply (elim conjE)
    apply ((rule fe_binds2, assumption, assumption, simp (no_asm))+)
    apply (rule ok_Some, rule p1p1_pointI, assumption, assumption, assumption, assumption, simp (no_asm), rule W)
    by (simp_all add: algebra_simps)
qed

lemma ge_msub_point:
  assumes p: "p3_point p P" and q: "precomp_point q Q" and s: "ed_sum P (ed_neg Q) R"
  shows "ok (\<lambda>r. p1p1_point r R) (ge_msub p q)"
proof -
  obtain x1 y1 x2 y2 x3 y3 where PQR: "P = (x1, y1)" "Q = (x2, y2)" "R = (x3, y3)" by (metis surj_pair)
  obtain Z1 where Z1: "unit_p Z1" "p3_at p Z1 x1 y1" using p by (auto simp: p3_point_at PQR)
  have Z2: "fe_rep 1 (yplusx q) (y2 + x2)" "fe_rep 1 (yminusx q) (y2 - x2)" "fe_rep 1 (xy2d q) (2 * ed_d * (x2 * y2))"
    using q by (auto simp: precomp_point_def PQR)
  note W = completed [OF s [unfolded PQR ed_neg_def split_conv] Z1(1)]
  show ?thesis
    unfolding ge_msub_def PQR using Z1(2) [unfolded p3_at_def] Z2
    apply (elim conjE)
    apply ((rule fe_binds2, assumption, assumption, simp (no_asm))+)
    apply (rule ok_Some, rule p1p1_pointI, assumption, assumption, assumption, assumption, simp (no_asm), rule W)
    by (simp_all add: algebra_simps)
qed


lemma p1p1_pointE:
  assumes "p1p1_point r (x, y)"
  obtains Z T where "unit_p (Z * T)" "fe_rep 3 (p1p1_X r) (x * Z)" "fe_rep 3 (p1p1_Y r) (y * T)" "fe_rep 3 (p1p1_Z r) Z" "fe_rep 3 (p1p1_T r) T"
  using assms unit_p_mult by (auto simp: p1p1_point_def)

lemma ge_p1p1_to_p2_point:
  assumes "p1p1_point r R" shows "ok (\<lambda>p. p2_point p R) (ge_p1p1_to_p2 r)"
proof -
  obtain x y where R: "R = (x, y)" by (metis surj_pair)
  obtain Z T where Z: "unit_p (Z * T)" and zs: "fe_rep 3 (p1p1_X r) (x * Z)" "fe_rep 3 (p1p1_Y r) (y * T)" "fe_rep 3 (p1p1_Z r) Z" "fe_rep 3 (p1p1_T r) T"
    using assms [unfolded R] by (rule p1p1_pointE)
  show ?thesis
    unfolding ge_p1p1_to_p2_def R p2_point_def using zs
    apply -
    apply ((rule fe_binds2, assumption, assumption, simp (no_asm))+)
    using Z by (intro ok_Some) (auto intro!: exI [of _ "Z * T"] simp: ac_simps)
qed

lemma ge_p1p1_to_p3_point:
  assumes "p1p1_point r R" shows "ok (\<lambda>p. p3_point p R) (ge_p1p1_to_p3 r)"
proof -
  obtain x y where R: "R = (x, y)" by (metis surj_pair)
  obtain Z T where Z: "unit_p (Z * T)" and zs: "fe_rep 3 (p1p1_X r) (x * Z)" "fe_rep 3 (p1p1_Y r) (y * T)" "fe_rep 3 (p1p1_Z r) Z" "fe_rep 3 (p1p1_T r) T"
    using assms [unfolded R] by (rule p1p1_pointE)
  show ?thesis
    unfolding ge_p1p1_to_p3_def R p3_point_def using zs
    apply -
    apply ((rule fe_binds2, assumption, assumption, simp (no_asm))+)
    using Z by (intro ok_Some) (auto intro!: exI [of _ "Z * T"] simp: ac_simps)
qed

lemma ge_p3_to_p2_point: "p3_point p P \<Longrightarrow> p2_point (ge_p3_to_p2 p) P"
  by (auto simp: p3_point_def p2_point_def ge_p3_to_p2_def intro: fe_rep_copy)

lemma ge_p3_to_cached_point:
  assumes "p3_point p P" shows "ok (\<lambda>q. cached_point q P) (ge_p3_to_cached p)"
proof -
  obtain x y where P: "P = (x, y)" by (metis surj_pair)
  obtain Z where Z: "unit_p Z" "p3_at p Z x y" using assms by (auto simp: p3_point_at P)
  show ?thesis
    unfolding ge_p3_to_cached_def P Let_def using Z(2) [unfolded p3_at_def] fe_d2_rep
    apply (elim conjE)
    apply ((rule fe_binds2, assumption, assumption, simp (no_asm))+)
    using Z(1) by (intro ok_Some) (auto simp: cached_point_def intro!: exI [of _ Z] fe_rep_copy simp: algebra_simps)
qed

text \<open>A doubling is a sum of a point of the curve with itself: the curve equation replaces the denominators.\<close>

lemma double_completed:
  assumes s: "ed_sum (x, y) (x, y) (x3, y3)" and c: "ed_curve (x, y)" and Z: "unit_p Z"
    and "c = Z * Z * (y * y - x * x)" "e = Z * Z * (2 - (y * y - x * x))" "a = 2 * (Z * Z) * (x * y)" "b = Z * Z * (y * y + x * x)"
  shows "unit_p c \<and> unit_p e \<and> a mod fe_p = (x3 * c) mod fe_p \<and> b mod fe_p = (y3 * e) mod fe_p"
proof -
  let ?D = "ed_d * (x * x * (y * y))"
  have s': "unit_p (1 + ?D)" "unit_p (1 - ?D)" "(x * y + y * x) mod fe_p = (x3 * (1 + ?D)) mod fe_p"
    "(y * y + x * x) mod fe_p = (y3 * (1 - ?D)) mod fe_p" using s by (simp_all add: ed_sum_def Let_def)
  have D: "(1 + ?D) mod fe_p = (y * y - x * x) mod fe_p" using c by (simp add: ed_curve_def)
  have D': "(1 - ?D) mod fe_p = (2 - (y * y - x * x)) mod fe_p"
    using mod_diff_cong [OF refl [of "2 mod fe_p"] D] by simp
  have ZZ: "unit_p (Z * Z)" using Z by (intro unit_p_mult)
  have "unit_p c" "unit_p e" unfolding assms(4,5) by (rule unit_p_mult [OF ZZ unit_p_cong [OF s'(1) D]], rule unit_p_mult [OF ZZ unit_p_cong [OF s'(2) D']])
  moreover have "(Z * Z * (x * y + y * x)) mod fe_p = (Z * Z * (x3 * (y * y - x * x))) mod fe_p"
    by (rule mod_mult_cong [OF refl]) (use s'(3) mod_mult_cong [OF refl D, of x3] in simp)
  moreover have "(Z * Z * (y * y + x * x)) mod fe_p = (Z * Z * (y3 * (2 - (y * y - x * x)))) mod fe_p"
    by (rule mod_mult_cong [OF refl]) (use s'(4) mod_mult_cong [OF refl D', of y3] in simp)
  moreover have "Z * Z * (x * y + y * x) = a" "Z * Z * (x3 * (y * y - x * x)) = x3 * c" "Z * Z * (y3 * (2 - (y * y - x * x))) = y3 * e"
    unfolding assms(4-) by (simp_all add: algebra_simps)
  ultimately show ?thesis unfolding assms(7) by simp
qed

lemma ge_p2_dbl_point:
  assumes p: "p2_point p P" and c: "ed_curve P" and s: "ed_sum P P R"
  shows "ok (\<lambda>r. p1p1_point r R) (ge_p2_dbl p)"
proof -
  obtain x y x3 y3 where PR: "P = (x, y)" "R = (x3, y3)" by (metis surj_pair)
  obtain Z where Z: "unit_p Z" "fe_rep 1 (p2_X p) (x * Z)" "fe_rep 1 (p2_Y p) (y * Z)" "fe_rep 1 (p2_Z p) Z" using p by (auto simp: p2_point_def PR)
  note W = double_completed [OF s [unfolded PR] c [unfolded PR] Z(1)]
  show ?thesis
    unfolding ge_p2_dbl_def PR using Z(2-)
    apply -
    apply ((rule fe_binds2, assumption, assumption, simp (no_asm) | rule fe_binds1, assumption, simp (no_asm))+)
    apply (rule ok_Some, rule p1p1_pointI, assumption, assumption, assumption, assumption, simp (no_asm), rule W)
    by (simp_all add: algebra_simps)
qed

lemma ge_p3_dbl_point: "p3_point p P \<Longrightarrow> ed_curve P \<Longrightarrow> ed_sum P P R \<Longrightarrow> ok (\<lambda>r. p1p1_point r R) (ge_p3_dbl p)"
  unfolding ge_p3_dbl_def Let_def by (rule ge_p2_dbl_point [OF ge_p3_to_p2_point])

lemma neutral_points: "p2_point ge_p2_0 (0, 1)" "p3_point ge_p3_0 (0, 1)" "precomp_point ge_precomp_0 (0, 1)" "cached_point ge_cached_0 (0, 1)"
  using unit_p_1 fe_rep_0 fe_rep_1 fe_rep_mono [OF fe_rep_1, of 2]
  by (auto simp: p2_point_def p3_point_def precomp_point_def cached_point_def ge_p2_0_def ge_p3_0_def ge_precomp_0_def ge_cached_0_def
      intro!: exI [of _ 1])

section \<open>Encodings\<close>

lemma bit255: "length s = 32 \<Longrightarrow> le_nat s = le_nat s mod 2 ^ 255 + 2 ^ 255 * unat (drop_bit 7 (s ! 31))"
proof -
  assume s: "length s = 32"
  define a b where "a = le_nat (take 31 s)" and "b = unat (s ! 31)"
  have a: "a < 2 ^ 248" using le_nat_less [of "take 31 s"] s by (simp add: a_def)
  have d: "drop 31 s = [s ! 31]" using s Cons_nth_drop_Suc [of 31 s] by simp
  have "le_nat s = a + 2 ^ 248 * b" unfolding a_def b_def using s le_nat_split [of s 31] by (simp add: d)
  also have "\<dots> = (a + 2 ^ 248 * (b mod 2 ^ 7)) + 2 ^ 255 * (b div 2 ^ 7)"
  proof -
    define q r where "q = b div 2 ^ 7" and "r = b mod 2 ^ 7"
    have "b = 2 ^ 7 * q + r" by (simp add: q_def r_def)
    then have "2 ^ 248 * b = 2 ^ 248 * r + 2 ^ 255 * q" by simp
    then show ?thesis unfolding q_def r_def by linarith
  qed
  finally have e: "le_nat s = (a + 2 ^ 248 * (b mod 2 ^ 7)) + 2 ^ 255 * (b div 2 ^ 7)" .
  have "b mod 2 ^ 7 \<le> 2 ^ 7 - 1" using mod_less_divisor [of "2 ^ 7" b] by simp
  then have "a + 2 ^ 248 * (b mod 2 ^ 7) < 2 ^ 255" using a by simp
  then show ?thesis unfolding e unat_drop_bit b_def by simp
qed

text \<open>The square root step: a candidate with \<open>v * x * x = \<plusminus> u\<close>.\<close>

lemma root_fix:
  assumes "(v * (x * x)) mod fe_p = (- u) mod fe_p" "(i * i) mod fe_p = (- 1) mod fe_p"
  shows "(v * ((x * i) * (x * i))) mod fe_p = u mod fe_p"
proof -
  have "v * ((x * i) * (x * i)) = (v * (x * x)) * (i * i)" by (simp add: ac_simps)
  then have "(v * ((x * i) * (x * i))) mod fe_p = (- u * - 1) mod fe_p" using mod_mult_cong [OF assms] by (simp only:)
  then show ?thesis by simp
qed

lemma root_curve:
  assumes "((ed_d * (y * y) + 1) * (x * x)) mod fe_p = (y * y - 1) mod fe_p"
  shows "ed_curve (x, y)"
proof -
  have "(y * y - x * x) - (1 + ed_d * (x * x * (y * y))) = (y * y - 1) - (ed_d * (y * y) + 1) * (x * x)" by (simp add: algebra_simps)
  moreover have "fe_p dvd (y * y - 1) - (ed_d * (y * y) + 1) * (x * x)" using assms by (simp only: mod_eq_dvd_iff dvd_diff_commute)
  ultimately show ?thesis unfolding ed_curve_def by (simp only: split_conv mod_eq_dvd_iff)
qed

lemma neg_parity:
  assumes "x mod fe_p \<noteq> 0"
  shows "(- x) mod fe_p mod 2 = 1 - x mod fe_p mod 2"
proof -
  have "(- x) mod fe_p = fe_p - x mod fe_p" using assms by (simp add: zmod_zminus1_eq_if)
  moreover have "(p - m) mod 2 = 1 - m mod 2" if "odd p" for p m :: int using that by presburger
  moreover have "odd fe_p" by (simp add: fe_p_def)
  ultimately show ?thesis by metis
qed

text \<open>The candidate for the square root of \<open>u/v\<close> that the code computes, and the strings that are refused.\<close>

definition sqrt_cand :: "int \<Rightarrow> int \<Rightarrow> int" where
  "sqrt_cand u v = (u * v ^ 7) ^ (2 ^ 252 - 3) * (v * v * v) * u"

definition refused :: "bytes \<Rightarrow> bool" where
  "refused s \<longleftrightarrow> (let y = int (le_nat s mod 2 ^ 255); u = y * y - 1; v = y * y * ed_d + 1; x = sqrt_cand u v in
     fe_p \<le> y \<or> (v * (x * x)) mod fe_p \<noteq> u mod fe_p \<and> (v * (x * x)) mod fe_p \<noteq> (- u) mod fe_p \<or>
     u mod fe_p = 0 \<and> 2 ^ 255 \<le> le_nat s)"

definition decoded :: "bytes \<Rightarrow> ge_p3 option \<Rightarrow> bool" where
  "decoded s r \<longleftrightarrow> (case r of None \<Rightarrow> refused s | Some p \<Rightarrow> \<exists>x y. p3_Z p = fe_1 \<and> p3_point p (x, y) \<and> ed_curve (x, y) \<and>
     0 \<le> x \<and> x < fe_p \<and> 0 \<le> y \<and> y < fe_p \<and> int (le_nat s) = y + 2 ^ 255 * (x mod 2))"

lemma ge_frombytes_sign:
  assumes X: "fe_rep 1 X x" and b: "b \<in> {0, 1}"
  shows "ok (\<lambda>r. case r of None \<Rightarrow> x mod fe_p = 0 \<and> b = 1 | Some X' \<Rightarrow> \<exists>x'. fe_rep 1 X' x' \<and> x' * x' = x * x \<and> x' mod fe_p mod 2 = b)
    (if x mod fe_p mod 2 \<noteq> b then do { nz \<leftarrow> fe_isnonzero X; if nz = 0 then Some None else do { hX \<leftarrow> fe_neg X; Some (Some hX) } }
     else Some (Some X))"
proof (cases "x mod fe_p mod 2 = b")
  case True
  then show ?thesis using X by (auto simp: ok_def)
next
  case False
  have "ok (\<lambda>r. case r of None \<Rightarrow> x mod fe_p = 0 \<and> b = 1 | Some X' \<Rightarrow> \<exists>x'. fe_rep 1 X' x' \<and> x' * x' = x * x \<and> x' mod fe_p mod 2 = b)
      (do { hX \<leftarrow> fe_neg X; Some (Some hX) })" if nz: "x mod fe_p \<noteq> 0"
  proof (rule ok_bind [OF fe_neg_rep [OF X]], simp, rule ok_Some)
    fix h assume "fe_rep 1 h (- x)"
    moreover have "(- x) mod fe_p mod 2 = b" unfolding neg_parity [OF nz] using False b by auto
    ultimately show "case Some h of None \<Rightarrow> x mod fe_p = 0 \<and> b = 1 | Some X' \<Rightarrow> \<exists>x'. fe_rep 1 X' x' \<and> x' * x' = x * x \<and> x' mod fe_p mod 2 = b"
      by (auto intro!: exI [of _ "- x"])
  qed
  moreover have "b = 1" if "x mod fe_p = 0" using False that b by auto
  ultimately show ?thesis using False fe_isnonzero_rep [OF X] by (auto simp: ok_def)
qed

lemma ge_frombytes_root:
  assumes X: "fe_rep 1 X x" and u: "fe_rep 2 u U" and vxx: "fe_rep 1 vxx (x * x * V)"
  shows "ok (\<lambda>r. case r of None \<Rightarrow> (V * (x * x)) mod fe_p \<noteq> U mod fe_p \<and> (V * (x * x)) mod fe_p \<noteq> (- U) mod fe_p
      | Some X' \<Rightarrow> \<exists>x'. fe_rep 1 X' x' \<and> (V * (x' * x')) mod fe_p = U mod fe_p)
    (do { check \<leftarrow> fe_sub vxx u;
       nz \<leftarrow> fe_isnonzero check;
       if nz \<noteq> 0 then do {
           check \<leftarrow> fe_add vxx u;
           nz \<leftarrow> fe_isnonzero check;
           if nz \<noteq> 0 then Some None else do { hX \<leftarrow> fe_mul X fe_sqrtm1; Some (Some hX) } }
         else Some (Some X) })" (is "ok ?Q _")
proof (rule fe_sub_bind [OF vxx u])
  fix h assume h: "fe_rep (1 + 2) h (x * x * V - U)"
  have z: "(x * x * V - U) mod fe_p = 0 \<longleftrightarrow> (V * (x * x)) mod fe_p = U mod fe_p" by (simp add: mod_eq_dvd_iff mod_eq_0_iff_dvd ac_simps)
  have "ok ?Q (do { check \<leftarrow> fe_add vxx u; nz \<leftarrow> fe_isnonzero check;
           if nz \<noteq> 0 then Some None else do { hX \<leftarrow> fe_mul X fe_sqrtm1; Some (Some hX) } })" if nz: "(V * (x * x)) mod fe_p \<noteq> U mod fe_p"
  proof (rule fe_add_bind [OF vxx u])
    fix h assume h: "fe_rep (1 + 2) h (x * x * V + U)"
    have z: "(x * x * V + U) mod fe_p = 0 \<longleftrightarrow> (V * (x * x)) mod fe_p = (- U) mod fe_p" by (simp add: mod_eq_dvd_iff mod_eq_0_iff_dvd ac_simps)
    have "ok ?Q (do { hX \<leftarrow> fe_mul X fe_sqrtm1; Some (Some hX) })" if "(V * (x * x)) mod fe_p = (- U) mod fe_p"
      by (rule fe_mul_bind [OF X fe_sqrtm1_rep(1)], simp, rule ok_Some)
        (use root_fix [OF that fe_sqrtm1_rep(2)] in auto)
    then show "ok ?Q (do { nz \<leftarrow> fe_isnonzero h; if nz \<noteq> 0 then Some None else do { hX \<leftarrow> fe_mul X fe_sqrtm1; Some (Some hX) } })"
      using fe_isnonzero_rep [OF h] z nz by (auto simp: ok_def)
  qed simp
  then show "ok ?Q (do { nz \<leftarrow> fe_isnonzero h; if nz \<noteq> 0 then do {
           check \<leftarrow> fe_add vxx u;
           nz \<leftarrow> fe_isnonzero check;
           if nz \<noteq> 0 then Some None else do { hX \<leftarrow> fe_mul X fe_sqrtm1; Some (Some hX) } }
         else Some (Some X) })"
    using fe_isnonzero_rep [OF h] z X by (auto simp: ok_def)
qed simp

lemma ok_case:
  "ok (\<lambda>r. case r of None \<Rightarrow> A | Some h \<Rightarrow> P h) m \<Longrightarrow> (A \<Longrightarrow> ok Q N) \<Longrightarrow> (\<And>h. P h \<Longrightarrow> ok Q (f h)) \<Longrightarrow>
   ok Q (do { r \<leftarrow> m; case r of None \<Rightarrow> N | Some h \<Rightarrow> f h })"
  by (auto simp: ok_def split: option.splits)

lemma p3_Z_1: "fe_rep 1 X x \<Longrightarrow> fe_rep 1 Y y \<Longrightarrow> fe_rep 1 T (x * y) \<Longrightarrow> p3_point \<lparr>p3_X = X, p3_Y = Y, p3_Z = fe_1, p3_T = T\<rparr> (x mod fe_p, y mod fe_p)"
proof -
  assume a: "fe_rep 1 X x" "fe_rep 1 Y y" "fe_rep 1 T (x * y)"
  have "fe_rep 1 X (x mod fe_p)" "fe_rep 1 Y (y mod fe_p)" by (rule fe_rep_cong [OF a(1)], simp, rule fe_rep_cong [OF a(2)], simp)
  moreover have "fe_rep 1 T (x mod fe_p * (y mod fe_p))" by (rule fe_rep_cong [OF a(3)]) (simp add: mod_mult_eq)
  ultimately show ?thesis using unit_p_1 fe_rep_1 by (auto simp: p3_point_def intro!: exI [of _ 1])
qed

lemma ed_curve_mod: "ed_curve (x, y) \<Longrightarrow> ed_curve (x mod fe_p, y mod fe_p)"
proof -
  assume c: "ed_curve (x, y)"
  let ?x = "x mod fe_p" and ?y = "y mod fe_p"
  have "(?y * ?y - ?x * ?x) mod fe_p = (y * y - x * x) mod fe_p" by (intro mod_diff_cong mod_mult_cong) simp_all
  moreover have "(1 + ed_d * (?x * ?x * (?y * ?y))) mod fe_p = (1 + ed_d * (x * x * (y * y))) mod fe_p" by (intro mod_add_cong mod_mult_cong refl) simp_all
  ultimately show ?thesis using c by (simp only: ed_curve_def split_conv)
qed

lemma ge_frombytes_ok:
  assumes s: "length s = 32"
  shows "ok (decoded s) (ge_frombytes_vartime s)"
proof (cases "le_nat s mod 2 ^ 255 < nat fe_p")
  case False
  then have "fe_p \<le> int (le_nat s mod 2 ^ 255)" by (simp only: not_less nat_le_iff)
  then have "refused s" by (simp only: refused_def Let_def simp_thms)
  then show ?thesis using fe_frombytes_ok(1) [OF s] False by (auto simp: ge_frombytes_vartime_def ok_def decoded_def not_less)
next
  case True
  define b where "b = uint (drop_bit 7 (s ! 31))"
  from fe_frombytes_ok(2) [OF s True] obtain Y where Y: "fe_frombytes_vartime s = Some (Some Y)" "fe_bnd 1 Y" "fe_value Y mod fe_p = int (le_nat s mod 2 ^ 255)" by blast
  define y where "y = fe_value Y mod fe_p"
  have yv: "y = int (le_nat s mod 2 ^ 255)" using Y(3) by (simp add: y_def)
  have Yr: "fe_rep 1 Y y" using Y(2) by (simp add: fe_rep_def y_def)
  have y: "0 \<le> y" "y < fe_p" using fe_p_gt by (simp_all add: y_def)
  have b: "b \<in> {0, 1}"
  proof -
    have "unat (drop_bit 7 (s ! 31)) < 2" using unat_lt_u8 [of "s ! 31"] unfolding unat_drop_bit by simp
    moreover have "b = int (unat (drop_bit 7 (s ! 31)))" unfolding b_def by (rule uint_nat)
    ultimately show ?thesis by (cases "unat (drop_bit 7 (s ! 31))") simp_all
  qed
  have sb: "int (le_nat s) = y + 2 ^ 255 * b"
    unfolding y_def Y(3) b_def uint_nat by (subst bit255 [OF s]) simp
  have fin: "ok (decoded s) (do { hT \<leftarrow> fe_mul X Y; Some (Some \<lparr>p3_X = X, p3_Y = Y, p3_Z = fe_1, p3_T = hT\<rparr>) })"
    if X: "fe_rep 1 X x" and c: "ed_curve (x, y)" and p: "x mod fe_p mod 2 = b" for X x
  proof (rule fe_mul_bind [OF X Yr], simp, rule ok_Some)
    fix T assume "fe_rep 1 T (x * y)"
    from p3_Z_1 [OF X Yr this] show "decoded s (Some \<lparr>p3_X = X, p3_Y = Y, p3_Z = fe_1, p3_T = T\<rparr>)"
      unfolding decoded_def option.case using ed_curve_mod [OF c] sb p y fe_p_gt
      by (intro exI [of _ "x mod fe_p"] exI [of _ y] conjI) simp_all
  qed
  have sgn: "ok (decoded s) (do { neg \<leftarrow> fe_isnegative X;
      r \<leftarrow> (if neg \<noteq> b then do { nz \<leftarrow> fe_isnonzero X; if nz = 0 then Some None else do { hX \<leftarrow> fe_neg X; Some (Some hX) } } else Some (Some X));
      (case r of None \<Rightarrow> Some None | Some hX \<Rightarrow> do { hT \<leftarrow> fe_mul hX Y; Some (Some \<lparr>p3_X = hX, p3_Y = Y, p3_Z = fe_1, p3_T = hT\<rparr>) }) })"
    if X: "fe_rep 1 X x" and c: "((ed_d * (y * y) + 1) * (x * x)) mod fe_p = (y * y - 1) mod fe_p" for X x
  proof -
    have cv: "ed_curve (x', y)" if "x' * x' = x * x" for x' using c root_curve [of y x'] unfolding that by blast
    have rf: "refused s" if "x mod fe_p = 0" "b = 1"
    proof -
      have "(x * (x * (ed_d * (y * y) + 1))) mod fe_p = 0" using that(1) by (simp add: mod_eq_0_iff_dvd)
      then have "(y * y - 1) mod fe_p = 0" using c by (simp add: ac_simps)
      moreover have "2 ^ 255 \<le> le_nat s" using sb that(2) y(1) by (metis le_add_same_cancel2 mult.right_neutral of_nat_le_iff of_nat_numeral of_nat_power)
      ultimately show ?thesis unfolding refused_def yv [symmetric] Let_def by simp
    qed
    show ?thesis
      unfolding fe_isnegative_rep [OF X one_le_numeral] bind.bind_lunit
      by (rule ok_case [OF ge_frombytes_sign [OF X b]]) (use rf cv in \<open>auto simp: decoded_def intro: ok_Some fin\<close>)
  qed
  show ?thesis
    unfolding ge_frombytes_vartime_def Y(1) bind.bind_lunit option.case Let_def b_def [symmetric]
    apply (rule fe_sq_bind [OF Yr], simp)
    apply (rule fe_mul_bind [OF _ fe_d_rep], assumption, simp)
    apply (rule fe_sub_bind [OF _ fe_rep_1], assumption, simp)
    apply (rule fe_add_bind [OF _ fe_rep_1], assumption, simp)
    apply (rule ok_bind [OF fe_divpowm1_ok [OF fe_rep_mono fe_rep_mono]], assumption, simp, assumption, simp)
    apply (rule fe_sq_bind, assumption, simp)
    apply (rule fe_mul_bind, assumption, assumption, simp)
    apply (rule ok_case [OF ge_frombytes_root], assumption, simp, assumption)
     apply (rule ok_Some, simp (no_asm_simp) only: decoded_def option.case refused_def yv [symmetric] Let_def sqrt_cand_def simp_thms)
    apply (elim exE conjE)
    apply (rule sgn, assumption)
    apply (simp add: ac_simps)
    done
qed

lemma xor_128:
  fixes w :: u8
  assumes "unat w < 128"
  shows "unat (w XOR 128) = unat w + 128"
proof -
  have "take_bit 7 w = w" using assms by (intro word_unat_eq_iff [THEN iffD2]) (simp add: unat_take_bit)
  moreover have "take_bit 7 w AND push_bit 7 1 = 0" by (rule bit_eqI) (simp only: bit_and_iff bit_take_bit_iff bit_push_bit_iff, simp)
  moreover have "push_bit 7 1 = (128 :: u8)" by (simp add: push_bit_eq_mult)
  ultimately have "w AND 128 = 0" by metis
  then have "w XOR 128 = w + 128" by (simp add: disjunctive_xor_eq_or disjunctive_add_eq_or)
  then show ?thesis using assms by (simp add: unat_word_ariths)
qed

lemma set_sign:
  assumes s: "length s = 32" and lt: "le_nat s < 2 ^ 255" and n: "n \<in> {0, 1 :: int}"
  shows "int (le_nat (s[31 := s ! 31 XOR word_of_int (n * 2 ^ 7)])) = int (le_nat s) + 2 ^ 255 * n"
proof -
  define a where "a = le_nat (take 31 s)"
  have d: "drop 31 s = [s ! 31]" using s Cons_nth_drop_Suc [of 31 s] by simp
  have v: "le_nat s = a + 2 ^ 248 * unat (s ! 31)" unfolding a_def using s le_nat_split [of s 31] by (simp add: d)
  have v': "le_nat (s[31 := b]) = a + 2 ^ 248 * unat b" for b
    unfolding a_def using s le_nat_split [of "s[31 := b]" 31] by (simp add: d drop_update_swap)
  have "unat (s ! 31) < 128"
  proof (rule ccontr)
    assume "\<not> unat (s ! 31) < 128"
    then have "(2::nat) ^ 248 * 128 \<le> 2 ^ 248 * unat (s ! 31)" by (intro mult_left_mono) simp_all
    then show False using v lt by simp
  qed
  then have x: "unat (s ! 31 XOR 128) = unat (s ! 31) + 128" by (rule xor_128)
  show ?thesis
  proof (cases "n = 0")
    case False
    then have n: "n = 1" using n by simp
    then have "word_of_int (n * 2 ^ 7) = (128 :: u8)" by simp
    then show ?thesis unfolding v' v n by (simp only: x) simp
  qed simp
qed

definition encodes :: "point \<Rightarrow> bytes \<Rightarrow> bool" where
  "encodes = (\<lambda>(x, y) s. length s = 32 \<and> int (le_nat s) = y mod fe_p + 2 ^ 255 * (x mod fe_p mod 2))"

lemma encodes_inj: "encodes P s \<Longrightarrow> encodes P t \<Longrightarrow> s = t"
  by (cases P) (auto simp: encodes_def intro: le_nat_inj)

lemma encode_ok:
  assumes x: "fe_rep 1 X x" and y: "fe_rep 1 Y y"
  shows "ok (encodes (x, y)) (do { s \<leftarrow> fe_tobytes Y; neg \<leftarrow> fe_isnegative X; Some (s[31 := s ! 31 XOR word_of_int (neg * 2 ^ 7)]) })"
proof (rule ok_bind [OF fe_tobytes_rep [OF y one_le_numeral]])
  fix s assume s: "length s = 32 \<and> int (le_nat s) = y mod fe_p"
  have "y mod fe_p < fe_p" using fe_p_gt by simp
  then have "int (le_nat s) < 2 ^ 255" using s by (simp add: fe_p_def)
  then have lt: "le_nat s < 2 ^ 255" by (metis of_nat_less_iff of_nat_numeral of_nat_power)
  have "x mod fe_p mod 2 \<in> {0, 1}" by auto
  from set_sign [OF _ lt this] s
  show "ok (encodes (x, y)) (do { neg \<leftarrow> fe_isnegative X; Some (s[31 := s ! 31 XOR word_of_int (neg * 2 ^ 7)]) })"
    unfolding fe_isnegative_rep [OF x one_le_numeral] bind.bind_lunit encodes_def by (intro ok_Some) simp
qed

lemma encodes_cong: "x mod fe_p = x' mod fe_p \<Longrightarrow> y mod fe_p = y' mod fe_p \<Longrightarrow> encodes (x, y) = encodes (x', y')"
  by (simp add: encodes_def fun_eq_iff)

text \<open>The inversion is an exponentiation; it inverts the coordinates \<open>Z\<close> of order dividing \<open>2^255 - 20\<close>.\<close>

definition fermat_p :: "int \<Rightarrow> bool" where
  "fermat_p z \<longleftrightarrow> z ^ (2 ^ 255 - 20) mod fe_p = 1"

lemma fermat_inverse:
  assumes "fermat_p Z"
  shows "(x * Z * Z ^ (2 ^ 255 - 21)) mod fe_p = x mod fe_p"
proof -
  define e :: nat where "e = 2 ^ 255 - 21"
  have "Z * Z ^ e = Z ^ (2 ^ 255 - 20)" unfolding power_Suc [symmetric] by (simp add: e_def)
  then have "(Z * Z ^ e) mod fe_p = 1" using assms unfolding fermat_p_def by (simp only:)
  then have "(x * (Z * Z ^ e)) mod fe_p = x mod fe_p" by (metis mod_mult_right_eq mult.right_neutral)
  then show ?thesis unfolding e_def by (simp only: mult.assoc)
qed

lemma ge_p3_tobytes_ok:
  assumes p: "p3_at p Z x y" and Z: "fermat_p Z"
  shows "ok (encodes (x, y)) (ge_p3_tobytes p)"
proof -
  have a: "fe_rep 1 (p3_X p) (x * Z)" "fe_rep 1 (p3_Y p) (y * Z)" "fe_rep 1 (p3_Z p) Z" using p by (simp_all add: p3_at_def)
  show ?thesis
    unfolding ge_p3_tobytes_def encodes_cong [OF fermat_inverse [OF Z] fermat_inverse [OF Z], of x y, symmetric]
    apply (rule ok_bind [OF fe_invert_ok [OF a(3)]], simp (no_asm))
    apply (rule fe_mul_bind [OF a(1)], assumption, simp (no_asm))
    apply (rule fe_mul_bind [OF a(2)], assumption, simp (no_asm))
    by (rule encode_ok)
qed

lemma ge_tobytes_ok:
  assumes "fe_rep 1 (p2_X p) (x * Z)" "fe_rep 1 (p2_Y p) (y * Z)" "fe_rep 1 (p2_Z p) Z" and Z: "fermat_p Z"
  shows "ok (encodes (x, y)) (ge_tobytes p)"
  unfolding ge_tobytes_def encodes_cong [OF fermat_inverse [OF Z] fermat_inverse [OF Z], of x y, symmetric]
  apply (rule ok_bind [OF fe_invert_ok [OF assms(3)]], simp (no_asm))
  apply (rule fe_mul_bind [OF assms(1)], assumption, simp (no_asm))
  apply (rule fe_mul_bind [OF assms(2)], assumption, simp (no_asm))
  by (rule encode_ok)

lemma p3_affine:
  assumes "p3_point p (x, y)" "p3_Z p = fe_1"
  shows "fe_value (p3_X p) mod fe_p = x mod fe_p \<and> fe_value (p3_Y p) mod fe_p = y mod fe_p \<and> fe_value (p3_T p) mod fe_p = x * y mod fe_p"
proof -
  obtain Z where Z: "fe_value (p3_X p) mod fe_p = x * Z mod fe_p" "fe_value (p3_Y p) mod fe_p = y * Z mod fe_p"
      "fe_value (p3_T p) mod fe_p = x * y * Z mod fe_p" "fe_rep 1 fe_1 Z"
    using assms by (auto simp: p3_point_def fe_rep_def)
  have "Z mod fe_p = 1 mod fe_p" using Z(4) fe_rep_1 by (simp add: fe_rep_def)
  then have "a * Z mod fe_p = a * 1 mod fe_p" for a by (rule mod_mult_cong [OF refl])
  then show ?thesis unfolding Z(1-3) by simp
qed

lemma encoded_unique:
  assumes p: "p3_point p (x, y)" "p3_Z p = fe_1" and s: "encodes (x, y) s"
  shows "ge_p3_tobytes p = Some s"
proof -
  obtain Z where Z: "p3_at p Z x y" using p(1) by (auto simp: p3_point_at)
  then have "fe_rep 1 fe_1 Z" using p(2) by (simp add: p3_at_def)
  then have "Z mod fe_p = 1 mod fe_p" using fe_rep_1 by (simp add: fe_rep_def)
  then have "Z ^ e mod fe_p = 1" for e using power_mod [of Z fe_p e] power_mod [of 1 fe_p e] fe_p_gt by simp
  then have "fermat_p Z" by (simp only: fermat_p_def)
  from ge_p3_tobytes_ok [OF Z this] show ?thesis using encodes_inj [OF _ s] by (auto simp: ok_def)
qed

section \<open>Montgomery coordinates and the neutral element\<close>

lemma edwardsYZ_to_x25519_ok:
  assumes Y: "fe_rep 1 Y (y * Zv)" and Z: "fe_rep 1 Z Zv" and f: "Zv * (1 - y) mod fe_p \<noteq> 0 \<Longrightarrow> fermat_p (Zv * (1 - y))"
  shows "ok (\<lambda>(r, s). length s = 32 \<and> (if Zv * (1 - y) mod fe_p = 0 then r = - 1
     else r = 0 \<and> (int (le_nat s) * (1 - y)) mod fe_p = (1 + y) mod fe_p)) (edwardsYZ_to_x25519 Y Z)" (is "ok ?Q _")
proof -
  define e :: nat where "e = 2 ^ 255 - 21"
  define W where "W = Zv - y * Zv"
  have W: "W = Zv * (1 - y)" by (simp add: W_def algebra_simps)
  have fin: "((Zv + y * Zv) * W ^ e * (1 - y)) mod fe_p = (1 + y) mod fe_p" if "W mod fe_p \<noteq> 0"
  proof -
    have "(Zv + y * Zv) * W ^ e * (1 - y) = (1 + y) * W * W ^ e" unfolding W by (simp add: algebra_simps)
    moreover have "fermat_p W" using f that unfolding W by blast
    ultimately show ?thesis using fermat_inverse [of W "1 + y"] unfolding e_def by (simp only:)
  qed
  show ?thesis
    unfolding edwardsYZ_to_x25519_def
  proof (rule fe_add_bind [OF Z Y], simp, rule fe_sub_bind [OF Z Y], simp)
    fix h g assume h: "fe_rep (1 + 1) h (Zv + y * Zv)" and g: "fe_rep (1 + 1) g (Zv - y * Zv)"
    have g2: "fe_rep 2 g W" "fe_rep 2 h (Zv + y * Zv)" using g h by (simp_all add: W_def)
    have nz: "fe_isnonzero g = Some (if W mod fe_p = 0 then 0 else 1)" by (rule fe_isnonzero_rep [OF g2(1)]) simp
    show "ok ?Q (do { nz \<leftarrow> fe_isnonzero g; let r = (if nz = 0 then - 1 else 0); tmp1 \<leftarrow> fe_invert g; tmp0 \<leftarrow> fe_mul h tmp1;
        xbytes \<leftarrow> fe_tobytes tmp0; Some (r, xbytes) })"
      unfolding nz bind.bind_lunit Let_def
      apply (rule ok_bind [OF fe_invert_ok [OF g2(1)]], simp (no_asm))
      apply (rule fe_mul_bind [OF g2(2)], assumption, simp (no_asm))
      apply (rule ok_bind [OF fe_tobytes_rep], assumption, simp (no_asm), rule ok_Some)
      unfolding e_def [symmetric] W [symmetric]
      using fin by (simp add: mod_mult_left_eq)
  qed
qed

text \<open>\<open>fe_a_inv_3\<close> is \<open>A/3\<close> and \<open>fe_c\<close> a square root of \<open>-(A + 2)\<close>, for the Montgomery coefficient \<open>A = 486662\<close>.\<close>

lemma fe_a_inv_3_rep: "fe_rep 1 fe_a_inv_3 (fe_value fe_a_inv_3)" "(3 * fe_value fe_a_inv_3) mod fe_p = 486662"
proof -
  show "fe_rep 1 fe_a_inv_3 (fe_value fe_a_inv_3)" by (intro fe_rep_value fe_bnd_list) (simp_all add: fe_a_inv_3_def fe_unit_def upt_10)
  show "(3 * fe_value fe_a_inv_3) mod fe_p = 486662" by (subst fe_value_10) (simp_all add: fe_a_inv_3_def fe_p_def)
qed

lemma fe_c_rep: "fe_rep 1 fe_c (fe_value fe_c)" "(fe_value fe_c * fe_value fe_c) mod fe_p = (- 486664) mod fe_p"
proof -
  show "fe_rep 1 fe_c (fe_value fe_c)" by (intro fe_rep_value fe_bnd_list) (simp_all add: fe_c_def fe_unit_def upt_10)
  show "(fe_value fe_c * fe_value fe_c) mod fe_p = (- 486664) mod fe_p"
    by (subst fe_value_10, simp add: fe_c_def)+ (simp add: fe_c_def fe_p_def)
qed

lemma fe_ed_derivatives_to_wei_x_y_ok:
  assumes i: "fe_rep 3 i a" and o: "fe_rep 3 o' b" and j: "fe_rep 3 j e"
  shows "ok (\<lambda>(sx, sy). length sx = 32 \<and> int (le_nat sx) = (a * b + fe_value fe_a_inv_3) mod fe_p \<and>
    length sy = 32 \<and> int (le_nat sy) = (fe_value fe_c * b * e) mod fe_p) (fe_ed_derivatives_to_wei_x_y i o' j)"
proof -
  have x: "ok (\<lambda>sx. length sx = 32 \<and> int (le_nat sx) = (a * b + fe_value fe_a_inv_3) mod fe_p) (fe_ed_derivatives_to_wei_x i o')"
    unfolding fe_ed_derivatives_to_wei_x_def
    apply (rule fe_mul_bind [OF i o], simp)
    apply (rule fe_add_bind [OF _ fe_a_inv_3_rep(1)], assumption, simp)
    by (rule fe_tobytes_rep, assumption) simp
  show ?thesis
    unfolding fe_ed_derivatives_to_wei_x_y_def
    apply (rule ok_bind [OF x])
    apply (rule fe_mul_bind [OF fe_c_rep(1) o], simp)
    apply (rule fe_mul_bind [OF _ j], assumption, simp)
    apply (rule ok_bind [OF fe_tobytes_rep], assumption, simp)
    by (rule ok_Some) simp
qed

lemma nonzero_bytes: "list_ex (\<lambda>b. b \<noteq> 0) s \<longleftrightarrow> le_nat s \<noteq> 0"
  by (auto simp: le_nat_0 list_ex_iff)

lemma ge_infinity_eq:
  assumes "fe_rep 3 (p3_X p) x" "fe_rep 3 (p3_Y p) y" "fe_rep 3 (p3_Z p) z" "fe_rep 3 (p3_T p) t"
  shows "ge_p3_is_point_at_infinity_vartime p =
    Some (x mod fe_p = 0 \<and> t mod fe_p = 0 \<and> y mod fe_p = z mod fe_p \<and> y mod fe_p \<noteq> 0)"
proof -
  obtain sx sy sz st where b: "fe_tobytes (p3_X p) = Some sx" "int (le_nat sx) = x mod fe_p"
    "fe_tobytes (p3_Y p) = Some sy" "length sy = 32" "int (le_nat sy) = y mod fe_p"
    "fe_tobytes (p3_Z p) = Some sz" "length sz = 32" "int (le_nat sz) = z mod fe_p"
    "fe_tobytes (p3_T p) = Some st" "int (le_nat st) = t mod fe_p"
    using fe_tobytes_rep [OF assms(1) order_refl] fe_tobytes_rep [OF assms(2) order_refl] fe_tobytes_rep [OF assms(3) order_refl]
      fe_tobytes_rep [OF assms(4) order_refl] unfolding ok_def by blast
  have z: "list_ex (\<lambda>b. b \<noteq> 0) sx \<longleftrightarrow> x mod fe_p \<noteq> 0" "list_ex (\<lambda>b. b \<noteq> 0) st \<longleftrightarrow> t mod fe_p \<noteq> 0" "list_ex (\<lambda>b. b \<noteq> 0) sy \<longleftrightarrow> y mod fe_p \<noteq> 0"
    unfolding nonzero_bytes b(2) [symmetric] b(5) [symmetric] b(10) [symmetric] by simp_all
  have "list_ex (\<lambda>i. sy ! i \<noteq> sz ! i) [0..<32] \<longleftrightarrow> sy \<noteq> sz" using b(4,7) by (auto simp: list_ex_iff list_eq_iff_nth_eq)
  also have "\<dots> \<longleftrightarrow> y mod fe_p \<noteq> z mod fe_p" unfolding b(5,8) [symmetric] using le_nat_inj [of sy sz] b(4,7) by auto
  finally show ?thesis using z by (simp add: ge_p3_is_point_at_infinity_vartime_def b(1,3,6,9) bind.bind_lunit)
qed

section \<open>Properties\<close>

text \<open>C31: the addition formulas compute the group law. For operands that represent the points P and Q of the curve,
  \<^verbatim>\<open>ge_add\<close> and \<^verbatim>\<open>ge_madd\<close> return the completed coordinates of P + Q, \<^verbatim>\<open>ge_sub\<close> and
  \<^verbatim>\<open>ge_msub\<close> of P - Q, and \<^verbatim>\<open>ge_p3_dbl\<close> of 2 P, whenever the law's denominators are invertible; no limb
  overflows, and the conversions to projective, extended and cached coordinates keep the point.\<close>

theorem ge_group_law:
  assumes "p3_point p P" "cached_point q Q" "precomp_point m M" "ed_curve P"
    "ed_sum P Q R1" "ed_sum P (ed_neg Q) R2" "ed_sum P M R3" "ed_sum P (ed_neg M) R4" "ed_sum P P R5" "p1p1_point r R"
  shows "ok (\<lambda>r. p1p1_point r R1) (ge_add p q) \<and> ok (\<lambda>r. p1p1_point r R2) (ge_sub p q) \<and>
    ok (\<lambda>r. p1p1_point r R3) (ge_madd p m) \<and> ok (\<lambda>r. p1p1_point r R4) (ge_msub p m) \<and>
    ok (\<lambda>r. p1p1_point r R5) (ge_p3_dbl p) \<and> ok (\<lambda>c. cached_point c P) (ge_p3_to_cached p) \<and>
    ok (\<lambda>p. p2_point p R) (ge_p1p1_to_p2 r) \<and> ok (\<lambda>p. p3_point p R) (ge_p1p1_to_p3 r)"
  using assms by (blast intro: ge_add_point ge_sub_point ge_madd_point ge_msub_point ge_p3_dbl_point ge_p3_to_cached_point
      ge_p1p1_to_p2_point ge_p1p1_to_p3_point)

theorem ge_group_law_witness:
  "ed_sum (0, - 1) (0, - 1) (0, 1) \<and>
   ok (\<lambda>r. p1p1_point r (0, 1)) (ge_p3_dbl \<lparr>p3_X = fe_0, p3_Y = - 1 # replicate 9 0, p3_Z = fe_1, p3_T = fe_0\<rparr>)"
proof -
  let ?p = "\<lparr>p3_X = fe_0, p3_Y = - 1 # replicate 9 0, p3_Z = fe_1, p3_T = fe_0\<rparr>"
  have "fe_rep 1 (- 1 # replicate 9 0) (- 1)"
    unfolding fe_rep_def by (simp add: fe_bnd_list upt_10 fe_unit_def fe_value_10 eval_nat_numeral)
  then have p: "p3_point ?p (0, - 1)" using unit_p_1 fe_rep_0 fe_rep_1 by (auto simp: p3_point_def intro!: exI [of _ 1])
  have s: "ed_sum (0, - 1) (0, - 1) (0, 1)" "ed_sum (0, - 1) (0, 1) (0, - 1)" using unit_p_1 by (simp_all add: ed_sum_def)
  have n: "ed_neg (0, 1) = (0, 1)" by (simp add: ed_neg_def)
  have c: "ed_curve (0, - 1)" by (simp add: ed_curve_def)
  have r: "p1p1_point \<lparr>p1p1_X = fe_0, p1p1_Y = fe_1, p1p1_Z = fe_1, p1p1_T = fe_1\<rparr> (0, 1)"
    by (rule p1p1_pointI [OF fe_rep_0 fe_rep_1 fe_rep_1 fe_rep_1]) (simp_all add: unit_p_1)
  show ?thesis using ge_group_law [OF p neutral_points(4,3) c s(2) _ s(2) _ s(1) r] s unfolding n by blast
qed

text \<open>C32: what is decoded encodes back to the same string. \<^verbatim>\<open>ge_frombytes_vartime\<close> never overflows, and refuses a 32-byte string only when its y is
  not canonical, when the candidate root it computes is no root of u/v up to sign, or when x = 0 has its sign bit set. When it accepts the string it
  returns a point of the curve with Z = 1, whose X, Y and T have the values x, y and xy modulo 2^255-19 for the canonical y and a canonical x of the
  string's parity, and \<^verbatim>\<open>ge_p3_tobytes\<close> gives exactly the same string back. (That every encoded point is decoded again is not claimed.)\<close>

theorem ge_bytes_roundtrip:
  assumes "length s = 32"
  shows "ok (\<lambda>r. (r = None \<longrightarrow> refused s) \<and> (\<forall>p. r = Some p \<longrightarrow> (\<exists>x y. p3_point p (x, y) \<and> ed_curve (x, y) \<and> 0 \<le> x \<and> x < fe_p \<and> 0 \<le> y \<and> y < fe_p \<and>
      int (le_nat s) = y + 2 ^ 255 * (x mod 2) \<and> p3_Z p = fe_1 \<and> fe_value (p3_X p) mod fe_p = x \<and> fe_value (p3_Y p) mod fe_p = y \<and>
      fe_value (p3_T p) mod fe_p = x * y mod fe_p) \<and> ge_p3_tobytes p = Some s)) (ge_frombytes_vartime s)"
proof (rule ok_mono [OF ge_frombytes_ok [OF assms]], intro allI impI conjI)
  fix r assume "decoded s r" "r = None"
  then show "refused s" by (simp add: decoded_def)
next
  fix r p assume "decoded s r" "r = Some p"
  then obtain x y where d: "p3_Z p = fe_1" "p3_point p (x, y)" "ed_curve (x, y)" "0 \<le> x" "x < fe_p" "0 \<le> y" "y < fe_p" "int (le_nat s) = y + 2 ^ 255 * (x mod 2)"
    by (auto simp: decoded_def)
  have "ge_p3_tobytes p = Some s"
    using encoded_unique [OF d(2,1)] d assms by (simp add: encodes_def mod_pos_pos_trivial)
  moreover have "x mod fe_p = x" "y mod fe_p = y" using d(4-7) by (simp_all add: mod_pos_pos_trivial)
  note p3_affine [OF d(2,1), unfolded this]
  ultimately show "ge_p3_tobytes p = Some s" "\<exists>x y. p3_point p (x, y) \<and> ed_curve (x, y) \<and> 0 \<le> x \<and> x < fe_p \<and> 0 \<le> y \<and> y < fe_p \<and>
      int (le_nat s) = y + 2 ^ 255 * (x mod 2) \<and> p3_Z p = fe_1 \<and> fe_value (p3_X p) mod fe_p = x \<and> fe_value (p3_Y p) mod fe_p = y \<and>
      fe_value (p3_T p) mod fe_p = x * y mod fe_p" using d by blast+
qed

theorem ge_bytes_roundtrip_witness:
  "\<exists>p. ge_frombytes_vartime (1 # replicate 31 0) = Some (Some p) \<and> ge_p3_tobytes p = Some (1 # replicate 31 0)"
proof -
  let ?s = "1 # replicate 31 0 :: bytes"
  have v: "le_nat ?s = 1" by (simp add: eval_nat_numeral)
  have "\<not> refused ?s" unfolding refused_def v Let_def by (simp add: sqrt_cand_def fe_p_def)
  then show ?thesis using ge_bytes_roundtrip [of ?s] by (auto simp: ok_def)
qed

text \<open>\<^verbatim>\<open>ge_p3_is_point_at_infinity_vartime\<close> answers true exactly for the representations of the neutral
  element: X = 0, T = 0 and Y = Z with Y not 0, modulo 2^255-19; the invalid representation with Y = Z = 0 is refused.\<close>

theorem ge_infinity_iff:
  assumes "fe_bnd 3 (p3_X p)" "fe_bnd 3 (p3_Y p)" "fe_bnd 3 (p3_Z p)" "fe_bnd 3 (p3_T p)"
  shows "ge_p3_is_point_at_infinity_vartime p = Some (fe_value (p3_X p) mod fe_p = 0 \<and> fe_value (p3_T p) mod fe_p = 0 \<and>
    fe_value (p3_Y p) mod fe_p = fe_value (p3_Z p) mod fe_p \<and> fe_value (p3_Y p) mod fe_p \<noteq> 0)"
  by (rule ge_infinity_eq) (rule fe_rep_value, rule assms)+

theorem ge_infinity_iff_witness:
  "ge_p3_is_point_at_infinity_vartime ge_p3_0 = Some True \<and>
   ge_p3_is_point_at_infinity_vartime \<lparr>p3_X = fe_0, p3_Y = fe_0, p3_Z = fe_0, p3_T = fe_0\<rparr> = Some False"
proof -
  have z: "fe_bnd 3 fe_0" "fe_bnd 3 fe_1" "fe_value fe_0 mod fe_p = 0" "fe_value fe_1 mod fe_p = 1"
    using fe_rep_mono [OF fe_rep_0, of 3] fe_rep_mono [OF fe_rep_1, of 3] fe_p_gt by (simp_all add: fe_rep_def)
  show ?thesis
    using ge_infinity_iff [of ge_p3_0] ge_infinity_iff [of "\<lparr>p3_X = fe_0, p3_Y = fe_0, p3_Z = fe_0, p3_T = fe_0\<rparr>"] z by (simp add: ge_p3_0_def)
qed

end
