(* ===== verification/Scalarmult25519.thy ===== *)
theory Scalarmult25519
  imports Group25519
begin

unbundle bit_operations_syntax

text \<open>
  Multiples of points: the fixed-window routines \<open>ge_scalarmult\<close>, \<open>ge_scalarmult_p3\<close> and \<open>ge_scalarmult_base\<close> of
  \<open>src/crypto/crypto-ops.c\<close> and its sliding-window routines (\<open>slide\<close>, \<open>ge_dsm_precomp\<close>, \<open>ge_double_scalarmult_*\<close>,
  \<open>ge_triple_scalarmult_*\<close>). The precomputed tables \<open>ge_Bi\<close> and \<open>ge_base\<close> of \<open>crypto-ops-data.c\<close> are arguments.
\<close>

section \<open>Fixed windows\<close>

definition equal_ct :: "u8 \<Rightarrow> u8 \<Rightarrow> u8" where
  "equal_ct ub uc = (let x = ub XOR uc; y = (ucast x :: u32) - 1 in ucast (drop_bit 31 y))"

definition negative :: "int \<Rightarrow> u8" where
  "negative b = (let x = (word_of_int b :: u64) in ucast (drop_bit 63 x))"

definition babs :: "int \<Rightarrow> u8" where
  "babs b = word_of_int (b - ((- uint (negative b)) AND b) * 2)"

text \<open>The digits of \<open>ge_scalarmult\<close>: \<open>-8..7\<close>, the last one \<open>0..8\<close>.\<close>

definition recode_step :: "bytes \<Rightarrow> nat \<Rightarrow> int \<times> int list \<Rightarrow> (int \<times> int list) option" where
  "recode_step a i = (\<lambda>(carry, e). do {
     ai \<leftarrow> vec_at a i;
     let carry = carry + uint ai;
     let carry2 = (carry + 8) div 2 ^ 4;
     let e0 = carry - carry2 * 2 ^ 4;
     let carry = (carry2 + 8) div 2 ^ 4;
     let e1 = carry2 - carry * 2 ^ 4;
     Some (carry, e @ [e0, e1]) })"

definition recode :: "bytes \<Rightarrow> int list option" where
  "recode a = do {
     (carry, e) \<leftarrow> ofold (recode_step a) [0..<31] (0, []);
     a31 \<leftarrow> vec_at a 31;
     let carry = carry + uint a31;
     let carry2 = (carry + 8) div 2 ^ 4;
     Some (e @ [carry - carry2 * 2 ^ 4, carry2]) }"

definition ge_multiples :: "ge_p3 \<Rightarrow> ge_cached list option" where
  "ge_multiples A = do {
     a0 \<leftarrow> ge_p3_to_cached A;
     ofold (\<lambda>i Ai. do {
       t \<leftarrow> ge_add A (Ai ! i);
       u \<leftarrow> ge_p1p1_to_p3 t;
       c \<leftarrow> ge_p3_to_cached u;
       Some (Ai @ [c]) }) [0..<7] [a0] }"

definition ge_cached_select :: "ge_cached list \<Rightarrow> int \<Rightarrow> ge_cached option" where
  "ge_cached_select Ai b = do {
     let bnegative = negative b;
     cur \<leftarrow> ofold (\<lambda>k cur. ge_cached_cmov cur (Ai ! k) (equal_ct (babs b) (of_nat (k + 1)))) [0..<8] ge_cached_0;
     let YplusX' = fe_copy (YminusX cur);
     let YminusX' = fe_copy (YplusX cur);
     let Z' = fe_copy (cached_Z cur);
     T2d' \<leftarrow> fe_neg (T2d cur);
     ge_cached_cmov cur \<lparr>YplusX = YplusX', YminusX = YminusX', cached_Z = Z', T2d = T2d'\<rparr> bnegative }"

definition ge_scalarmult_step :: "ge_cached list \<Rightarrow> int \<Rightarrow> ge_p2 \<Rightarrow> ge_p1p1 option" where
  "ge_scalarmult_step Ai b r = do {
     t \<leftarrow> ge_p2_dbl r;
     r \<leftarrow> ge_p1p1_to_p2 t;
     t \<leftarrow> ge_p2_dbl r;
     r \<leftarrow> ge_p1p1_to_p2 t;
     t \<leftarrow> ge_p2_dbl r;
     r \<leftarrow> ge_p1p1_to_p2 t;
     t \<leftarrow> ge_p2_dbl r;
     u \<leftarrow> ge_p1p1_to_p3 t;
     cur \<leftarrow> ge_cached_select Ai b;
     ge_add u cur }"

definition ge_scalarmult :: "bytes \<Rightarrow> ge_p3 \<Rightarrow> ge_p2 option" where
  "ge_scalarmult a A = do {
     e \<leftarrow> recode a;
     Ai \<leftarrow> ge_multiples A;
     ofold (\<lambda>i r. do { t \<leftarrow> ge_scalarmult_step Ai (e ! i) r; ge_p1p1_to_p2 t }) (rev [0..<64]) ge_p2_0 }"

text \<open>The extended result is written in the last turn of a loop whose other turns write the projective accumulator;
  \<open>None\<close> in the second component stands for a result that has not been written.\<close>

definition last_turn :: "nat \<Rightarrow> ge_p1p1 \<Rightarrow> ge_p2 \<times> ge_p3 option \<Rightarrow> (ge_p2 \<times> ge_p3 option) option" where
  "last_turn i t = (\<lambda>(r, r3). if i = 0 then do { r3 \<leftarrow> ge_p1p1_to_p3 t; Some (r, Some r3) }
     else do { r \<leftarrow> ge_p1p1_to_p2 t; Some (r, r3) })"

definition ge_scalarmult_p3 :: "bytes \<Rightarrow> ge_p3 \<Rightarrow> ge_p3 option option" where
  "ge_scalarmult_p3 a A = do {
     e \<leftarrow> recode a;
     Ai \<leftarrow> ge_multiples A;
     (r, r3) \<leftarrow> ofold (\<lambda>i (r, r3). do { t \<leftarrow> ge_scalarmult_step Ai (e ! i) r; last_turn i t (r, r3) })
       (rev [0..<64]) (ge_p2_0, None);
     Some r3 }"

text \<open>\<open>ge_base\<close> has 32 rows of 8 points.\<close>

definition select :: "ge_precomp list list \<Rightarrow> nat \<Rightarrow> int \<Rightarrow> ge_precomp option" where
  "select ge_base pos b = do {
     let bnegative = negative b;
     row \<leftarrow> vec_at ge_base pos;
     t \<leftarrow> ofold (\<lambda>k t. do { p \<leftarrow> vec_at row k; ge_precomp_cmov t p (equal_ct (babs b) (of_nat (k + 1))) }) [0..<8] ge_precomp_0;
     let yplusx' = fe_copy (yminusx t);
     let yminusx' = fe_copy (yplusx t);
     xy2d' \<leftarrow> fe_neg (xy2d t);
     ge_precomp_cmov t \<lparr>yplusx = yplusx', yminusx = yminusx', xy2d = xy2d'\<rparr> bnegative }"

text \<open>The digits of \<open>ge_scalarmult_base\<close>, computed in place from the nibbles.\<close>

definition nibbles :: "bytes \<Rightarrow> int list" where
  "nibbles a = concat (map (\<lambda>ai. [uint (drop_bit 0 ai AND 15), uint (drop_bit 4 ai AND 15)]) (take 32 a))"

definition recode_base_step :: "nat \<Rightarrow> int \<times> int list \<Rightarrow> (int \<times> int list) option" where
  "recode_base_step i = (\<lambda>(carry, e). do {
     ei \<leftarrow> vec_at e i;
     let ei = ei + carry;
     let carry = (ei + 8) div 2 ^ 4;
     Some (carry, e[i := ei - carry * 2 ^ 4]) })"

definition recode_base :: "bytes \<Rightarrow> int list option" where
  "recode_base a = do {
     (carry, e) \<leftarrow> ofold recode_base_step [0..<63] (0, nibbles a);
     e63 \<leftarrow> vec_at e 63;
     Some (e[63 := e63 + carry]) }"

definition ge_base_adds :: "ge_precomp list list \<Rightarrow> int list \<Rightarrow> nat list \<Rightarrow> ge_p3 \<Rightarrow> ge_p3 option" where
  "ge_base_adds ge_base e = ofold (\<lambda>i h. do {
     t \<leftarrow> select ge_base (i div 2) (e ! i);
     r \<leftarrow> ge_madd h t;
     ge_p1p1_to_p3 r })"

definition ge_scalarmult_base :: "ge_precomp list list \<Rightarrow> bytes \<Rightarrow> ge_p3 option" where
  "ge_scalarmult_base ge_base a = do {
     e \<leftarrow> recode_base a;
     h \<leftarrow> ge_base_adds ge_base e (filter odd [0..<64]) ge_p3_0;
     r \<leftarrow> ge_p3_dbl h;
     s \<leftarrow> ge_p1p1_to_p2 r;
     r \<leftarrow> ge_p2_dbl s;
     s \<leftarrow> ge_p1p1_to_p2 r;
     r \<leftarrow> ge_p2_dbl s;
     s \<leftarrow> ge_p1p1_to_p2 r;
     r \<leftarrow> ge_p2_dbl s;
     h \<leftarrow> ge_p1p1_to_p3 r;
     ge_base_adds ge_base e (filter even [0..<64]) h }"

section \<open>Sliding windows\<close>

definition slide_bits :: "bytes \<Rightarrow> int list option" where
  "slide_bits a = (if length a < 32 then None else Some (map (\<lambda>i. uint (1 AND drop_bit (i mod 8) (a ! (i div 8)))) [0..<256]))"

function slide_carry :: "nat \<Rightarrow> int list \<Rightarrow> int list" where
  "slide_carry k r = (if k < 256 then if r ! k = 0 then r[k := 1] else slide_carry (Suc k) (r[k := 0]) else r)"
  by auto
termination by (relation "measure (\<lambda>(k, r). 256 - k)") auto

function slide_inner :: "nat \<Rightarrow> nat \<Rightarrow> int list \<Rightarrow> int list" where
  "slide_inner i b r = (if b \<le> 6 \<and> i + b < 256 then
     if r ! (i + b) \<noteq> 0 then
       if r ! i + r ! (i + b) * 2 ^ b \<le> 15 then slide_inner i (Suc b) (r[i := r ! i + r ! (i + b) * 2 ^ b, i + b := 0])
       else if r ! i - r ! (i + b) * 2 ^ b \<ge> - 15 then
         slide_inner i (Suc b) (slide_carry (i + b) (r[i := r ! i - r ! (i + b) * 2 ^ b]))
       else r
     else slide_inner i (Suc b) r
   else r)"
  by auto
termination by (relation "measure (\<lambda>(i, b, r). 7 - b)") auto

definition slide :: "bytes \<Rightarrow> int list option" where
  "slide a = do {
     r \<leftarrow> slide_bits a;
     Some (fold (\<lambda>i r. if r ! i \<noteq> 0 then slide_inner i 1 r else r) [0..<256] r) }"

type_synonym ge_dsmp = "ge_cached list"

definition ge_dsm_precomp :: "ge_p3 \<Rightarrow> ge_dsmp option" where
  "ge_dsm_precomp s = do {
     r0 \<leftarrow> ge_p3_to_cached s;
     t \<leftarrow> ge_p3_dbl s;
     s2 \<leftarrow> ge_p1p1_to_p3 t;
     ofold (\<lambda>i r. do {
       t \<leftarrow> ge_add s2 (r ! i);
       u \<leftarrow> ge_p1p1_to_p3 t;
       c \<leftarrow> ge_p3_to_cached u;
       Some (r @ [c]) }) [0..<7] [r0] }"

text \<open>The addition of a digit of a scalar, with cached or with affine multiples.\<close>

definition add_cached :: "int \<Rightarrow> ge_dsmp \<Rightarrow> ge_p1p1 \<Rightarrow> ge_p1p1 option" where
  "add_cached d Ai t =
     (if d > 0 then do { u \<leftarrow> ge_p1p1_to_p3 t; q \<leftarrow> vec_at Ai (nat (d div 2)); ge_add u q }
      else if d < 0 then do { u \<leftarrow> ge_p1p1_to_p3 t; q \<leftarrow> vec_at Ai (nat ((- d) div 2)); ge_sub u q }
      else Some t)"

definition add_precomp :: "int \<Rightarrow> ge_precomp list \<Rightarrow> ge_p1p1 \<Rightarrow> ge_p1p1 option" where
  "add_precomp d Bi t =
     (if d > 0 then do { u \<leftarrow> ge_p1p1_to_p3 t; q \<leftarrow> vec_at Bi (nat (d div 2)); ge_madd u q }
      else if d < 0 then do { u \<leftarrow> ge_p1p1_to_p3 t; q \<leftarrow> vec_at Bi (nat ((- d) div 2)); ge_msub u q }
      else Some t)"

text \<open>The indices from the highest one at which some digit is not 0.\<close>

definition from_top :: "(nat \<Rightarrow> bool) \<Rightarrow> nat list" where
  "from_top nonzero = dropWhile (\<lambda>i. \<not> nonzero i) (rev [0..<256])"

definition ge_double_scalarmult_base_vartime :: "ge_precomp list \<Rightarrow> bytes \<Rightarrow> ge_p3 \<Rightarrow> bytes \<Rightarrow> ge_p2 option" where
  "ge_double_scalarmult_base_vartime ge_Bi a A b = do {
     aslide \<leftarrow> slide a;
     bslide \<leftarrow> slide b;
     Ai \<leftarrow> ge_dsm_precomp A;
     ofold (\<lambda>i r. do {
       t \<leftarrow> ge_p2_dbl r;
       t \<leftarrow> add_cached (aslide ! i) Ai t;
       t \<leftarrow> add_precomp (bslide ! i) ge_Bi t;
       ge_p1p1_to_p2 t }) (from_top (\<lambda>i. aslide ! i \<noteq> 0 \<or> bslide ! i \<noteq> 0)) ge_p2_0 }"

definition ge_triple_scalarmult_base_vartime :: "ge_precomp list \<Rightarrow> bytes \<Rightarrow> bytes \<Rightarrow> ge_dsmp \<Rightarrow> bytes \<Rightarrow> ge_dsmp \<Rightarrow> ge_p2 option" where
  "ge_triple_scalarmult_base_vartime ge_Bi a b Bi c Ci = do {
     aslide \<leftarrow> slide a;
     bslide \<leftarrow> slide b;
     cslide \<leftarrow> slide c;
     ofold (\<lambda>i r. do {
       t \<leftarrow> ge_p2_dbl r;
       t \<leftarrow> add_precomp (aslide ! i) ge_Bi t;
       t \<leftarrow> add_cached (bslide ! i) Bi t;
       t \<leftarrow> add_cached (cslide ! i) Ci t;
       ge_p1p1_to_p2 t }) (from_top (\<lambda>i. aslide ! i \<noteq> 0 \<or> bslide ! i \<noteq> 0 \<or> cslide ! i \<noteq> 0)) ge_p2_0 }"

definition ge_double_scalarmult_base_vartime_p3 :: "ge_precomp list \<Rightarrow> bytes \<Rightarrow> ge_p3 \<Rightarrow> bytes \<Rightarrow> ge_p3 option option" where
  "ge_double_scalarmult_base_vartime_p3 ge_Bi a A b = do {
     aslide \<leftarrow> slide a;
     bslide \<leftarrow> slide b;
     Ai \<leftarrow> ge_dsm_precomp A;
     (r, r3) \<leftarrow> ofold (\<lambda>i (r, r3). do {
       t \<leftarrow> ge_p2_dbl r;
       t \<leftarrow> add_cached (aslide ! i) Ai t;
       t \<leftarrow> add_precomp (bslide ! i) ge_Bi t;
       last_turn i t (r, r3) }) (from_top (\<lambda>i. aslide ! i \<noteq> 0 \<or> bslide ! i \<noteq> 0)) (ge_p2_0, None);
     Some r3 }"

definition ge_double_scalarmult_precomp_vartime2 :: "bytes \<Rightarrow> ge_dsmp \<Rightarrow> bytes \<Rightarrow> ge_dsmp \<Rightarrow> ge_p2 option" where
  "ge_double_scalarmult_precomp_vartime2 a Ai b Bi = do {
     aslide \<leftarrow> slide a;
     bslide \<leftarrow> slide b;
     ofold (\<lambda>i r. do {
       t \<leftarrow> ge_p2_dbl r;
       t \<leftarrow> add_cached (aslide ! i) Ai t;
       t \<leftarrow> add_cached (bslide ! i) Bi t;
       ge_p1p1_to_p2 t }) (from_top (\<lambda>i. aslide ! i \<noteq> 0 \<or> bslide ! i \<noteq> 0)) ge_p2_0 }"

definition ge_triple_scalarmult_precomp_vartime :: "bytes \<Rightarrow> ge_dsmp \<Rightarrow> bytes \<Rightarrow> ge_dsmp \<Rightarrow> bytes \<Rightarrow> ge_dsmp \<Rightarrow> ge_p2 option" where
  "ge_triple_scalarmult_precomp_vartime a Ai b Bi c Ci = do {
     aslide \<leftarrow> slide a;
     bslide \<leftarrow> slide b;
     cslide \<leftarrow> slide c;
     ofold (\<lambda>i r. do {
       t \<leftarrow> ge_p2_dbl r;
       t \<leftarrow> add_cached (aslide ! i) Ai t;
       t \<leftarrow> add_cached (bslide ! i) Bi t;
       t \<leftarrow> add_cached (cslide ! i) Ci t;
       ge_p1p1_to_p2 t }) (from_top (\<lambda>i. aslide ! i \<noteq> 0 \<or> bslide ! i \<noteq> 0 \<or> cslide ! i \<noteq> 0)) ge_p2_0 }"

definition ge_double_scalarmult_precomp_vartime2_p3 :: "bytes \<Rightarrow> ge_dsmp \<Rightarrow> bytes \<Rightarrow> ge_dsmp \<Rightarrow> ge_p3 option option" where
  "ge_double_scalarmult_precomp_vartime2_p3 a Ai b Bi = do {
     aslide \<leftarrow> slide a;
     bslide \<leftarrow> slide b;
     (r, r3) \<leftarrow> ofold (\<lambda>i (r, r3). do {
       t \<leftarrow> ge_p2_dbl r;
       t \<leftarrow> add_cached (aslide ! i) Ai t;
       t \<leftarrow> add_cached (bslide ! i) Bi t;
       last_turn i t (r, r3) }) (from_top (\<lambda>i. aslide ! i \<noteq> 0 \<or> bslide ! i \<noteq> 0)) (ge_p2_0, None);
     Some r3 }"

definition ge_double_scalarmult_precomp_vartime :: "bytes \<Rightarrow> ge_p3 \<Rightarrow> bytes \<Rightarrow> ge_dsmp \<Rightarrow> ge_p2 option" where
  "ge_double_scalarmult_precomp_vartime a A b Bi = do {
     Ai \<leftarrow> ge_dsm_precomp A;
     ge_double_scalarmult_precomp_vartime2 a Ai b Bi }"

declare slide_carry.simps [simp del] slide_inner.simps [simp del]

lemma ofold_cong: "(\<And>x s. x \<in> set xs \<Longrightarrow> f x s = g x s) \<Longrightarrow> ofold f xs s = ofold g xs s"
proof (induction xs arbitrary: s)
  case (Cons x xs)
  then show ?case by (auto intro!: Option.bind_cong)
qed simp

lemma ofold_upto_Suc: "ofold f [0..<Suc n] s = ofold f [0..<n] s \<bind> f n"
  by (simp only: upt_Suc_append [OF le0] ofold_snoc)

section \<open>Multiples in a group of points\<close>

text \<open>\<open>zs z g\<close> is the multiple \<open>z g\<close> in an abelian group.\<close>

primrec ns :: "nat \<Rightarrow> 'g :: ab_group_add \<Rightarrow> 'g" where
  "ns 0 g = 0"
| "ns (Suc n) g = ns n g + g"

definition zs :: "int \<Rightarrow> 'g :: ab_group_add \<Rightarrow> 'g" where
  "zs z g = (if 0 \<le> z then ns (nat z) g else - ns (nat (- z)) g)"

lemma zs_Suc: "zs (z + 1) g = zs z g + g"
proof (cases "0 \<le> z")
  case True
  then show ?thesis by (simp add: zs_def nat_add_distrib)
next
  case False
  then obtain n where "z = - int (Suc n)" by (metis negD not_le)
  then show ?thesis by (cases n) (simp_all add: zs_def nat_add_distrib)
qed

lemma zs_pred: "zs (z - 1) g = zs z g - g"
  using zs_Suc [of "z - 1" g] by (simp add: eq_diff_eq)

lemma zs_0 [simp]: "zs 0 g = 0" and zs_1 [simp]: "zs 1 g = g"
  by (simp_all add: zs_def)

lemma zs_add: "zs (a + b) g = zs a g + zs b g"
proof (induction b rule: int_induct [where k = 0])
  case (step1 i)
  then show ?case using zs_Suc [of "a + i" g] zs_Suc [of i g] by (simp add: ac_simps)
next
  case (step2 i)
  then show ?case by (simp only: add_diff_eq zs_pred)
qed simp

lemma zs_minus: "zs (- a) g = - zs a g"
  using zs_add [of a "- a" g] by (simp add: add_eq_0_iff)

lemma zs_diff: "zs (a - b) g = zs a g - zs b g"
  using zs_add [of a "- b" g] by (simp add: zs_minus)

text \<open>\<open>f\<close> maps a group to the points of the curve, its sum to the addition law.\<close>

definition ed_hom :: "('g :: ab_group_add \<Rightarrow> point) \<Rightarrow> bool" where
  "ed_hom f \<longleftrightarrow> f 0 = (0, 1) \<and> (\<forall>a b. ed_sum (f a) (f b) (f (a + b))) \<and> (\<forall>a. ed_curve (f a)) \<and> (\<forall>a. f (- a) = ed_neg (f a))"

lemma ed_hom_dest: "ed_hom f \<Longrightarrow> f 0 = (0, 1)" "ed_hom f \<Longrightarrow> ed_sum (f a) (f b) (f (a + b))" "ed_hom f \<Longrightarrow> ed_curve (f a)"
  "ed_hom f \<Longrightarrow> f (- a) = ed_neg (f a)"
  by (auto simp: ed_hom_def)

lemma hom_dbl: "ed_hom f \<Longrightarrow> p2_point r (f x) \<Longrightarrow> ok (\<lambda>t. p1p1_point t (f (x + x))) (ge_p2_dbl r)"
  by (rule ge_p2_dbl_point) (auto simp: ed_hom_dest)

lemma hom_add: "ed_hom f \<Longrightarrow> p3_point p (f x) \<Longrightarrow> cached_point q (f y) \<Longrightarrow> ok (\<lambda>t. p1p1_point t (f (x + y))) (ge_add p q)"
  by (rule ge_add_point) (auto simp: ed_hom_dest)

lemma hom_sub: "ed_hom f \<Longrightarrow> p3_point p (f x) \<Longrightarrow> cached_point q (f y) \<Longrightarrow> ok (\<lambda>t. p1p1_point t (f (x - y))) (ge_sub p q)"
  by (rule ge_sub_point) (use ed_hom_dest(2) [of f x "- y"] in \<open>auto simp: ed_hom_dest\<close>)

lemma hom_madd: "ed_hom f \<Longrightarrow> p3_point p (f x) \<Longrightarrow> precomp_point q (f y) \<Longrightarrow> ok (\<lambda>t. p1p1_point t (f (x + y))) (ge_madd p q)"
  by (rule ge_madd_point) (auto simp: ed_hom_dest)

lemma hom_msub: "ed_hom f \<Longrightarrow> p3_point p (f x) \<Longrightarrow> precomp_point q (f y) \<Longrightarrow> ok (\<lambda>t. p1p1_point t (f (x - y))) (ge_msub p q)"
  by (rule ge_msub_point) (use ed_hom_dest(2) [of f x "- y"] in \<open>auto simp: ed_hom_dest\<close>)

lemma hom_p3_dbl: "ed_hom f \<Longrightarrow> p3_point r (f x) \<Longrightarrow> ok (\<lambda>t. p1p1_point t (f (x + x))) (ge_p3_dbl r)"
  by (rule ge_p3_dbl_point) (auto simp: ed_hom_dest)

lemma to_p2_bind: "p1p1_point t P \<Longrightarrow> (\<And>r. p2_point r P \<Longrightarrow> ok Q (c r)) \<Longrightarrow> ok Q (ge_p1p1_to_p2 t \<bind> c)"
  by (rule ok_bind [OF ge_p1p1_to_p2_point])

lemma to_p3_bind: "p1p1_point t P \<Longrightarrow> (\<And>r. p3_point r P \<Longrightarrow> ok Q (c r)) \<Longrightarrow> ok Q (ge_p1p1_to_p3 t \<bind> c)"
  by (rule ok_bind [OF ge_p1p1_to_p3_point])

lemma to_cached_bind: "p3_point t P \<Longrightarrow> (\<And>r. cached_point r P \<Longrightarrow> ok Q (c r)) \<Longrightarrow> ok Q (ge_p3_to_cached t \<bind> c)"
  by (rule ok_bind [OF ge_p3_to_cached_point])

lemmas to_binds = to_p2_bind to_p3_bind to_cached_bind

section \<open>Selection\<close>

lemma digit_cases: "- 8 \<le> b \<Longrightarrow> b \<le> 8 \<Longrightarrow> b \<in> {- 8, - 7, - 6, - 5, - 4, - 3, - 2, - 1, 0, 1, 2, 3, 4, 5, 6, 7, 8 :: int}"
  by auto presburger

lemma negative_digit: "- 8 \<le> b \<Longrightarrow> b \<le> 8 \<Longrightarrow> negative b = (if b < 0 then 1 else 0)"
  by (drule digit_cases, assumption, elim insertE emptyE; simp; code_simp)

lemma babs_digit: "- 8 \<le> b \<Longrightarrow> b \<le> 8 \<Longrightarrow> babs b = of_nat (nat \<bar>b\<bar>)"
  by (drule digit_cases, assumption, elim insertE emptyE; simp; code_simp)

lemma equal_ct_small: "j \<le> 8 \<Longrightarrow> k \<le> 8 \<Longrightarrow> equal_ct (of_nat j) (of_nat k) = (if j = k then 1 else 0)"
proof -
  assume "j \<le> 8" "k \<le> 8"
  moreover have "\<forall>j \<in> set [0..<9]. \<forall>k \<in> set [0..<9]. equal_ct (of_nat j) (of_nat k) = (if j = k then 1 else 0)" by code_simp
  ultimately show ?thesis by simp
qed

lemma cached_bnd: "cached_point q P \<Longrightarrow> fe_bnd 2 (YplusX q) \<and> fe_bnd 2 (YminusX q) \<and> fe_bnd 2 (cached_Z q) \<and> fe_bnd 2 (T2d q)"
  by (cases P) (auto simp: cached_point_def fe_rep_def intro: fe_bnd_mono)

lemma ge_cached_cmov_eq:
  assumes "cached_point t P" "cached_point u Q"
  shows "ge_cached_cmov t u (if b then 1 else 0) = Some (if b then u else t)"
  using cached_bnd [OF assms(1)] cached_bnd [OF assms(2)] by (simp add: ge_cached_cmov_def fe_cmov_eq [of 2])

lemma precomp_bnd: "precomp_point q P \<Longrightarrow> fe_bnd 1 (yplusx q) \<and> fe_bnd 1 (yminusx q) \<and> fe_bnd 1 (xy2d q)"
  by (cases P) (auto simp: precomp_point_def fe_rep_def)

lemma ge_precomp_cmov_eq:
  assumes "precomp_point t P" "precomp_point u Q"
  shows "ge_precomp_cmov t u (if b then 1 else 0) = Some (if b then u else t)"
  using precomp_bnd [OF assms(1)] precomp_bnd [OF assms(2)] by (simp add: ge_precomp_cmov_def fe_cmov_eq [of 1])

text \<open>A chain of conditional moves takes the entry of the flag that is set.\<close>

lemma cmov_chain:
  assumes "\<And>t u b. R t \<Longrightarrow> R u \<Longrightarrow> cmov t u (if b then 1 else 0 :: u8) = Some (if b then u else t)"
    and "R z" "\<And>k. k < 8 \<Longrightarrow> R (T k)" "j \<le> 8"
  shows "n \<le> 8 \<Longrightarrow> ofold (\<lambda>k t. cmov t (T k) (equal_ct (of_nat j) (of_nat (k + 1)))) [0..<n] z = Some (if 0 < j \<and> j \<le> n then T (j - 1) else z)"
proof (induction n)
  case (Suc n)
  let ?t = "if 0 < j \<and> j \<le> n then T (j - 1) else z"
  have "R ?t" using assms(2) Suc.prems by (auto intro!: assms(3))
  moreover have "equal_ct (of_nat j) (of_nat (n + 1)) = (if j = n + 1 then 1 else 0)" using assms(4) Suc.prems by (intro equal_ct_small) simp_all
  ultimately have "cmov ?t (T n) (equal_ct (of_nat j) (of_nat (n + 1))) = Some (if j = n + 1 then T n else ?t)"
    using assms(1) [of ?t "T n" "j = n + 1"] assms(3) [of n] Suc.prems by (simp only: Suc_le_eq)
  moreover have "(if j = n + 1 then T n else ?t) = (if 0 < j \<and> j \<le> Suc n then T (j - 1) else z)" by auto
  ultimately show ?case using Suc by (simp add: ofold_append del: of_nat_add of_nat_Suc)
qed auto

lemma cached_neg:
  assumes "cached_point c P"
  shows "ok (\<lambda>h. cached_point \<lparr>YplusX = fe_copy (YminusX c), YminusX = fe_copy (YplusX c), cached_Z = fe_copy (cached_Z c), T2d = h\<rparr> (ed_neg P)) (fe_neg (T2d c))"
proof -
  obtain x y where P: "P = (x, y)" by (metis surj_pair)
  from assms obtain Z where Z: "unit_p Z" "fe_rep 2 (YplusX c) ((y + x) * Z)" "fe_rep 2 (YminusX c) ((y - x) * Z)"
      "fe_rep 1 (cached_Z c) Z" "fe_rep 1 (T2d c) (2 * ed_d * (x * y * Z))"
    unfolding P cached_point_def by blast
  have "fe_rep 2 (fe_copy (YminusX c)) ((y + - x) * Z)" "fe_rep 2 (fe_copy (YplusX c)) ((y - - x) * Z)" "fe_rep 1 (fe_copy (cached_Z c)) Z"
    using Z fe_rep_copy by simp_all
  then show ?thesis unfolding P ed_neg_def cached_point_def using Z(1) by (intro ok_mono [OF fe_neg_rep [OF Z(5)]]) auto
qed

lemma ge_cached_select_point:
  assumes f: "ed_hom f" and T: "\<forall>k < 8. cached_point (Ai ! k) (f (zs (int k + 1) g))" and b: "- 8 \<le> b" "b \<le> 8"
  shows "ok (\<lambda>c. cached_point c (f (zs b g))) (ge_cached_select Ai b)"
proof -
  define j where "j = nat \<bar>b\<bar>"
  define c where "c = (if 0 < j then Ai ! (j - 1) else ge_cached_0)"
  have j: "j \<le> 8" using b by (simp add: j_def)
  have R: "\<exists>P. cached_point ge_cached_0 P" "\<And>k. k < 8 \<Longrightarrow> \<exists>P. cached_point (Ai ! k) P" using neutral_points(4) T by blast+
  have ch: "ofold (\<lambda>k cur. ge_cached_cmov cur (Ai ! k) (equal_ct (of_nat j) (of_nat (k + 1)))) [0..<8] ge_cached_0 = Some c"
  proof -
    have "ge_cached_cmov t u (if b then 1 else 0) = Some (if b then u else t)" if "\<exists>P. cached_point t P" "\<exists>P. cached_point u P" for t u b
      using that ge_cached_cmov_eq by blast
    from cmov_chain [where cmov = ge_cached_cmov and R = "\<lambda>c. \<exists>P. cached_point c P" and T = "\<lambda>k. Ai ! k", OF this R j order_refl] j
    show ?thesis by (simp only: simp_thms c_def)
  qed
  have cp: "cached_point c (f (zs \<bar>b\<bar> g))"
    using T [rule_format, of "j - 1"] j neutral_points(4) ed_hom_dest(1) [OF f] by (auto simp: j_def c_def)
  define P where "P = f (zs \<bar>b\<bar> g)"
  have neg: "f (zs b g) = (if b < 0 then ed_neg (f (zs \<bar>b\<bar> g)) else f (zs \<bar>b\<bar> g))"
    using zs_minus [of "\<bar>b\<bar>" g] ed_hom_dest(4) [OF f] by auto
  show ?thesis
    unfolding ge_cached_select_def Let_def babs_digit [OF b] negative_digit [OF b] j_def [symmetric] ch bind.bind_lunit
    apply (rule ok_bind [OF cached_neg [OF cp]])
    apply (insert cp)
    apply (simp only: ge_cached_cmov_eq [OF cp])
    unfolding neg P_def [symmetric] by (intro ok_Some) simp
qed

lemma precomp_neg:
  assumes "precomp_point c P"
  shows "ok (\<lambda>h. precomp_point \<lparr>yplusx = fe_copy (yminusx c), yminusx = fe_copy (yplusx c), xy2d = h\<rparr> (ed_neg P)) (fe_neg (xy2d c))"
proof -
  obtain x y where P: "P = (x, y)" by (metis surj_pair)
  from assms have Z: "fe_rep 1 (yplusx c) (y + x)" "fe_rep 1 (yminusx c) (y - x)" "fe_rep 1 (xy2d c) (2 * ed_d * (x * y))"
    unfolding P precomp_point_def by blast+
  have "fe_rep 1 (fe_copy (yminusx c)) (y + - x)" "fe_rep 1 (fe_copy (yplusx c)) (y - - x)"
    using Z fe_rep_copy by simp_all
  then show ?thesis unfolding P ed_neg_def precomp_point_def by (intro ok_mono [OF fe_neg_rep [OF Z(3)]]) auto
qed

lemma select_point:
  assumes f: "ed_hom f" and T: "pos < length B" "length (B ! pos) = 8" "\<forall>k < 8. precomp_point (B ! pos ! k) (f (zs (int k + 1) g))" and b: "- 8 \<le> b" "b \<le> 8"
  shows "ok (\<lambda>c. precomp_point c (f (zs b g))) (select B pos b)"
proof -
  define j where "j = nat \<bar>b\<bar>"
  define c where "c = (if 0 < j then B ! pos ! (j - 1) else ge_precomp_0)"
  have j: "j \<le> 8" using b by (simp add: j_def)
  have R: "\<exists>P. precomp_point ge_precomp_0 P" "\<And>k. k < 8 \<Longrightarrow> \<exists>P. precomp_point (B ! pos ! k) P" using neutral_points(3) T(3) by blast+
  have ch: "ofold (\<lambda>k cur. do { p \<leftarrow> vec_at (B ! pos) k; ge_precomp_cmov cur p (equal_ct (of_nat j) (of_nat (k + 1))) }) [0..<8] ge_precomp_0 = Some c"
  proof -
    have "ge_precomp_cmov t u (if b then 1 else 0) = Some (if b then u else t)" if "\<exists>P. precomp_point t P" "\<exists>P. precomp_point u P" for t u b
      using that ge_precomp_cmov_eq by blast
    from cmov_chain [where cmov = ge_precomp_cmov and R = "\<lambda>c. \<exists>P. precomp_point c P" and T = "\<lambda>k. B ! pos ! k", OF this R j order_refl] j
    have "ofold (\<lambda>k cur. ge_precomp_cmov cur (B ! pos ! k) (equal_ct (of_nat j) (of_nat (k + 1)))) [0..<8] ge_precomp_0 = Some c"
      by (simp only: simp_thms c_def)
    moreover have "ofold (\<lambda>k cur. do { p \<leftarrow> vec_at (B ! pos) k; ge_precomp_cmov cur p (F k) }) ks = ofold (\<lambda>k cur. ge_precomp_cmov cur (B ! pos ! k) (F k)) ks"
      if "\<forall>k \<in> set ks. k < 8" for ks F using that T(2) by (intro ext ofold_cong) simp
    ultimately show ?thesis by simp
  qed
  have cp: "precomp_point c (f (zs \<bar>b\<bar> g))"
    using T(3) [rule_format, of "j - 1"] j neutral_points(3) ed_hom_dest(1) [OF f] by (auto simp: j_def c_def)
  define P where "P = f (zs \<bar>b\<bar> g)"
  have neg: "f (zs b g) = (if b < 0 then ed_neg (f (zs \<bar>b\<bar> g)) else f (zs \<bar>b\<bar> g))"
    using zs_minus [of "\<bar>b\<bar>" g] ed_hom_dest(4) [OF f] by auto
  show ?thesis
    unfolding select_def Let_def babs_digit [OF b] negative_digit [OF b] j_def [symmetric] vec_at_Some [OF T(1)] ch bind.bind_lunit
    apply (rule ok_bind [OF precomp_neg [OF cp]])
    apply (insert cp)
    apply (simp only: ge_precomp_cmov_eq [OF cp])
    unfolding neg P_def [symmetric] by (intro ok_Some) simp
qed

section \<open>Tables\<close>

lemma table_step:
  assumes f: "ed_hom f" and s: "p3_point s (f d)"
    and T: "length T = Suc n \<and> (\<forall>k < Suc n. cached_point (T ! k) (f (g + zs (int k) d)))"
  shows "ok (\<lambda>T. length T = Suc (Suc n) \<and> (\<forall>k < Suc (Suc n). cached_point (T ! k) (f (g + zs (int k) d))))
    (do { t \<leftarrow> ge_add s (T ! n); u \<leftarrow> ge_p1p1_to_p3 t; c \<leftarrow> ge_p3_to_cached u; Some (T @ [c]) })"
proof -
  have "zs (int n + 1) d = zs (int n) d + d" by (rule zs_Suc)
  then have e: "d + (g + zs (int n) d) = g + zs (int (Suc n)) d" by (simp add: ac_simps)
  have "cached_point (T ! n) (f (g + zs (int n) d))" using T by blast
  from hom_add [OF f s this]
  have "ok (\<lambda>t. p1p1_point t (f (g + zs (int (Suc n)) d))) (ge_add s (T ! n))" unfolding e .
  then show ?thesis
    apply (rule ok_bind)
    apply (rule to_binds, assumption)+
    using T by (intro ok_Some) (auto simp: nth_append less_Suc_eq)
qed

lemma table_ok:
  assumes f: "ed_hom f" and s: "p3_point s (f d)" and c: "cached_point c (f g)"
  shows "ok (\<lambda>T. length T = Suc n \<and> (\<forall>k < Suc n. cached_point (T ! k) (f (g + zs (int k) d))))
    (ofold (\<lambda>i T. do { t \<leftarrow> ge_add s (T ! i); u \<leftarrow> ge_p1p1_to_p3 t; c \<leftarrow> ge_p3_to_cached u; Some (T @ [c]) }) [0..<n] [c])"
proof (induction n)
  case 0
  then show ?case using c by (simp add: ok_def)
next
  case (Suc n)
  show ?case unfolding ofold_upto_Suc by (rule ok_bind [OF Suc]) (rule table_step [OF f s])
qed

lemma ge_multiples_ok:
  assumes f: "ed_hom f" and A: "p3_point A (f g)"
  shows "ok (\<lambda>T. \<forall>k < 8. cached_point (T ! k) (f (zs (int k + 1) g))) (ge_multiples A)"
proof -
  have e: "g + zs (int k) g = zs (int k + 1) g" for k using zs_Suc [of "int k" g] by (simp only: add.commute)
  show ?thesis
    unfolding ge_multiples_def
    apply (rule to_binds, rule A)
    apply (rule ok_mono [OF table_ok [OF f A]], assumption)
    by (simp add: e)
qed

lemma ge_dsm_precomp_ok:
  assumes f: "ed_hom f" and A: "p3_point A (f g)"
  shows "ok (\<lambda>T. length T = 8 \<and> (\<forall>k < 8. cached_point (T ! k) (f (zs (2 * int k + 1) g)))) (ge_dsm_precomp A)"
proof -
  have 2: "zs (int k) (g + g) = zs (2 * int k) g" for k
  proof (induction k)
    case (Suc k)
    have "zs (2 * int (Suc k)) g = zs (2 * int k + 1 + 1) g" by (simp add: algebra_simps)
    also have "\<dots> = zs (int k) (g + g) + (g + g)" unfolding zs_Suc Suc by (simp only: add.assoc)
    also have "\<dots> = zs (int (Suc k)) (g + g)" using zs_Suc [of "int k" "g + g"] by (simp add: add.commute)
    finally show ?case ..
  qed simp
  have e: "g + zs (int k) (g + g) = zs (2 * int k + 1) g" for k unfolding zs_Suc 2 by (rule add.commute)
  show ?thesis
    unfolding ge_dsm_precomp_def
    apply (rule to_binds, rule A)
    apply (rule ok_bind [OF hom_p3_dbl [OF f A]])
    apply (rule to_binds, assumption)
    apply (rule ok_mono [OF table_ok [OF f]], assumption, assumption)
    by (simp add: e)
qed

section \<open>Digits\<close>

definition digits_value :: "int list \<Rightarrow> int" where
  "digits_value e = foldr (\<lambda>d v. d + 16 * v) e 0"

lemma digits_value_append: "digits_value (xs @ ys) = digits_value xs + 16 ^ length xs * digits_value ys"
  by (induction xs) (auto simp: digits_value_def algebra_simps)

lemma digits_value_simps [simp]: "digits_value [] = 0" "digits_value (d # e) = d + 16 * digits_value e"
  by (simp_all add: digits_value_def)

definition digits_ok :: "int list \<Rightarrow> bool" where
  "digits_ok e \<longleftrightarrow> (\<forall>d \<in> set e. - 8 \<le> d \<and> d \<le> 8)"

lemma carry_digit: "- 8 \<le> x - (x + 8) div 2 ^ 4 * 2 ^ 4 \<and> x - (x + 8) div 2 ^ 4 * 2 ^ 4 \<le> 7" for x :: int
  by simp presburger

lemma carry_bound: "0 \<le> x \<Longrightarrow> x \<le> 16 * m \<Longrightarrow> 0 \<le> (x + 8) div 2 ^ 4 \<and> (x + 8) div 2 ^ 4 \<le> m" for x m :: int
  by simp presburger

lemma recode_fold:
  assumes "length a = 32"
  shows "n \<le> 31 \<Longrightarrow> \<exists>c e. ofold (recode_step a) [0..<n] (0, []) = Some (c, e) \<and> length e = 2 * n \<and> 0 \<le> c \<and> c \<le> 1 \<and> digits_ok e \<and>
    digits_value e + 16 ^ (2 * n) * c = int (le_nat (take n a))"
proof (induction n)
  case (Suc n)
  then obtain c e where I: "ofold (recode_step a) [0..<n] (0, []) = Some (c, e)" "length e = 2 * n" "0 \<le> c" "c \<le> 1" "digits_ok e"
    "digits_value e + 16 ^ (2 * n) * c = int (le_nat (take n a))" by auto
  define x where "x = c + uint (a ! n)"
  define x2 where "x2 = (x + 8) div 2 ^ 4"
  define c' where "c' = (x2 + 8) div 2 ^ 4"
  have x: "0 \<le> x" "x \<le> 256" using I uint_range_size [of "a ! n"] by (simp_all add: x_def word_size)
  then have "0 \<le> x2" "x2 \<le> 16" using carry_bound [of x 16] unfolding x2_def by simp_all
  then have c': "0 \<le> c'" "c' \<le> 1" using carry_bound [of x2 1] unfolding c'_def by simp_all
  have s: "recode_step a n (c, e) = Some (c', e @ [x - x2 * 2 ^ 4, x2 - c' * 2 ^ 4])"
    using Suc.prems assms by (simp add: recode_step_def Let_def x_def x2_def c'_def)
  have t: "int (le_nat (take (Suc n) a)) = int (le_nat (take n a)) + 16 ^ (2 * n) * uint (a ! n)"
  proof -
    have "le_nat (take (Suc n) a) = le_nat (take n a) + 256 ^ n * unat (a ! n)"
      using Suc.prems assms by (simp add: take_Suc_conv_app_nth le_nat_append)
    then have "int (le_nat (take (Suc n) a)) = int (le_nat (take n a)) + (16 ^ 2) ^ n * int (unat (a ! n))" by (simp del: of_nat_unat)
    then show ?thesis unfolding uint_nat power_mult .
  qed
  have "digits_value (e @ [x - x2 * 2 ^ 4, x2 - c' * 2 ^ 4]) + 16 ^ (2 * Suc n) * c' = digits_value e + 16 ^ (2 * n) * x"
    using I(2) by (simp add: digits_value_append algebra_simps)
  also have "\<dots> = int (le_nat (take (Suc n) a))" unfolding t I(6) [symmetric] x_def by (simp add: algebra_simps)
  finally have v: "digits_value (e @ [x - x2 * 2 ^ 4, x2 - c' * 2 ^ 4]) + 16 ^ (2 * Suc n) * c' = int (le_nat (take (Suc n) a))" .
  have "digits_ok (e @ [x - x2 * 2 ^ 4, x2 - c' * 2 ^ 4])" using I(5) carry_digit [of x] carry_digit [of x2] by (auto simp: digits_ok_def x2_def c'_def)
  then show ?case using I s v c' by (simp add: ofold_upto_Suc del: upt_Suc)
qed (simp add: digits_ok_def)

lemma recode_ok:
  assumes a: "length a = 32" and lt: "unat (a ! 31) \<le> 127"
  shows "ok (\<lambda>e. length e = 64 \<and> digits_ok e \<and> digits_value e = int (le_nat a)) (recode a)"
proof -
  obtain c e where I: "ofold (recode_step a) [0..<31] (0, []) = Some (c, e)" "length e = 62" "0 \<le> c" "c \<le> 1" "digits_ok e"
    "digits_value e + 16 ^ 62 * c = int (le_nat (take 31 a))" using recode_fold [OF a, of 31] by auto
  define x where "x = c + uint (a ! 31)"
  define x2 where "x2 = (x + 8) div 2 ^ 4"
  have "uint (a ! 31) \<le> 127" using lt by (metis of_nat_le_iff of_nat_numeral uint_nat)
  then have x: "0 \<le> x" "x \<le> 128" using I(3,4) by (simp_all add: x_def)
  then have x2: "0 \<le> x2" "x2 \<le> 8" using carry_bound [of x 8] unfolding x2_def by simp_all
  have s: "recode a = Some (e @ [x - x2 * 2 ^ 4, x2])" using I(1) a by (simp add: recode_def Let_def x_def x2_def)
  have "int (le_nat a) = int (le_nat (take 31 a)) + 16 ^ 62 * uint (a ! 31)"
  proof -
    have "drop 31 a = [a ! 31]" using a Cons_nth_drop_Suc [of 31 a] by simp
    then have "le_nat a = le_nat (take 31 a) + 256 ^ 31 * unat (a ! 31)" using le_nat_split [of a 31] a by simp
    then have "int (le_nat a) = int (le_nat (take 31 a)) + 16 ^ 62 * int (unat (a ! 31))" by (simp del: of_nat_unat)
    then show ?thesis unfolding uint_nat .
  qed
  then have "int (le_nat a) = digits_value e + 16 ^ 62 * x" using I(6) by (simp add: x_def algebra_simps)
  also have "\<dots> = digits_value (e @ [x - x2 * 2 ^ 4, x2])" using I(2) by (simp add: digits_value_append)
  finally show ?thesis using s I(2,5) x2 carry_digit [of x] by (auto simp: ok_def digits_ok_def x2_def)
qed

section \<open>Loops from the top digit down\<close>

lemma rev_upt_step: "j < n \<Longrightarrow> rev [j..<n] = rev [Suc j..<n] @ [j]"
  by (simp add: upt_conv_Cons)

lemma down_loop:
  assumes S: "\<And>i r. i < n \<Longrightarrow> p2_point r (f (V (Suc i))) \<Longrightarrow> ok (\<lambda>t. p1p1_point t (f (V i))) (S i r)"
    and 0: "f (V n) = (0, 1)" and j: "j \<le> n"
  shows "ok (\<lambda>r. p2_point r (f (V j))) (ofold (\<lambda>i r. do { t \<leftarrow> S i r; ge_p1p1_to_p2 t }) (rev [j..<n]) ge_p2_0)"
  using j
proof (induction rule: inc_induct)
  case base
  then show ?case using neutral_points(1) 0 by (simp add: ok_def)
next
  case (step j)
  have "ok (\<lambda>r. p2_point r (f (V j))) (do { t \<leftarrow> S j r; ge_p1p1_to_p2 t })" if "p2_point r (f (V (Suc j)))" for r
    by (rule ok_bind [OF S [OF step.hyps(2) that]]) (rule ge_p1p1_to_p2_point)
  then show ?case unfolding rev_upt_step [OF step.hyps(2)] ofold_snoc by (intro ok_bind [OF step.IH])
qed

text \<open>The loops that write an extended result do so in their last turn.\<close>

lemma last_turn_loop:
  assumes "0 \<notin> set is"
  shows "ofold (\<lambda>i (r, r3). do { t \<leftarrow> S i r; last_turn i t (r, r3) }) is (r, None) =
    do { r \<leftarrow> ofold (\<lambda>i r. do { t \<leftarrow> S i r; ge_p1p1_to_p2 t }) is r; Some (r, None) }"
  using assms
proof (induction "is" arbitrary: r)
  case (Cons i "is")
  then show ?case by (cases "S i r") (auto simp: last_turn_def split: bind_splits)
qed simp

lemma down_loop_p3:
  assumes S: "\<And>i r. i < n \<Longrightarrow> p2_point r (f (V (Suc i))) \<Longrightarrow> ok (\<lambda>t. p1p1_point t (f (V i))) (S i r)"
    and 0: "f (V n) = (0, 1)" and n: "0 < n"
  shows "ok (\<lambda>r3. \<exists>r. r3 = Some r \<and> p3_point r (f (V 0)))
    (do { (r, r3) \<leftarrow> ofold (\<lambda>i (r, r3). do { t \<leftarrow> S i r; last_turn i t (r, r3) }) (rev [0..<n]) (ge_p2_0, None); Some r3 })"
proof -
  have "0 \<notin> set (rev [Suc 0..<n])" by simp
  note l = last_turn_loop [OF this, of S ge_p2_0]
  obtain r where r: "ofold (\<lambda>i r. do { t \<leftarrow> S i r; ge_p1p1_to_p2 t }) (rev [Suc 0..<n]) ge_p2_0 = Some r" "p2_point r (f (V (Suc 0)))"
    using down_loop [where S = S and n = n and f = f and V = V and j = "Suc 0", OF S 0] n by (auto simp: ok_def)
  obtain t where t: "S 0 r = Some t" "p1p1_point t (f (V 0))" using S [OF n r(2)] by (auto simp: ok_def)
  obtain r3 where "ge_p1p1_to_p3 t = Some r3" "p3_point r3 (f (V 0))" using ge_p1p1_to_p3_point [OF t(2)] by (auto simp: ok_def)
  then show ?thesis unfolding rev_upt_step [OF n] ofold_snoc l r(1) using t by (simp add: ok_def last_turn_def)
qed

lemma zs_twice: "zs v g + zs v g = zs (v + v) g"
  by (rule zs_add [symmetric])

lemma ge_scalarmult_step_ok:
  assumes f: "ed_hom f" and T: "\<forall>k < 8. cached_point (Ai ! k) (f (zs (int k + 1) g))" and d: "- 8 \<le> d" "d \<le> 8"
    and r: "p2_point r (f (zs v g))"
  shows "ok (\<lambda>t. p1p1_point t (f (zs (d + 16 * v) g))) (ge_scalarmult_step Ai d r)"
proof -
  have dbl: "ok (\<lambda>t. p1p1_point t (f (zs (v + v) g))) (ge_p2_dbl r)" if "p2_point r (f (zs v g))" for r v
    using hom_dbl [OF f that] unfolding zs_twice .
  have e: "zs (v + v + (v + v) + (v + v + (v + v)) + (v + v + (v + v) + (v + v + (v + v)))) g + zs d g = zs (d + 16 * v) g"
    unfolding zs_add [symmetric] by (rule arg_cong [where f = "\<lambda>x. zs x g"]) simp
  show ?thesis
    unfolding ge_scalarmult_step_def
    apply (rule ok_bind [OF dbl [OF r]])
    apply (rule to_binds, assumption, rule ok_bind [OF dbl], assumption)+
    apply (rule to_binds, assumption)
    apply (rule ok_bind [OF ge_cached_select_point [OF f T d]])
    unfolding e [symmetric] by (rule hom_add [OF f])
qed

lemma digits_drop: "i < length e \<Longrightarrow> digits_value (drop i e) = e ! i + 16 * digits_value (drop (Suc i) e)"
  by (simp flip: Cons_nth_drop_Suc)

lemma ge_scalarmult_ok:
  assumes f: "ed_hom f" and A: "p3_point A (f g)" and a: "length a = 32" "unat (a ! 31) \<le> 127"
  shows "ok (\<lambda>r. p2_point r (f (zs (int (le_nat a)) g))) (ge_scalarmult a A)"
    "ok (\<lambda>r3. \<exists>r. r3 = Some r \<and> p3_point r (f (zs (int (le_nat a)) g))) (ge_scalarmult_p3 a A)"
proof -
  obtain e where e: "recode a = Some e" "length e = 64" "digits_ok e" "digits_value e = int (le_nat a)" using recode_ok [OF a] by (auto simp: ok_def)
  obtain T where T: "ge_multiples A = Some T" "\<forall>k < 8. cached_point (T ! k) (f (zs (int k + 1) g))" using ge_multiples_ok [OF f A] by (auto simp: ok_def)
  define V where "V i = zs (digits_value (drop i e)) g" for i
  have S: "ok (\<lambda>t. p1p1_point t (f (V i))) (ge_scalarmult_step T (e ! i) r)" if "i < 64" "p2_point r (f (V (Suc i)))" for i r
  proof -
    have "- 8 \<le> e ! i" "e ! i \<le> 8" using e(2,3) that(1) by (auto simp: digits_ok_def)
    from ge_scalarmult_step_ok [OF f T(2) this that(2) [unfolded V_def]] show ?thesis unfolding V_def using that(1) e(2) by (simp add: digits_drop)
  qed
  have 0: "f (V 64) = (0, 1)" using e(2) ed_hom_dest(1) [OF f] by (simp add: V_def)
  have V0: "V 0 = zs (int (le_nat a)) g" by (simp add: V_def e(4))
  show "ok (\<lambda>r. p2_point r (f (zs (int (le_nat a)) g))) (ge_scalarmult a A)"
    using down_loop [where S = "\<lambda>i. ge_scalarmult_step T (e ! i)" and V = V and f = f and n = 64 and j = 0, OF S 0]
    unfolding ge_scalarmult_def e(1) T(1) bind.bind_lunit V0 by simp
  show "ok (\<lambda>r3. \<exists>r. r3 = Some r \<and> p3_point r (f (zs (int (le_nat a)) g))) (ge_scalarmult_p3 a A)"
    using down_loop_p3 [where S = "\<lambda>i. ge_scalarmult_step T (e ! i)" and V = V and f = f and n = 64, OF S 0]
    unfolding ge_scalarmult_p3_def e(1) T(1) bind.bind_lunit V0 by simp
qed

lemma ge_mul8_ok:
  assumes f: "ed_hom f" and t: "p2_point t (f (zs v g))"
  shows "ok (\<lambda>r. p1p1_point r (f (zs (8 * v) g))) (ge_mul8 t)"
proof -
  have dbl: "ok (\<lambda>t. p1p1_point t (f (zs (v + v) g))) (ge_p2_dbl r)" if "p2_point r (f (zs v g))" for r v
    using hom_dbl [OF f that] unfolding zs_twice .
  have e: "8 * v = v + v + (v + v) + (v + v + (v + v))" by simp
  show ?thesis
    unfolding ge_mul8_def e
    apply (rule ok_bind [OF dbl [OF t]])
    apply (rule to_binds, assumption, rule ok_bind [OF dbl], assumption)
    by (rule to_binds, assumption, rule dbl)
qed

section \<open>Multiples of the base point\<close>

lemma zs_mult: "zs (a * b) g = zs a (zs b g)"
proof (induction a rule: int_induct [where k = 0])
  case (step1 i)
  then show ?case by (simp only: distrib_right mult_1 zs_add [of "i * b"] zs_Suc)
next
  case (step2 i)
  then show ?case by (simp only: left_diff_distrib mult_1 zs_diff [of "i * b"] zs_pred)
qed simp

lemma digits_update: "i < length e \<Longrightarrow> digits_value (e[i := x]) = digits_value e + 16 ^ i * (x - e ! i)"
proof (induction e arbitrary: i)
  case (Cons d e)
  then show ?case by (cases i) (simp_all add: Cons.IH distrib_left)
qed simp

lemma nibble: "uint (drop_bit 0 w AND 15) = uint w mod 16" "uint (drop_bit 4 w AND 15) = uint w div 16" for w :: u8
proof -
  have m: "(15 :: u8) = mask 4" by (simp add: mask_eq_exp_minus_1)
  have t: "uint (take_bit 4 v) = uint v mod 16" for v :: u8
    unfolding uint_nat using unat_take_bit [of 4 v] by (simp only: zmod_int of_nat_numeral) simp
  have d: "uint (drop_bit 4 w) = uint w div 16"
    unfolding uint_nat using unat_drop_bit [of 4 w] by (simp only: zdiv_int of_nat_numeral) simp
  show "uint (drop_bit 0 w AND 15) = uint w mod 16" unfolding m take_bit_eq_mask [symmetric] t by simp
  have "uint w div 16 < 16" using uint_range_size [of w] by (simp add: word_size)
  moreover have "0 \<le> uint w div 16" by (simp add: pos_imp_zdiv_nonneg_iff)
  ultimately show "uint (drop_bit 4 w AND 15) = uint w div 16"
    unfolding m take_bit_eq_mask [symmetric] t d by (simp add: mod_pos_pos_trivial)
qed

lemma nibbles_value:
  "length (concat (map (\<lambda>ai. [uint (drop_bit 0 ai AND 15), uint (drop_bit 4 ai AND 15)]) a)) = 2 * length a"
  "digits_value (concat (map (\<lambda>ai. [uint (drop_bit 0 ai AND 15), uint (drop_bit 4 ai AND 15)]) a)) = int (le_nat a)" for a :: bytes
proof (induction a)
  case (Cons b a)
  have "uint b mod 16 + 16 * (uint b div 16) = uint b" by simp
  then show "digits_value (concat (map (\<lambda>ai. [uint (drop_bit 0 ai AND 15), uint (drop_bit 4 ai AND 15)]) (b # a))) = int (le_nat (b # a))"
    using Cons by (simp only: list.map concat.simps digits_value_append nibble digits_value_simps le_nat.simps) (simp add: algebra_simps)
qed simp_all

lemma nibbles_nth:
  "i < 2 * length a \<Longrightarrow> 0 \<le> concat (map (\<lambda>ai. [uint (drop_bit 0 ai AND 15), uint (drop_bit 4 ai AND 15)]) a) ! i \<and>
    concat (map (\<lambda>ai. [uint (drop_bit 0 ai AND 15), uint (drop_bit 4 ai AND 15)]) a) ! i =
    (if even i then uint (a ! (i div 2)) mod 16 else uint (a ! (i div 2)) div 16)" for a :: bytes
proof (induction a arbitrary: i)
  case (Cons b a)
  then show ?case
  proof (cases "i < 2")
    case True
    then show ?thesis by (auto simp: less_2_cases_iff nibble pos_imp_zdiv_nonneg_iff simp del: drop_bit_0)
  next
    case False
    then obtain j where "i = Suc (Suc j)" by (metis add_2_eq_Suc le_Suc_ex not_less)
    then show ?thesis using Cons.IH [of j] Cons.prems by simp
  qed
qed simp

lemma recode_base_fold:
  assumes l: "length N = 64" and b: "\<forall>i < 64. 0 \<le> N ! i \<and> N ! i \<le> 15"
  shows "n \<le> 63 \<Longrightarrow> \<exists>c e. ofold recode_base_step [0..<n] (0, N) = Some (c, e) \<and> length e = 64 \<and> 0 \<le> c \<and> c \<le> 1 \<and>
    (\<forall>i < n. - 8 \<le> e ! i \<and> e ! i \<le> 8) \<and> (\<forall>i < 64. n \<le> i \<longrightarrow> e ! i = N ! i) \<and> digits_value e + 16 ^ n * c = digits_value N"
proof (induction n)
  case (Suc n)
  then obtain c e where I: "ofold recode_base_step [0..<n] (0, N) = Some (c, e)" "length e = 64" "0 \<le> c" "c \<le> 1"
    "\<forall>i < n. - 8 \<le> e ! i \<and> e ! i \<le> 8" "\<forall>i < 64. n \<le> i \<longrightarrow> e ! i = N ! i" "digits_value e + 16 ^ n * c = digits_value N" by auto
  define x where "x = e ! n + c"
  define c' where "c' = (x + 8) div 2 ^ 4"
  have x: "0 \<le> x" "x \<le> 16" using I(3,4,6) b Suc.prems by (auto simp: x_def dest!: spec [of _ n])
  then have c': "0 \<le> c'" "c' \<le> 1" using carry_bound [of x 1] unfolding c'_def by simp_all
  have s: "recode_base_step n (c, e) = Some (c', e[n := x - c' * 2 ^ 4])"
    using Suc.prems I(2) by (simp add: recode_base_step_def Let_def x_def c'_def)
  have "digits_value (e[n := x - c' * 2 ^ 4]) + 16 ^ Suc n * c' = digits_value N"
    using I(2,7) Suc.prems by (simp add: digits_update x_def algebra_simps)
  moreover have "\<forall>i < Suc n. - 8 \<le> e[n := x - c' * 2 ^ 4] ! i \<and> e[n := x - c' * 2 ^ 4] ! i \<le> 8"
    using I(2,5) Suc.prems carry_digit [of x] by (auto simp: less_Suc_eq nth_list_update c'_def)
  ultimately show ?case using I(1,2,6) s c' by (simp add: ofold_upto_Suc nth_list_update del: upt_Suc)
qed (use l in simp)

lemma recode_base_ok:
  assumes a: "length a = 32" and lt: "unat (a ! 31) \<le> 127"
  shows "ok (\<lambda>e. length e = 64 \<and> digits_ok e \<and> digits_value e = int (le_nat a)) (recode_base a)"
proof -
  have t: "take 32 a = a" using a by simp
  have N: "length (nibbles a) = 64" "digits_value (nibbles a) = int (le_nat a)" unfolding nibbles_def t using nibbles_value [of a] a by simp_all
  have n: "0 \<le> nibbles a ! i" "nibbles a ! i = (if even i then uint (a ! (i div 2)) mod 16 else uint (a ! (i div 2)) div 16)" if "i < 64" for i
    unfolding nibbles_def t using nibbles_nth [of i a] a that by simp_all
  have b: "\<forall>i < 64. 0 \<le> nibbles a ! i \<and> nibbles a ! i \<le> 15"
  proof (intro allI impI conjI)
    fix i :: nat assume i: "i < 64"
    show "0 \<le> nibbles a ! i" by (rule n(1) [OF i])
    show "nibbles a ! i \<le> 15" unfolding n(2) [OF i] using uint_range_size [of "a ! (i div 2)"] by (auto simp: word_size)
  qed
  obtain c e where I: "ofold recode_base_step [0..<63] (0, nibbles a) = Some (c, e)" "length e = 64" "0 \<le> c" "c \<le> 1"
    "\<forall>i < 63. - 8 \<le> e ! i \<and> e ! i \<le> 8" "e ! 63 = nibbles a ! 63" "digits_value e + 16 ^ 63 * c = digits_value (nibbles a)"
    using recode_base_fold [OF N(1) b, of 63] by auto
  have "uint (a ! 31) \<le> 127" using lt by (metis of_nat_le_iff of_nat_numeral uint_nat)
  then have "0 \<le> e ! 63" "e ! 63 \<le> 7" unfolding I(6) using n(1) [of 63] by (simp_all add: n(2) [of 63])
  then have "digits_ok (e[63 := e ! 63 + c])" using I(2-5)
    by (auto simp: digits_ok_def in_set_conv_nth nth_list_update)
  moreover have "digits_value (e[63 := e ! 63 + c]) = int (le_nat a)" using I(2,7) N(2) by (simp add: digits_update)
  ultimately show ?thesis using I(1,2) by (simp add: recode_base_def ok_def)
qed

text \<open>Row \<open>pos\<close> of \<open>ge_base\<close> has the multiples \<open>1..8\<close> of \<open>256^pos\<close> times the base point.\<close>

definition base_table :: "('g :: ab_group_add \<Rightarrow> point) \<Rightarrow> 'g \<Rightarrow> ge_precomp list list \<Rightarrow> bool" where
  "base_table f g B \<longleftrightarrow> length B = 32 \<and> (\<forall>pos < 32. length (B ! pos) = 8 \<and> (\<forall>k < 8. precomp_point (B ! pos ! k) (f (zs ((int k + 1) * 256 ^ pos) g))))"

lemma ge_base_adds_ok:
  assumes f: "ed_hom f" and B: "base_table f g B" and e: "length e = 64" "digits_ok e"
  shows "\<forall>i \<in> set is. i < 64 \<Longrightarrow> p3_point h (f (zs v g)) \<Longrightarrow>
    ok (\<lambda>h. p3_point h (f (zs (v + (\<Sum>i\<leftarrow>is. e ! i * 256 ^ (i div 2))) g))) (ge_base_adds B e is h)"
proof (induction "is" arbitrary: h v)
  case Nil
  then show ?case by (simp add: ge_base_adds_def ok_def)
next
  case (Cons i "is")
  have i: "i < 64" "i div 2 < 32" using Cons.prems by auto
  have d: "- 8 \<le> e ! i" "e ! i \<le> 8" using e i by (auto simp: digits_ok_def)
  have r: "i div 2 < length B" "length (B ! (i div 2)) = 8" "\<forall>k < 8. precomp_point (B ! (i div 2) ! k) (f (zs (int k + 1) (zs (256 ^ (i div 2)) g)))"
    using B i(2) by (simp_all add: base_table_def zs_mult)
  have "zs v g + zs (e ! i) (zs (256 ^ (i div 2)) g) = zs (v + e ! i * 256 ^ (i div 2)) g" by (simp only: zs_add zs_mult)
  then have a: "ok (\<lambda>t. p1p1_point t (f (zs (v + e ! i * 256 ^ (i div 2)) g))) (ge_madd h q)"
    if "precomp_point q (f (zs (e ! i) (zs (256 ^ (i div 2)) g)))" for q using hom_madd [OF f Cons.prems(2) that] by simp
  have "ok (\<lambda>h. p3_point h (f (zs (v + e ! i * 256 ^ (i div 2)) g)))
      (do { t \<leftarrow> select B (i div 2) (e ! i); r \<leftarrow> ge_madd h t; ge_p1p1_to_p3 r })"
    by (rule ok_bind [OF select_point [OF f r d]], rule ok_bind [OF a], assumption, rule ge_p1p1_to_p3_point)
  then show ?case
    unfolding ge_base_adds_def ofold.simps sum_list.Cons list.map add.assoc [symmetric]
    by (rule ok_bind) (use Cons.IH [unfolded ge_base_adds_def] Cons.prems(1) in simp)
qed

lemma even_odd_digits:
  "length e = 2 * n \<Longrightarrow> digits_value e = 16 * (\<Sum>i\<leftarrow>filter odd [0..<2 * n]. e ! i * 256 ^ (i div 2)) + (\<Sum>i\<leftarrow>filter even [0..<2 * n]. e ! i * 256 ^ (i div 2))"
proof (induction n arbitrary: e)
  case (Suc n)
  let ?e = "take (2 * n) e"
  have s: "e = ?e @ [e ! (2 * n), e ! (2 * n + 1)]"
    using Suc.prems by (intro nth_equalityI) (auto simp: nth_append less_Suc_eq)
  have "digits_value e = digits_value ?e + 256 ^ n * (e ! (2 * n) + 16 * e ! (2 * n + 1))"
    by (subst s) (use Suc.prems in \<open>simp add: digits_value_append power_mult\<close>)
  moreover have "(\<Sum>i\<leftarrow>filter P [0..<2 * n]. ?e ! i * 256 ^ (i div 2)) = (\<Sum>i\<leftarrow>filter P [0..<2 * n]. e ! i * 256 ^ (i div 2))" for P
    by (rule arg_cong [where f = sum_list], rule map_cong) simp_all
  moreover have "[0..<2 * Suc n] = [0..<2 * n] @ [2 * n, 2 * n + 1]" by simp
  ultimately show ?case using Suc.IH [of ?e] Suc.prems by (simp add: algebra_simps)
qed simp

lemma ge_scalarmult_base_ok:
  assumes f: "ed_hom f" and B: "base_table f g B" and a: "length a = 32" "unat (a ! 31) \<le> 127"
  shows "ok (\<lambda>h. p3_point h (f (zs (int (le_nat a)) g))) (ge_scalarmult_base B a)"
proof -
  obtain e where e: "recode_base a = Some e" "length e = 64" "digits_ok e" "digits_value e = int (le_nat a)" using recode_base_ok [OF a] by (auto simp: ok_def)
  let ?o = "\<Sum>i\<leftarrow>filter odd [0..<64]. e ! i * 256 ^ (i div 2)" and ?e = "\<Sum>i\<leftarrow>filter even [0..<64]. e ! i * 256 ^ (i div 2)"
  have dbl: "ok (\<lambda>t. p1p1_point t (f (zs (v + v) g))) (ge_p2_dbl r)" if "p2_point r (f (zs v g))" for r v
    using hom_dbl [OF f that] unfolding zs_twice .
  have dbl3: "ok (\<lambda>t. p1p1_point t (f (zs (v + v) g))) (ge_p3_dbl r)" if "p3_point r (f (zs v g))" for r v
    using hom_p3_dbl [OF f that] unfolding zs_twice .
  have 0: "p3_point ge_p3_0 (f (zs 0 g))" using neutral_points(2) ed_hom_dest(1) [OF f] by simp
  have v: "int (le_nat a) = (0 + ?o + (0 + ?o) + (0 + ?o + (0 + ?o)) + (0 + ?o + (0 + ?o) + (0 + ?o + (0 + ?o))) + (0 + ?o + (0 + ?o) + (0 + ?o + (0 + ?o)) + (0 + ?o + (0 + ?o) + (0 + ?o + (0 + ?o))))) + ?e"
    using even_odd_digits [of e 32] e(2,4) by simp
  show ?thesis
    unfolding ge_scalarmult_base_def e(1) bind.bind_lunit
    apply (rule ok_bind [OF ge_base_adds_ok [OF f B e(2,3) _ 0]], simp)
    apply (rule ok_bind [OF dbl3], assumption)
    apply (rule to_binds, assumption, rule ok_bind [OF dbl], assumption)+
    apply (rule to_binds, assumption)
    unfolding v by (rule ge_base_adds_ok [OF f B e(2,3)]) simp_all
qed

section \<open>Sliding-window digits\<close>

definition bits_value :: "int list \<Rightarrow> int" where
  "bits_value r = (\<Sum>i < length r. r ! i * 2 ^ i)"

lemma bits_update: "j < length r \<Longrightarrow> bits_value (r[j := x]) = bits_value r + (x - r ! j) * 2 ^ j"
proof -
  assume j: "j < length r"
  have "bits_value (r[j := x]) = (\<Sum>i < length r. r ! i * 2 ^ i + (if i = j then (x - r ! j) * 2 ^ j else 0))"
    using j by (simp add: bits_value_def) (rule sum.cong, auto simp: nth_list_update algebra_simps)
  then show ?thesis using j by (simp add: sum.distrib bits_value_def)
qed

lemma digit_sum: "(\<Sum>i < n. (N div 2 ^ i mod 2) * 2 ^ i) = N mod 2 ^ n" for N :: nat
proof (induction n)
  case (Suc n)
  have "N mod 2 ^ Suc n = N mod 2 ^ n + 2 ^ n * (N div 2 ^ n mod 2)" using mod_mult2_eq [of N "2 ^ n" 2] by (simp add: ac_simps)
  then show ?case using Suc by (simp add: mult.commute)
qed simp

lemma le_nat_bit:
  assumes "i < 8 * length a"
  shows "uint (1 AND drop_bit (i mod 8) (a ! (i div 8))) = int (le_nat a div 2 ^ i mod 2)"
proof -
  let ?k = "i div 8" and ?j = "i mod 8"
  have k: "?k < length a" using assms by auto
  have d: "drop ?k a = a ! ?k # drop (Suc ?k) a" using k by (simp add: Cons_nth_drop_Suc)
  define m where "m = le_nat (drop (Suc ?k) a)"
  have "le_nat (take ?k a) < 256 ^ ?k" using le_nat_less [of "take ?k a"] k by simp
  then have "le_nat a div 256 ^ ?k = unat (a ! ?k) + 256 * m"
    using le_nat_split [of a ?k] k by (simp add: d m_def)
  moreover have "(2::nat) ^ i = 256 ^ ?k * 2 ^ ?j"
  proof -
    have "(2::nat) ^ i = 2 ^ (8 * ?k + ?j)" by simp
    then show ?thesis unfolding power_add power_mult by simp
  qed
  ultimately have "le_nat a div 2 ^ i = (unat (a ! ?k) + 256 * m) div 2 ^ ?j" by (simp add: div_mult2_eq)
  also have "256 * m = 2 ^ ?j * (2 ^ (8 - ?j) * m)"
  proof -
    have "(2::nat) ^ ?j * 2 ^ (8 - ?j) = 2 ^ 8" unfolding power_add [symmetric] by simp
    then show ?thesis by simp
  qed
  finally have "le_nat a div 2 ^ i = unat (a ! ?k) div 2 ^ ?j + 2 ^ (8 - ?j) * m" by simp
  moreover have "(2::nat) ^ (8 - ?j) = 2 * 2 ^ (7 - ?j)"
  proof -
    have "8 - ?j = Suc (7 - ?j)" by (simp add: Suc_diff_le less_Suc_eq_le [symmetric])
    then show ?thesis by simp
  qed
  ultimately have "le_nat a div 2 ^ i mod 2 = unat (a ! ?k) div 2 ^ ?j mod 2" by (simp add: mult.assoc)
  moreover have "uint (1 AND drop_bit ?j (a ! ?k)) = int (unat (a ! ?k) div 2 ^ ?j mod 2)"
    unfolding and.commute [of 1] low_bit unat_drop_bit by (simp add: zmod_int)
  ultimately show ?thesis by simp
qed

lemma slide_bits_ok:
  assumes "length a = 32"
  shows "\<exists>r. slide_bits a = Some r \<and> length r = 256 \<and> bits_value r = int (le_nat a) \<and> (\<forall>i < 256. r ! i = int (le_nat a div 2 ^ i mod 2))"
proof -
  let ?r = "map (\<lambda>i. uint (1 AND drop_bit (i mod 8) (a ! (i div 8)))) [0..<256]"
  have n: "?r ! i = int (le_nat a div 2 ^ i mod 2)" if "i < 256" for i using le_nat_bit [of i a] assms that by simp
  have "le_nat a < 2 ^ 256" using le_nat_less [of a] assms by simp
  then have "bits_value ?r = int (\<Sum>i < 256. (le_nat a div 2 ^ i mod 2) * 2 ^ i)" using n by (simp add: bits_value_def)
  then have "bits_value ?r = int (le_nat a)" unfolding digit_sum using \<open>le_nat a < 2 ^ 256\<close> by simp
  then show ?thesis using n assms by (simp add: slide_bits_def)
qed

lemma slide_carry_ok:
  assumes "length r = 256" "k \<le> 255" "r ! 255 = 0" "\<forall>j < 256. k \<le> j \<longrightarrow> r ! j \<in> {0, 1}"
  shows "length (slide_carry k r) = 256 \<and> (\<forall>j < k. slide_carry k r ! j = r ! j) \<and> (\<forall>j < 256. k \<le> j \<longrightarrow> slide_carry k r ! j \<in> {0, 1}) \<and>
    bits_value (slide_carry k r) = bits_value r + 2 ^ k \<and> (slide_carry k r ! 255 = 1 \<longrightarrow> (\<forall>j < 255. k \<le> j \<longrightarrow> slide_carry k r ! j = 0)) \<and>
    (r ! k \<noteq> 0 \<longrightarrow> slide_carry k r ! k = 0)"
  using assms(2,1,3,4)
proof (induction arbitrary: r rule: inc_induct)
  case base
  then have "slide_carry 255 r = r[255 := 1]" by (simp add: slide_carry.simps [of 255 r])
  then show ?case using base by (auto simp: bits_update nth_list_update)
next
  case (step k)
  show ?case
  proof (cases "r ! k = 0")
    case True
    then have "slide_carry k r = r[k := 1]" using step.hyps by (simp add: slide_carry.simps [of k r])
    then show ?thesis using True step by (auto simp: bits_update nth_list_update)
  next
    case False
    let ?r = "r[k := 0]"
    have 1: "r ! k = 1" using False step.prems(3) step.hyps by (auto dest!: spec [of _ k])
    have c: "slide_carry k r = slide_carry (Suc k) ?r" using False step.hyps by (simp add: slide_carry.simps [of k r])
    have "bits_value ?r = bits_value r - 2 ^ k" using step 1 by (simp add: bits_update)
    moreover have "\<forall>j < 256. Suc k \<le> j \<longrightarrow> ?r ! j \<in> {0, 1}" using step.prems(3) by (simp add: nth_list_update)
    moreover have "?r ! 255 = 0" using step by (simp add: nth_list_update)
    ultimately have v: "bits_value (slide_carry (Suc k) ?r) = bits_value ?r + 2 ^ Suc k" "bits_value ?r = bits_value r - 2 ^ k"
      and I: "length (slide_carry (Suc k) ?r) = 256" "\<forall>j < Suc k. slide_carry (Suc k) ?r ! j = ?r ! j" "\<forall>j < 256. Suc k \<le> j \<longrightarrow> slide_carry (Suc k) ?r ! j \<in> {0, 1}"
        "slide_carry (Suc k) ?r ! 255 = 1 \<longrightarrow> (\<forall>j < 255. Suc k \<le> j \<longrightarrow> slide_carry (Suc k) ?r ! j = 0)"
      using step.IH [of ?r] step.prems(1) by simp_all
    define r' where "r' = slide_carry (Suc k) ?r"
    note I = I [folded r'_def]
    have k: "r' ! k = 0" using I(2) step.prems(1) step.hyps by simp
    have "\<forall>j < k. r' ! j = r ! j" using I(2) by simp
    moreover have "\<forall>j < 256. k \<le> j \<longrightarrow> r' ! j \<in> {0, 1}" using I(3) k by (metis insertI1 le_neq_implies_less Suc_leI)
    moreover have "r' ! 255 = 1 \<longrightarrow> (\<forall>j < 255. k \<le> j \<longrightarrow> r' ! j = 0)" using I(4) k by (metis le_neq_implies_less Suc_leI)
    ultimately show ?thesis unfolding c using v I(1) k by (simp add: r'_def [symmetric])
  qed
qed

text \<open>The digits below \<open>i\<close> are final, those from \<open>i\<close> on still bits; a carry into the top bit leaves zeros below it.\<close>

definition slid :: "int \<Rightarrow> nat \<Rightarrow> int list \<Rightarrow> bool" where
  "slid V i r \<longleftrightarrow> length r = 256 \<and> bits_value r = V \<and> (\<forall>j < i. j < 256 \<longrightarrow> r ! j = 0 \<or> odd (r ! j) \<and> \<bar>r ! j\<bar> \<le> 15) \<and>
     (\<forall>j < 256. i \<le> j \<longrightarrow> r ! j \<in> {0, 1}) \<and> (r ! 255 = 1 \<longrightarrow> (\<forall>j < 255. i \<le> j \<longrightarrow> r ! j = 0))"

definition sliding :: "int \<Rightarrow> nat \<Rightarrow> nat \<Rightarrow> int list \<Rightarrow> bool" where
  "sliding V i b r \<longleftrightarrow> slid V (Suc i) r \<and> i < 256 \<and> 0 < b \<and> (\<forall>j < 256. i < j \<longrightarrow> j < i + b \<longrightarrow> r ! j = 0) \<and>
     odd (r ! i) \<and> (b \<le> 4 \<longrightarrow> 0 < r ! i \<and> r ! i < 2 ^ b \<and> (i < 255 \<longrightarrow> r ! 255 = 0))"

lemma sliding_absorb:
  assumes s: "sliding V i b r" and b: "b \<le> 3" "i + b < 256" "r ! (i + b) = 1"
  shows "sliding V i (Suc b) (r[i := r ! i + 2 ^ b, i + b := 0])" (is "sliding V i _ ?r")
proof -
  have l: "length r = 256" and V: "bits_value r = V" and 255: "r ! 255 = 0" and o: "odd (r ! i)" and p: "0 < r ! i" "r ! i < 2 ^ b" "0 < b"
    using s b by (auto simp: sliding_def slid_def)
  have v: "bits_value ?r = V" using l b p(3) V by (simp add: bits_update power_add)
  have "(2::int) ^ b \<le> 2 ^ 3" using b(1) by (intro power_increasing) simp_all
  then have i: "?r ! i = r ! i + 2 ^ b" "0 < r ! i + 2 ^ b" "r ! i + 2 ^ b < 2 ^ Suc b" "r ! i + 2 ^ b \<le> 15" "odd (r ! i + 2 ^ b)"
    using p o l b by (simp_all add: nth_list_update)
  have f: "\<forall>j < 256. j < i \<longrightarrow> ?r ! j = r ! j" "\<forall>j < 256. i < j \<longrightarrow> ?r ! j = (if j = i + b then 0 else r ! j)"
    using l b by (auto simp: nth_list_update)
  have t: "?r ! 255 = 0 \<or> i = 255" using f(2) 255 b by (cases "i < 255") auto
  have "slid V (Suc i) ?r" unfolding slid_def
  proof (intro conjI)
    show "\<forall>j < Suc i. j < 256 \<longrightarrow> ?r ! j = 0 \<or> odd (?r ! j) \<and> \<bar>?r ! j\<bar> \<le> 15"
      using s f(1) i by (auto simp: sliding_def slid_def less_Suc_eq)
    show "\<forall>j < 256. Suc i \<le> j \<longrightarrow> ?r ! j \<in> {0, 1}" using s f(2) by (auto simp: sliding_def slid_def)
    show "?r ! 255 = 1 \<longrightarrow> (\<forall>j < 255. Suc i \<le> j \<longrightarrow> ?r ! j = 0)" using t by auto
  qed (use l v in simp_all)
  moreover have "\<forall>j < 256. i < j \<longrightarrow> j < i + Suc b \<longrightarrow> ?r ! j = 0" using s f(2) by (auto simp: sliding_def less_Suc_eq)
  ultimately show ?thesis using i t b by (auto simp: sliding_def)
qed

lemma sliding_borrow:
  assumes s: "sliding V i 4 r" and b: "i + 4 < 256" "r ! (i + 4) = 1"
  shows "sliding V i 5 (slide_carry (i + 4) (r[i := r ! i - 16]))"
proof -
  let ?r = "r[i := r ! i - 16]"
  have l: "length r = 256" and V: "bits_value r = V" and 255: "r ! 255 = 0" and o: "odd (r ! i)" and p: "0 < r ! i" "r ! i < 16"
    using s b by (auto simp: sliding_def slid_def)
  have c: "length ?r = 256" "i + 4 \<le> 255" "?r ! 255 = 0" "\<forall>j < 256. i + 4 \<le> j \<longrightarrow> ?r ! j \<in> {0, 1}"
    using l b 255 s by (auto simp: sliding_def slid_def nth_list_update)
  define r' where "r' = slide_carry (i + 4) ?r"
  have R: "length r' = 256" "\<forall>j < i + 4. r' ! j = ?r ! j" "\<forall>j < 256. i + 4 \<le> j \<longrightarrow> r' ! j \<in> {0, 1}" "bits_value r' = bits_value ?r + 2 ^ (i + 4)"
    "r' ! 255 = 1 \<longrightarrow> (\<forall>j < 255. i + 4 \<le> j \<longrightarrow> r' ! j = 0)" "r' ! (i + 4) = 0"
    using slide_carry_ok [OF c] b l by (simp_all add: r'_def nth_list_update)
  have v: "bits_value r' = V" unfolding R(4) using l b V by (simp add: bits_update power_add)
  have i: "r' ! i = r ! i - 16" "odd (r ! i - 16)" "\<bar>r ! i - 16\<bar> \<le> 15" using R(2) l b o p by auto
  have z: "\<forall>j. i < j \<longrightarrow> j < i + 5 \<longrightarrow> r' ! j = 0"
  proof (intro allI impI)
    fix j assume j: "i < j" "j < i + 5"
    show "r' ! j = 0" using s R(2,6) j b by (cases "j = i + 4") (auto simp: sliding_def)
  qed
  have "slid V (Suc i) r'" unfolding slid_def
  proof (intro conjI)
    show "\<forall>j < Suc i. j < 256 \<longrightarrow> r' ! j = 0 \<or> odd (r' ! j) \<and> \<bar>r' ! j\<bar> \<le> 15"
      using s R(2) i by (auto simp: sliding_def slid_def less_Suc_eq)
    show "\<forall>j < 256. Suc i \<le> j \<longrightarrow> r' ! j \<in> {0, 1}"
    proof (intro allI impI)
      fix j assume j: "j < 256" "Suc i \<le> j"
      then show "r' ! j \<in> {0, 1}" using R(3) z by (cases "j < i + 5") simp_all
    qed
    show "r' ! 255 = 1 \<longrightarrow> (\<forall>j < 255. Suc i \<le> j \<longrightarrow> r' ! j = 0)"
    proof (intro allI impI)
      fix j assume j: "r' ! 255 = 1" "j < 255" "Suc i \<le> j"
      then show "r' ! j = 0" using R(5) z by (cases "j < i + 5") simp_all
    qed
  qed (use R v in simp_all)
  then show ?thesis unfolding r'_def [symmetric] sliding_def using z i b by auto
qed

lemma slide_inner_ok: "sliding V i b r \<Longrightarrow> slid V (Suc i) (slide_inner i b r)"
proof (induction i b r rule: slide_inner.induct)
  case (1 i b r)
  note s = "1.prems"
  have sl: "slid V (Suc i) r" using s by (simp add: sliding_def)
  show ?case
  proof (cases "b \<le> 6 \<and> i + b < 256")
    case False
    then have "slide_inner i b r = r" by (subst slide_inner.simps) (simp only: if_False)
    then show ?thesis using sl by simp
  next
    case b: True
    show ?thesis
    proof (cases "r ! (i + b) = 0")
      case True
      have "sliding V i (Suc b) r" using s True b unfolding sliding_def by (auto simp: less_Suc_eq intro: less_le_trans)
      then show ?thesis using "1.IH"(3) b True by (simp add: slide_inner.simps [of i b r])
    next
      case False
      then have one: "r ! (i + b) = 1" using sl b s by (auto simp: slid_def sliding_def)
      have pos: "0 < b" "b \<le> 4 \<Longrightarrow> 0 < r ! i \<and> r ! i < 2 ^ b" "\<bar>r ! i\<bar> \<le> 15" using s by (auto simp: sliding_def slid_def)
      consider "b \<le> 3" | "b = 4" | "5 \<le> b" by linarith
      then show ?thesis
      proof cases
        assume b3: "b \<le> 3"
        then have "r ! i + 2 ^ b \<le> 15" using pos(2) power_increasing [of b 3 "2::int"] by simp
        then show ?thesis using "1.IH"(1) sliding_absorb [OF s b3 _ one] b one by (simp add: slide_inner.simps [of i b r])
      next
        assume b4: "b = 4"
        then have "\<not> r ! i + 16 \<le> 15" "r ! i - 16 \<ge> - 15" using pos(2) by simp_all
        then show ?thesis using "1.IH"(2) sliding_borrow [of V i r] s b one unfolding b4 by (simp add: slide_inner.simps [of i 4 r])
      next
        assume "5 \<le> b"
        then have "(32::int) \<le> 2 ^ b" using power_increasing [of 5 b "2::int"] by simp
        then have "\<not> r ! i + 2 ^ b \<le> 15" "\<not> r ! i - 2 ^ b \<ge> - 15" using pos(3) by simp_all
        then show ?thesis using b one sl by (simp add: slide_inner.simps [of i b r])
      qed
    qed
  qed
qed

definition odd_digit :: "int \<Rightarrow> bool" where
  "odd_digit d \<longleftrightarrow> d = 0 \<or> odd d \<and> \<bar>d\<bar> \<le> 15"

lemma slide_turn:
  assumes s: "slid V n r" and n: "n < 256"
  shows "slid V (Suc n) (if r ! n \<noteq> 0 then slide_inner n 1 r else r)"
proof -
  have r: "r ! n \<in> {0, 1}" using s n by (simp add: slid_def)
  then have S: "slid V (Suc n) r" using s by (auto simp: slid_def less_Suc_eq)
  show ?thesis
  proof (cases "r ! n = 0")
    case False
    then have "r ! n = 1" using r by simp
    moreover have "n < 255 \<longrightarrow> r ! 255 = 0" using s False n unfolding slid_def by (metis insertE less_imp_le numeral_less_iff order_refl semiring_norm(76) semiring_norm(81) singletonD)
    ultimately have "sliding V n 1 r" using n S by (simp add: sliding_def)
    from slide_inner_ok [OF this] show ?thesis using False by simp
  qed (use S in simp)
qed

lemma slide_fold: "slid V 0 r \<Longrightarrow> n \<le> 256 \<Longrightarrow> slid V n (fold (\<lambda>i r. if r ! i \<noteq> 0 then slide_inner i 1 r else r) [0..<n] r)"
proof (induction n)
  case (Suc n)
  then show ?case using slide_turn [of V n] by simp
qed simp

lemma slide_ok:
  assumes a: "length a = 32" and lt: "unat (a ! 31) \<le> 127"
  shows "ok (\<lambda>r. length r = 256 \<and> bits_value r = int (le_nat a) \<and> (\<forall>i < 256. odd_digit (r ! i))) (slide a)"
proof -
  obtain r where r: "slide_bits a = Some r" "length r = 256" "bits_value r = int (le_nat a)" "\<forall>i < 256. r ! i = int (le_nat a div 2 ^ i mod 2)"
    using slide_bits_ok [OF a] by blast
  have "le_nat a < 2 ^ 255"
    using bit255 [OF a] lt unfolding unat_drop_bit by (simp add: div_less)
  then have "slid (int (le_nat a)) 0 r" unfolding slid_def using r by auto
  from slide_fold [OF this, of 256] show ?thesis using r(1) by (auto simp: slide_def ok_def slid_def odd_digit_def)
qed

text \<open>The value of the digits from \<open>i\<close> on.\<close>

definition bits_from :: "int list \<Rightarrow> nat \<Rightarrow> int" where
  "bits_from r i = foldr (\<lambda>d v. d + 2 * v) (drop i r) 0"

lemma bits_from_step: "i < length r \<Longrightarrow> bits_from r i = r ! i + 2 * bits_from r (Suc i)"
  by (simp add: bits_from_def flip: Cons_nth_drop_Suc)

lemma bits_from_0: "bits_from r 0 = bits_value r"
proof (induction r)
  case (Cons d r)
  then show ?case by (simp add: bits_from_def bits_value_def sum.lessThan_Suc_shift sum_distrib_left ac_simps del: sum.lessThan_Suc)
qed (simp add: bits_from_def bits_value_def)

lemma bits_from_top: "\<forall>j < length r. i \<le> j \<longrightarrow> r ! j = 0 \<Longrightarrow> bits_from r i = 0"
proof -
  assume z: "\<forall>j < length r. i \<le> j \<longrightarrow> r ! j = 0"
  have "foldr (\<lambda>d v. d + 2 * v) ds 0 = (0::int)" if "\<forall>d \<in> set ds. d = 0" for ds using that by (induction ds) auto
  moreover have "\<forall>d \<in> set (drop i r). d = 0" using z by (auto simp: in_set_conv_nth)
  ultimately show ?thesis by (simp add: bits_from_def)
qed

lemma from_top_eq: "\<exists>n \<le> 256. from_top nz = rev [0..<n] \<and> (\<forall>i < 256. n \<le> i \<longrightarrow> \<not> nz i) \<and> (0 < n \<longrightarrow> nz (n - 1))"
proof -
  have "\<exists>n \<le> m. dropWhile (\<lambda>i. \<not> nz i) (rev [0..<m]) = rev [0..<n] \<and> (\<forall>i < m. n \<le> i \<longrightarrow> \<not> nz i) \<and> (0 < n \<longrightarrow> nz (n - 1))" for m
  proof (induction m)
    case (Suc m)
    show ?case
    proof (cases "nz m")
      case True
      then show ?thesis by (intro exI [of _ "Suc m"]) auto
    next
      case False
      from Suc obtain n where "n \<le> m" "dropWhile (\<lambda>i. \<not> nz i) (rev [0..<m]) = rev [0..<n]" "\<forall>i < m. n \<le> i \<longrightarrow> \<not> nz i" "0 < n \<longrightarrow> nz (n - 1)" by blast
      then show ?thesis using False by (intro exI [of _ n]) (auto simp: less_Suc_eq)
    qed
  qed simp
  then show ?thesis by (simp add: from_top_def)
qed

section \<open>Sums of multiples\<close>

definition dsm_table :: "('g :: ab_group_add \<Rightarrow> point) \<Rightarrow> 'g \<Rightarrow> ge_dsmp \<Rightarrow> bool" where
  "dsm_table f g T \<longleftrightarrow> length T = 8 \<and> (\<forall>k < 8. cached_point (T ! k) (f (zs (2 * int k + 1) g)))"

definition bi_table :: "('g :: ab_group_add \<Rightarrow> point) \<Rightarrow> 'g \<Rightarrow> ge_precomp list \<Rightarrow> bool" where
  "bi_table f g T \<longleftrightarrow> length T = 8 \<and> (\<forall>k < 8. precomp_point (T ! k) (f (zs (2 * int k + 1) g)))"

lemma odd_half: "odd_digit d \<Longrightarrow> 0 < d \<Longrightarrow> nat (d div 2) < 8 \<and> 2 * int (nat (d div 2)) + 1 = d"
  unfolding odd_digit_def by (auto elim!: oddE)

lemma add_cached_ok:
  assumes f: "ed_hom f" and T: "dsm_table f g T" and d: "odd_digit d" and t: "p1p1_point t (f x)"
  shows "ok (\<lambda>t. p1p1_point t (f (x + zs d g))) (add_cached d T t)"
proof -
  have q: "vec_at T (nat (e div 2)) = Some (T ! nat (e div 2)) \<and> cached_point (T ! nat (e div 2)) (f (zs e g))" if "odd_digit e" "0 < e" for e
    using odd_half [OF that] T by (metis dsm_table_def vec_at_Some)
  consider "0 < d" | "d = 0" | "d < 0" by linarith
  then show ?thesis
  proof cases
    case 1
    then show ?thesis using q [OF d] by (auto simp: add_cached_def intro!: to_p3_bind [OF t] hom_add [OF f])
  next
    case 2
    then show ?thesis using t by (simp add: add_cached_def ok_def)
  next
    case 3
    then have "odd_digit (- d)" "0 < - d" using d by (auto simp: odd_digit_def)
    from q [OF this] have "vec_at T (nat ((- d) div 2)) = Some (T ! nat ((- d) div 2))" "cached_point (T ! nat ((- d) div 2)) (f (zs (- d) g))" by blast+
    then show ?thesis using 3 hom_sub [OF f, of _ x _ "zs (- d) g"] by (auto simp: add_cached_def zs_minus intro!: to_p3_bind [OF t])
  qed
qed

lemma add_precomp_ok:
  assumes f: "ed_hom f" and T: "bi_table f g T" and d: "odd_digit d" and t: "p1p1_point t (f x)"
  shows "ok (\<lambda>t. p1p1_point t (f (x + zs d g))) (add_precomp d T t)"
proof -
  have q: "vec_at T (nat (e div 2)) = Some (T ! nat (e div 2)) \<and> precomp_point (T ! nat (e div 2)) (f (zs e g))" if "odd_digit e" "0 < e" for e
    using odd_half [OF that] T by (metis bi_table_def vec_at_Some)
  consider "0 < d" | "d = 0" | "d < 0" by linarith
  then show ?thesis
  proof cases
    case 1
    then show ?thesis using q [OF d] by (auto simp: add_precomp_def intro!: to_p3_bind [OF t] hom_madd [OF f])
  next
    case 2
    then show ?thesis using t by (simp add: add_precomp_def ok_def)
  next
    case 3
    then have "odd_digit (- d)" "0 < - d" using d by (auto simp: odd_digit_def)
    from q [OF this] have "vec_at T (nat ((- d) div 2)) = Some (T ! nat ((- d) div 2))" "precomp_point (T ! nat ((- d) div 2)) (f (zs (- d) g))" by blast+
    then show ?thesis using 3 hom_msub [OF f, of _ x _ "zs (- d) g"] by (auto simp: add_precomp_def zs_minus intro!: to_p3_bind [OF t])
  qed
qed

text \<open>A turn of the loops doubles the accumulator and adds a digit of each scalar.\<close>

lemma turn_value:
  assumes "i < length r"
  shows "zs (bits_from r (Suc i)) g + zs (bits_from r (Suc i)) g + zs (r ! i) g = zs (bits_from r i) g"
proof -
  have "bits_from r i = bits_from r (Suc i) + bits_from r (Suc i) + r ! i" using bits_from_step [OF assms] by simp
  then show ?thesis by (simp only: zs_add)
qed

lemma double_turn:
  assumes f: "ed_hom f" and A: "\<And>d t x. odd_digit d \<Longrightarrow> p1p1_point t (f x) \<Longrightarrow> ok (\<lambda>t. p1p1_point t (f (x + zs d g))) (FA d t)"
    and B: "\<And>d t x. odd_digit d \<Longrightarrow> p1p1_point t (f x) \<Longrightarrow> ok (\<lambda>t. p1p1_point t (f (x + zs d h))) (FB d t)"
    and a: "i < length as" "odd_digit (as ! i)" and b: "i < length bs" "odd_digit (bs ! i)"
    and r: "p2_point r (f (zs (bits_from as (Suc i)) g + zs (bits_from bs (Suc i)) h))"
  shows "ok (\<lambda>t. p1p1_point t (f (zs (bits_from as i) g + zs (bits_from bs i) h)))
    (do { t \<leftarrow> ge_p2_dbl r; t \<leftarrow> FA (as ! i) t; FB (bs ! i) t })"
proof -
  let ?x = "zs (bits_from as (Suc i)) g" and ?y = "zs (bits_from bs (Suc i)) h"
  have "?x + ?y + (?x + ?y) + zs (as ! i) g + zs (bs ! i) h = (?x + ?x + zs (as ! i) g) + (?y + ?y + zs (bs ! i) h)" by (simp add: ac_simps)
  then have e: "?x + ?y + (?x + ?y) + zs (as ! i) g + zs (bs ! i) h = zs (bits_from as i) g + zs (bits_from bs i) h"
    unfolding turn_value [OF a(1)] turn_value [OF b(1)] .
  show ?thesis
    apply (rule ok_bind [OF hom_dbl [OF f r]])
    apply (rule ok_bind [OF A [OF a(2)]], assumption)
    unfolding e [symmetric] by (rule B [OF b(2)])
qed

lemma triple_turn:
  assumes f: "ed_hom f" and A: "\<And>d t x. odd_digit d \<Longrightarrow> p1p1_point t (f x) \<Longrightarrow> ok (\<lambda>t. p1p1_point t (f (x + zs d g))) (FA d t)"
    and B: "\<And>d t x. odd_digit d \<Longrightarrow> p1p1_point t (f x) \<Longrightarrow> ok (\<lambda>t. p1p1_point t (f (x + zs d h))) (FB d t)"
    and C: "\<And>d t x. odd_digit d \<Longrightarrow> p1p1_point t (f x) \<Longrightarrow> ok (\<lambda>t. p1p1_point t (f (x + zs d k))) (FC d t)"
    and a: "i < length as" "odd_digit (as ! i)" and b: "i < length bs" "odd_digit (bs ! i)" and c: "i < length cs" "odd_digit (cs ! i)"
    and r: "p2_point r (f (zs (bits_from as (Suc i)) g + zs (bits_from bs (Suc i)) h + zs (bits_from cs (Suc i)) k))"
  shows "ok (\<lambda>t. p1p1_point t (f (zs (bits_from as i) g + zs (bits_from bs i) h + zs (bits_from cs i) k)))
    (do { t \<leftarrow> ge_p2_dbl r; t \<leftarrow> FA (as ! i) t; t \<leftarrow> FB (bs ! i) t; FC (cs ! i) t })"
proof -
  let ?x = "zs (bits_from as (Suc i)) g" and ?y = "zs (bits_from bs (Suc i)) h" and ?z = "zs (bits_from cs (Suc i)) k"
  have "?x + ?y + ?z + (?x + ?y + ?z) + zs (as ! i) g + zs (bs ! i) h + zs (cs ! i) k
      = (?x + ?x + zs (as ! i) g) + (?y + ?y + zs (bs ! i) h) + (?z + ?z + zs (cs ! i) k)" by (simp add: ac_simps)
  then have e: "?x + ?y + ?z + (?x + ?y + ?z) + zs (as ! i) g + zs (bs ! i) h + zs (cs ! i) k = zs (bits_from as i) g + zs (bits_from bs i) h + zs (bits_from cs i) k"
    unfolding turn_value [OF a(1)] turn_value [OF b(1)] turn_value [OF c(1)] .
  show ?thesis
    apply (rule ok_bind [OF hom_dbl [OF f r]])
    apply (rule ok_bind [OF A [OF a(2)]], assumption)
    apply (rule ok_bind [OF B [OF b(2)]], assumption)
    unfolding e [symmetric] by (rule C [OF c(2)])
qed

lemma double_loop:
  assumes f: "ed_hom f" and A: "\<And>d t x. odd_digit d \<Longrightarrow> p1p1_point t (f x) \<Longrightarrow> ok (\<lambda>t. p1p1_point t (f (x + zs d g))) (FA d t)"
    and B: "\<And>d t x. odd_digit d \<Longrightarrow> p1p1_point t (f x) \<Longrightarrow> ok (\<lambda>t. p1p1_point t (f (x + zs d h))) (FB d t)"
    and a: "length as = 256" "\<forall>i < 256. odd_digit (as ! i)" and b: "length bs = 256" "\<forall>i < 256. odd_digit (bs ! i)"
  shows "ok (\<lambda>r. p2_point r (f (zs (bits_value as) g + zs (bits_value bs) h)))
      (ofold (\<lambda>i r. do { t \<leftarrow> ge_p2_dbl r; t \<leftarrow> FA (as ! i) t; t \<leftarrow> FB (bs ! i) t; ge_p1p1_to_p2 t })
        (from_top (\<lambda>i. as ! i \<noteq> 0 \<or> bs ! i \<noteq> 0)) ge_p2_0)" (is ?p2)
    "ok (\<lambda>r3. if bits_value as = 0 \<and> bits_value bs = 0 \<and> r3 = None then True else \<exists>r. r3 = Some r \<and> p3_point r (f (zs (bits_value as) g + zs (bits_value bs) h)))
      (do { (r, r3) \<leftarrow> ofold (\<lambda>i (r, r3). do { t \<leftarrow> ge_p2_dbl r; t \<leftarrow> FA (as ! i) t; t \<leftarrow> FB (bs ! i) t; last_turn i t (r, r3) })
        (from_top (\<lambda>i. as ! i \<noteq> 0 \<or> bs ! i \<noteq> 0)) (ge_p2_0, None); Some r3 })" (is ?p3)
proof -
  obtain n where n: "n \<le> 256" "from_top (\<lambda>i. as ! i \<noteq> 0 \<or> bs ! i \<noteq> 0) = rev [0..<n]" "\<forall>i < 256. n \<le> i \<longrightarrow> \<not> (as ! i \<noteq> 0 \<or> bs ! i \<noteq> 0)"
    using from_top_eq [of "\<lambda>i. as ! i \<noteq> 0 \<or> bs ! i \<noteq> 0"] by blast
  define V where "V i = zs (bits_from as i) g + zs (bits_from bs i) h" for i
  define S where "S i r = do { t \<leftarrow> ge_p2_dbl r; t \<leftarrow> FA (as ! i) t; FB (bs ! i) t }" for i r
  have St: "ok (\<lambda>t. p1p1_point t (f (V i))) (S i r)" if "i < n" "p2_point r (f (V (Suc i)))" for i r
    unfolding S_def V_def using that n(1) a b by (intro double_turn [where FA = FA and FB = FB, OF f A B]) (auto simp: V_def)
  have "bits_from as n = 0" "bits_from bs n = 0" using n(3) a(1) b(1) by (auto intro!: bits_from_top)
  then have 0: "f (V n) = (0, 1)" by (simp add: V_def ed_hom_dest(1) [OF f])
  have V0: "V 0 = zs (bits_value as) g + zs (bits_value bs) h" by (simp add: V_def bits_from_0)
  have e: "do { t \<leftarrow> ge_p2_dbl r; t \<leftarrow> FA (as ! i) t; t \<leftarrow> FB (bs ! i) t; F t } = do { t \<leftarrow> S i r; F t }" for i r and F :: "ge_p1p1 \<Rightarrow> 'z option"
    unfolding S_def by (simp add: bind_assoc)
  show ?p2 using down_loop [where S = S and V = V and n = n and f = f and j = 0, OF St 0] unfolding e n(2) V0 by simp
  show ?p3
  proof (cases "n = 0")
    case True
    then have "bits_value as = 0" "bits_value bs = 0" using \<open>bits_from as n = 0\<close> \<open>bits_from bs n = 0\<close> by (simp_all add: bits_from_0)
    then show ?thesis unfolding n(2) using True by (simp add: ok_def)
  next
    case False
    show ?thesis unfolding e n(2) by (rule ok_mono [OF down_loop_p3 [where S = S and V = V and n = n and f = f, OF St 0]]) (use False V0 in auto)
  qed
qed

lemma triple_loop:
  assumes f: "ed_hom f" and A: "\<And>d t x. odd_digit d \<Longrightarrow> p1p1_point t (f x) \<Longrightarrow> ok (\<lambda>t. p1p1_point t (f (x + zs d g))) (FA d t)"
    and B: "\<And>d t x. odd_digit d \<Longrightarrow> p1p1_point t (f x) \<Longrightarrow> ok (\<lambda>t. p1p1_point t (f (x + zs d h))) (FB d t)"
    and C: "\<And>d t x. odd_digit d \<Longrightarrow> p1p1_point t (f x) \<Longrightarrow> ok (\<lambda>t. p1p1_point t (f (x + zs d k))) (FC d t)"
    and a: "length as = 256" "\<forall>i < 256. odd_digit (as ! i)" and b: "length bs = 256" "\<forall>i < 256. odd_digit (bs ! i)"
    and c: "length cs = 256" "\<forall>i < 256. odd_digit (cs ! i)"
  shows "ok (\<lambda>r. p2_point r (f (zs (bits_value as) g + zs (bits_value bs) h + zs (bits_value cs) k)))
      (ofold (\<lambda>i r. do { t \<leftarrow> ge_p2_dbl r; t \<leftarrow> FA (as ! i) t; t \<leftarrow> FB (bs ! i) t; t \<leftarrow> FC (cs ! i) t; ge_p1p1_to_p2 t })
        (from_top (\<lambda>i. as ! i \<noteq> 0 \<or> bs ! i \<noteq> 0 \<or> cs ! i \<noteq> 0)) ge_p2_0)"
proof -
  obtain n where n: "n \<le> 256" "from_top (\<lambda>i. as ! i \<noteq> 0 \<or> bs ! i \<noteq> 0 \<or> cs ! i \<noteq> 0) = rev [0..<n]"
    "\<forall>i < 256. n \<le> i \<longrightarrow> \<not> (as ! i \<noteq> 0 \<or> bs ! i \<noteq> 0 \<or> cs ! i \<noteq> 0)"
    using from_top_eq [of "\<lambda>i. as ! i \<noteq> 0 \<or> bs ! i \<noteq> 0 \<or> cs ! i \<noteq> 0"] by blast
  define V where "V i = zs (bits_from as i) g + zs (bits_from bs i) h + zs (bits_from cs i) k" for i
  define S where "S i r = do { t \<leftarrow> ge_p2_dbl r; t \<leftarrow> FA (as ! i) t; t \<leftarrow> FB (bs ! i) t; FC (cs ! i) t }" for i r
  have St: "ok (\<lambda>t. p1p1_point t (f (V i))) (S i r)" if "i < n" "p2_point r (f (V (Suc i)))" for i r
    unfolding S_def V_def using that n(1) a b c by (intro triple_turn [where FA = FA and FB = FB and FC = FC, OF f A B C]) (auto simp: V_def)
  have "bits_from as n = 0" "bits_from bs n = 0" "bits_from cs n = 0" using n(3) a(1) b(1) c(1) by (auto intro!: bits_from_top)
  then have 0: "f (V n) = (0, 1)" by (simp add: V_def ed_hom_dest(1) [OF f])
  have e: "do { t \<leftarrow> ge_p2_dbl r; t \<leftarrow> FA (as ! i) t; t \<leftarrow> FB (bs ! i) t; t \<leftarrow> FC (cs ! i) t; F t } = do { t \<leftarrow> S i r; F t }" for i r and F :: "ge_p1p1 \<Rightarrow> 'z option"
    unfolding S_def by (simp add: bind_assoc)
  show ?thesis using down_loop [where S = S and V = V and n = n and f = f and j = 0, OF St 0] unfolding e n(2) by (simp add: V_def bits_from_0)
qed

definition scalar_ok :: "bytes \<Rightarrow> bool" where
  "scalar_ok a \<longleftrightarrow> length a = 32 \<and> unat (a ! 31) \<le> 127"

lemma slide_obtain:
  assumes "scalar_ok a"
  obtains r where "slide a = Some r" "length r = 256" "bits_value r = int (le_nat a)" "\<forall>i < 256. odd_digit (r ! i)"
  using assms slide_ok [of a] by (auto simp: scalar_ok_def ok_def)

lemma double_precomp_ok:
  assumes f: "ed_hom f" and A: "dsm_table f g Ai" and B: "dsm_table f h Bi" and a: "scalar_ok a" and b: "scalar_ok b"
  shows "ok (\<lambda>r. p2_point r (f (zs (int (le_nat a)) g + zs (int (le_nat b)) h))) (ge_double_scalarmult_precomp_vartime2 a Ai b Bi)"
    "ok (\<lambda>r3. if int (le_nat a) = 0 \<and> int (le_nat b) = 0 \<and> r3 = None then True else \<exists>r. r3 = Some r \<and> p3_point r (f (zs (int (le_nat a)) g + zs (int (le_nat b)) h)))
      (ge_double_scalarmult_precomp_vartime2_p3 a Ai b Bi)"
proof -
  obtain as where as: "slide a = Some as" "length as = 256" "bits_value as = int (le_nat a)" "\<forall>i < 256. odd_digit (as ! i)" using a by (rule slide_obtain)
  obtain bs where bs: "slide b = Some bs" "length bs = 256" "bits_value bs = int (le_nat b)" "\<forall>i < 256. odd_digit (bs ! i)" using b by (rule slide_obtain)
  note L = double_loop [where FA = "\<lambda>d. add_cached d Ai" and FB = "\<lambda>d. add_cached d Bi", OF f add_cached_ok [OF f A] add_cached_ok [OF f B] as(2,4) bs(2,4), unfolded as(3) bs(3)]
  show "ok (\<lambda>r. p2_point r (f (zs (int (le_nat a)) g + zs (int (le_nat b)) h))) (ge_double_scalarmult_precomp_vartime2 a Ai b Bi)"
    unfolding ge_double_scalarmult_precomp_vartime2_def as(1) bs(1) bind.bind_lunit by (rule L(1))
  show "ok (\<lambda>r3. if int (le_nat a) = 0 \<and> int (le_nat b) = 0 \<and> r3 = None then True else \<exists>r. r3 = Some r \<and> p3_point r (f (zs (int (le_nat a)) g + zs (int (le_nat b)) h)))
      (ge_double_scalarmult_precomp_vartime2_p3 a Ai b Bi)"
    unfolding ge_double_scalarmult_precomp_vartime2_p3_def as(1) bs(1) bind.bind_lunit by (rule L(2))
qed

lemma dsm_precomp_table: "ed_hom f \<Longrightarrow> p3_point A (f g) \<Longrightarrow> ok (dsm_table f g) (ge_dsm_precomp A)"
  by (rule ok_mono [OF ge_dsm_precomp_ok]) (auto simp: dsm_table_def)

lemma double_base_ok:
  assumes f: "ed_hom f" and A: "p3_point A (f g)" and B: "bi_table f h Bi" and a: "scalar_ok a" and b: "scalar_ok b"
  shows "ok (\<lambda>r. p2_point r (f (zs (int (le_nat a)) g + zs (int (le_nat b)) h))) (ge_double_scalarmult_base_vartime Bi a A b)"
    "ok (\<lambda>r3. if int (le_nat a) = 0 \<and> int (le_nat b) = 0 \<and> r3 = None then True else \<exists>r. r3 = Some r \<and> p3_point r (f (zs (int (le_nat a)) g + zs (int (le_nat b)) h)))
      (ge_double_scalarmult_base_vartime_p3 Bi a A b)"
proof -
  obtain as where as: "slide a = Some as" "length as = 256" "bits_value as = int (le_nat a)" "\<forall>i < 256. odd_digit (as ! i)" using a by (rule slide_obtain)
  obtain bs where bs: "slide b = Some bs" "length bs = 256" "bits_value bs = int (le_nat b)" "\<forall>i < 256. odd_digit (bs ! i)" using b by (rule slide_obtain)
  obtain Ai where Ai: "ge_dsm_precomp A = Some Ai" "dsm_table f g Ai" using dsm_precomp_table [OF f A] by (auto simp: ok_def)
  note L = double_loop [where FA = "\<lambda>d. add_cached d Ai" and FB = "\<lambda>d. add_precomp d Bi", OF f add_cached_ok [OF f Ai(2)] add_precomp_ok [OF f B] as(2,4) bs(2,4), unfolded as(3) bs(3)]
  show "ok (\<lambda>r. p2_point r (f (zs (int (le_nat a)) g + zs (int (le_nat b)) h))) (ge_double_scalarmult_base_vartime Bi a A b)"
    unfolding ge_double_scalarmult_base_vartime_def as(1) bs(1) Ai(1) bind.bind_lunit by (rule L(1))
  show "ok (\<lambda>r3. if int (le_nat a) = 0 \<and> int (le_nat b) = 0 \<and> r3 = None then True else \<exists>r. r3 = Some r \<and> p3_point r (f (zs (int (le_nat a)) g + zs (int (le_nat b)) h)))
      (ge_double_scalarmult_base_vartime_p3 Bi a A b)"
    unfolding ge_double_scalarmult_base_vartime_p3_def as(1) bs(1) Ai(1) bind.bind_lunit by (rule L(2))
qed

lemma triple_ok:
  assumes f: "ed_hom f" and A: "dsm_table f g Ai" and A': "bi_table f g Gi" and B: "dsm_table f h Bi" and C: "dsm_table f k Ci"
    and a: "scalar_ok a" and b: "scalar_ok b" and c: "scalar_ok c"
  shows "ok (\<lambda>r. p2_point r (f (zs (int (le_nat a)) g + zs (int (le_nat b)) h + zs (int (le_nat c)) k))) (ge_triple_scalarmult_precomp_vartime a Ai b Bi c Ci)"
    "ok (\<lambda>r. p2_point r (f (zs (int (le_nat a)) g + zs (int (le_nat b)) h + zs (int (le_nat c)) k))) (ge_triple_scalarmult_base_vartime Gi a b Bi c Ci)"
proof -
  obtain as where as: "slide a = Some as" "length as = 256" "bits_value as = int (le_nat a)" "\<forall>i < 256. odd_digit (as ! i)" using a by (rule slide_obtain)
  obtain bs where bs: "slide b = Some bs" "length bs = 256" "bits_value bs = int (le_nat b)" "\<forall>i < 256. odd_digit (bs ! i)" using b by (rule slide_obtain)
  obtain cs where cs: "slide c = Some cs" "length cs = 256" "bits_value cs = int (le_nat c)" "\<forall>i < 256. odd_digit (cs ! i)" using c by (rule slide_obtain)
  note L = triple_loop [where FB = "\<lambda>d. add_cached d Bi" and FC = "\<lambda>d. add_cached d Ci", OF f _ add_cached_ok [OF f B] add_cached_ok [OF f C] as(2,4) bs(2,4) cs(2,4), unfolded as(3) bs(3) cs(3)]
  show "ok (\<lambda>r. p2_point r (f (zs (int (le_nat a)) g + zs (int (le_nat b)) h + zs (int (le_nat c)) k))) (ge_triple_scalarmult_precomp_vartime a Ai b Bi c Ci)"
    unfolding ge_triple_scalarmult_precomp_vartime_def as(1) bs(1) cs(1) bind.bind_lunit by (rule L [OF add_cached_ok [OF f A]])
  show "ok (\<lambda>r. p2_point r (f (zs (int (le_nat a)) g + zs (int (le_nat b)) h + zs (int (le_nat c)) k))) (ge_triple_scalarmult_base_vartime Gi a b Bi c Ci)"
    unfolding ge_triple_scalarmult_base_vartime_def as(1) bs(1) cs(1) bind.bind_lunit by (rule L [OF add_precomp_ok [OF f A']])
qed

lemma slide_zero: "slide (replicate 32 0) = Some (replicate 256 0)"
proof -
  have "fold (\<lambda>i r. if r ! i \<noteq> 0 then slide_inner i 1 r else r) is (replicate 256 0) = replicate 256 0" if "\<forall>i \<in> set is. i < 256" for "is"
    using that by (induction "is") auto
  moreover have "slide_bits (replicate 32 0) = Some (replicate 256 0)"
    by (auto simp: slide_bits_def intro!: nth_equalityI)
  ultimately show ?thesis by (simp add: slide_def)
qed

lemma unwritten:
  "ge_dsm_precomp A \<noteq> None \<Longrightarrow> ge_double_scalarmult_base_vartime_p3 Bi (replicate 32 0) A (replicate 32 0) = Some None"
  "ge_double_scalarmult_precomp_vartime2_p3 (replicate 32 0) Ti (replicate 32 0) Ui = Some None"
proof -
  have "from_top (\<lambda>i. replicate 256 (0::int) ! i \<noteq> 0 \<or> replicate 256 (0::int) ! i \<noteq> 0) = []" by (simp add: from_top_def dropWhile_eq_Nil_conv)
  then show "ge_dsm_precomp A \<noteq> None \<Longrightarrow> ge_double_scalarmult_base_vartime_p3 Bi (replicate 32 0) A (replicate 32 0) = Some None"
    "ge_double_scalarmult_precomp_vartime2_p3 (replicate 32 0) Ti (replicate 32 0) Ui = Some None"
    by (auto simp: ge_double_scalarmult_base_vartime_p3_def ge_double_scalarmult_precomp_vartime2_p3_def slide_zero)
qed

section \<open>Properties\<close>

text \<open>The points of order two form a group on which the statements can be run.\<close>

definition two_torsion :: "int \<Rightarrow> point" where
  "two_torsion n = (0, if even n then 1 else - 1)"

lemma two_torsion_hom: "ed_hom two_torsion"
  using unit_p_1 by (auto simp: ed_hom_def two_torsion_def ed_sum_def ed_curve_def ed_neg_def)

lemma minus_one_rep: "fe_rep 1 (- 1 # replicate 9 0) (- 1)"
  unfolding fe_rep_def by (simp add: fe_bnd_list upt_10 fe_unit_def fe_value_10 eval_nat_numeral)

lemma two_torsion_p3: "p3_point \<lparr>p3_X = fe_0, p3_Y = - 1 # replicate 9 0, p3_Z = fe_1, p3_T = fe_0\<rparr> (two_torsion 1)"
  using unit_p_1 fe_rep_0 fe_rep_1 minus_one_rep by (auto simp: p3_point_def two_torsion_def intro!: exI [of _ 1])

lemma small_scalar: "le_nat (b # replicate n 0) = unat b" "scalar_ok (b # replicate 31 0)"
proof -
  have "le_nat (replicate n 0) = 0" by (simp add: le_nat_0)
  then show "le_nat (b # replicate n 0) = unat b" by simp
  show "scalar_ok (b # replicate 31 0)" by (simp add: scalar_ok_def nth_Cons')
qed

lemma zs_one: "zs z (1 :: int) = z"
proof -
  have "ns n 1 = int n" for n by (induction n) simp_all
  then show ?thesis by (simp add: zs_def)
qed

lemma zs_zero: "zs z 0 = 0"
proof -
  have "ns n 0 = (0 :: 'a)" for n by (induction n) simp_all
  then show ?thesis by (simp add: zs_def)
qed

text \<open>C33: the constant-time multiplications compute multiples. In a group of points of the curve, for a scalar below 2^255 and
  a point A, \<^verbatim>\<open>ge_scalarmult\<close> and \<^verbatim>\<open>ge_scalarmult_p3\<close> return projective and extended coordinates of
  a A, and \<^verbatim>\<open>ge_scalarmult_base\<close> of a B when the rows of its table hold the multiples 1 to 8 of 256^pos B; no step
  overflows and the extended result is always written.\<close>

theorem scalarmult_correct:
  assumes "ed_hom f" "p3_point A (f g)" "base_table f h B" "scalar_ok a"
  shows "ok (\<lambda>r. p2_point r (f (zs (int (le_nat a)) g))) (ge_scalarmult a A) \<and>
    ok (\<lambda>r3. \<exists>r. r3 = Some r \<and> p3_point r (f (zs (int (le_nat a)) g))) (ge_scalarmult_p3 a A) \<and>
    ok (\<lambda>r. p3_point r (f (zs (int (le_nat a)) h))) (ge_scalarmult_base B a)"
  using ge_scalarmult_ok [OF assms(1,2)] ge_scalarmult_base_ok [OF assms(1,3)] assms(4) by (simp add: scalar_ok_def)

theorem scalarmult_correct_witness:
  "ok (\<lambda>r. p2_point r (0, - 1)) (ge_scalarmult (3 # replicate 31 0) \<lparr>p3_X = fe_0, p3_Y = - 1 # replicate 9 0, p3_Z = fe_1, p3_T = fe_0\<rparr>) \<and>
   ok (\<lambda>r. p3_point r (0, 1)) (ge_scalarmult_base (replicate 32 (replicate 8 ge_precomp_0)) (3 # replicate 31 0))"
proof -
  have B: "base_table two_torsion 0 (replicate 32 (replicate 8 ge_precomp_0))"
    using neutral_points(3) by (simp add: base_table_def zs_zero two_torsion_def)
  have s: "scalar_ok (3 # replicate 31 0)" "le_nat (3 # replicate 31 0) = 3" by (simp_all add: small_scalar le_nat_0)
  show ?thesis using scalarmult_correct [OF two_torsion_hom two_torsion_p3 B s(1)] s(2) by (simp add: zs_zero zs_one two_torsion_def)
qed

text \<open>C34: the variable-time multiplications compute sums of multiples. For scalars below 2^255 and tables of the odd multiples
  1 to 15, the double routines return a A + b B and the triple ones a A + b B + c C, with tables given or computed by
  \<^verbatim>\<open>ge_dsm_precomp\<close>.\<close>

theorem vartime_correct:
  assumes "ed_hom f" "p3_point A (f g)" "dsm_table f g Ai" "bi_table f g Gi" "bi_table f h Hi" "dsm_table f h Bi" "dsm_table f k Ci"
    "scalar_ok a" "scalar_ok b" "scalar_ok c"
  shows "ok (\<lambda>r. p2_point r (f (zs (int (le_nat a)) g + zs (int (le_nat b)) h))) (ge_double_scalarmult_base_vartime Hi a A b) \<and>
    ok (\<lambda>r. p2_point r (f (zs (int (le_nat a)) g + zs (int (le_nat b)) h))) (ge_double_scalarmult_precomp_vartime2 a Ai b Bi) \<and>
    ok (\<lambda>r. p2_point r (f (zs (int (le_nat a)) g + zs (int (le_nat b)) h))) (ge_double_scalarmult_precomp_vartime a A b Bi) \<and>
    ok (\<lambda>r. p2_point r (f (zs (int (le_nat a)) g + zs (int (le_nat b)) h + zs (int (le_nat c)) k))) (ge_triple_scalarmult_base_vartime Gi a b Bi c Ci) \<and>
    ok (\<lambda>r. p2_point r (f (zs (int (le_nat a)) g + zs (int (le_nat b)) h + zs (int (le_nat c)) k))) (ge_triple_scalarmult_precomp_vartime a Ai b Bi c Ci)"
proof -
  have "ok (\<lambda>r. p2_point r (f (zs (int (le_nat a)) g + zs (int (le_nat b)) h))) (ge_double_scalarmult_precomp_vartime a A b Bi)"
    unfolding ge_double_scalarmult_precomp_vartime_def
    by (rule ok_bind [OF dsm_precomp_table [OF assms(1,2)]]) (rule double_precomp_ok(1) [OF assms(1) _ assms(6,8,9)])
  then show ?thesis
    using double_base_ok(1) [OF assms(1,2,5,8,9)] double_precomp_ok(1) [OF assms(1,3,6,8,9)] triple_ok [OF assms(1,3,4,6,7,8,9,10)] by blast
qed

theorem vartime_correct_witness:
  "ok (\<lambda>r. p2_point r (0, - 1)) (ge_double_scalarmult_precomp_vartime (3 # replicate 31 0)
     \<lparr>p3_X = fe_0, p3_Y = - 1 # replicate 9 0, p3_Z = fe_1, p3_T = fe_0\<rparr> (5 # replicate 31 0) (replicate 8 ge_cached_0))"
proof -
  let ?A = "\<lparr>p3_X = fe_0, p3_Y = - 1 # replicate 9 0, p3_Z = fe_1, p3_T = fe_0\<rparr>"
  let ?p = "\<lparr>yplusx = - 1 # replicate 9 0, yminusx = - 1 # replicate 9 0, xy2d = fe_0\<rparr>"
  obtain Ai where Ai: "dsm_table two_torsion 1 Ai" using dsm_precomp_table [OF two_torsion_hom two_torsion_p3] by (auto simp: ok_def)
  have "precomp_point ?p (0, - 1)" using minus_one_rep fe_rep_0 by (simp add: precomp_point_def)
  then have t: "bi_table two_torsion 1 (replicate 8 ?p)" "bi_table two_torsion 0 (replicate 8 ge_precomp_0)" "dsm_table two_torsion 0 (replicate 8 ge_cached_0)"
    using neutral_points(3,4) by (simp_all add: bi_table_def dsm_table_def zs_zero zs_one two_torsion_def)
  have s: "scalar_ok (3 # replicate 31 0)" "scalar_ok (5 # replicate 31 0)" "le_nat (3 # replicate 31 0) = 3" by (simp_all add: small_scalar le_nat_0)
  show ?thesis using vartime_correct [OF two_torsion_hom two_torsion_p3 Ai t(1,2,3,3) s(1,2,2)] s(3) by (simp add: zs_zero zs_one two_torsion_def)
qed

text \<open>C35: the two variable-time routines with an extended result return a A + b B when a scalar is not zero; when both scalars
  are zero they return without having written their result.\<close>

theorem vartime_p3_unwritten:
  assumes "ed_hom f" "p3_point A (f g)" "dsm_table f g Ai" "bi_table f h Hi" "dsm_table f h Bi" "scalar_ok a" "scalar_ok b" "0 < le_nat a \<or> 0 < le_nat b"
  shows "ok (\<lambda>r3. \<exists>r. r3 = Some r \<and> p3_point r (f (zs (int (le_nat a)) g + zs (int (le_nat b)) h))) (ge_double_scalarmult_base_vartime_p3 Hi a A b) \<and>
    ok (\<lambda>r3. \<exists>r. r3 = Some r \<and> p3_point r (f (zs (int (le_nat a)) g + zs (int (le_nat b)) h))) (ge_double_scalarmult_precomp_vartime2_p3 a Ai b Bi) \<and>
    ge_double_scalarmult_base_vartime_p3 Hi (replicate 32 0) A (replicate 32 0) = Some None \<and>
    ge_double_scalarmult_precomp_vartime2_p3 (replicate 32 0) Ai (replicate 32 0) Bi = Some None"
proof (intro conjI)
  show "ok (\<lambda>r3. \<exists>r. r3 = Some r \<and> p3_point r (f (zs (int (le_nat a)) g + zs (int (le_nat b)) h))) (ge_double_scalarmult_base_vartime_p3 Hi a A b)"
    by (rule ok_mono [OF double_base_ok(2) [OF assms(1,2,4,6,7)]]) (use assms(8) in \<open>auto split: if_splits\<close>)
  show "ok (\<lambda>r3. \<exists>r. r3 = Some r \<and> p3_point r (f (zs (int (le_nat a)) g + zs (int (le_nat b)) h))) (ge_double_scalarmult_precomp_vartime2_p3 a Ai b Bi)"
    by (rule ok_mono [OF double_precomp_ok(2) [OF assms(1,3,5,6,7)]]) (use assms(8) in \<open>auto split: if_splits\<close>)
  show "ge_double_scalarmult_base_vartime_p3 Hi (replicate 32 0) A (replicate 32 0) = Some None"
    using dsm_precomp_table [OF assms(1,2)] unwritten(1) by (auto simp: ok_def)
qed (rule unwritten(2))

theorem vartime_p3_unwritten_witness:
  "ok (\<lambda>r3. \<exists>r. r3 = Some r \<and> p3_point r (0, 1)) (ge_double_scalarmult_precomp_vartime2_p3 (3 # replicate 31 0) (replicate 8 ge_cached_0) (5 # replicate 31 0) (replicate 8 ge_cached_0)) \<and>
   ge_double_scalarmult_precomp_vartime2_p3 (replicate 32 0) (replicate 8 ge_cached_0) (replicate 32 0) (replicate 8 ge_cached_0) = Some None"
proof -
  have t: "bi_table two_torsion 0 (replicate 8 ge_precomp_0)" "dsm_table two_torsion 0 (replicate 8 ge_cached_0)" "p3_point ge_p3_0 (two_torsion 0)"
    using neutral_points by (simp_all add: bi_table_def dsm_table_def zs_zero two_torsion_def)
  have s: "scalar_ok (3 # replicate 31 0)" "scalar_ok (5 # replicate 31 0)" "0 < le_nat (3 # replicate 31 0) \<or> 0 < le_nat (5 # replicate 31 0)"
    by (simp_all add: small_scalar le_nat_0)
  show ?thesis using vartime_p3_unwritten [OF two_torsion_hom t(3,2,1,2) s] by (simp add: zs_zero two_torsion_def)
qed

end
