(* ===== verification/Varint.thy ===== *)
theory Varint
  imports Prelude_Monero
begin

unbundle bit_operations_syntax

text \<open>
  Variable-length integers, \<open>src/common/varint.h\<close>, for 64-bit values: seven bits a byte, the lowest first, the top bit set on
  all bytes but the last. A stream is the list of the bytes still to be read.
\<close>

function write_varint :: "u64 \<Rightarrow> bytes" where
  "write_varint i = (if i \<ge> 0x80 then (((ucast i :: u8) AND 0x7f) OR 0x80) # write_varint (drop_bit 7 i) else [ucast i])"
  by auto
termination by (relation "measure unat") (auto simp: unat_drop_bit word_le_nat_alt)

definition get_varint_data :: "u64 \<Rightarrow> bytes" where
  "get_varint_data v = write_varint v"

text \<open>The result is the returned code, the value written, and the rest of the stream: \<open>-1\<close> is \<open>EVARINT_OVERFLOW\<close> and
  \<open>-2\<close> is \<open>EVARINT_REPRESENT\<close>.\<close>

definition EVARINT_OVERFLOW :: int where "EVARINT_OVERFLOW = - 1"

definition EVARINT_REPRESENT :: int where "EVARINT_REPRESENT = - 2"

fun read_varint_from :: "nat \<Rightarrow> nat \<Rightarrow> int \<Rightarrow> u64 \<Rightarrow> bytes \<Rightarrow> int \<times> u64 \<times> bytes" where
  "read_varint_from bits shift read w [] = (read, w, [])"
| "read_varint_from bits shift read w (byte # bs) =
     (if shift + 7 \<ge> bits \<and> uint byte \<ge> 2 ^ (bits - shift) then (EVARINT_OVERFLOW, w, bs)
      else if byte = 0 \<and> shift \<noteq> 0 then (EVARINT_REPRESENT, w, bs)
      else let w = w OR push_bit shift (ucast (byte AND 0x7f)) in
        if byte AND 0x80 = 0 then (read + 1, w, bs)
        else read_varint_from bits (shift + 7) (read + 1) w bs)"

definition read_varint_bits :: "nat \<Rightarrow> bytes \<Rightarrow> int \<times> u64 \<times> bytes" where
  "read_varint_bits bits bs = read_varint_from bits 0 0 0 bs"

definition read_varint :: "bytes \<Rightarrow> int \<times> u64 \<times> bytes" where
  "read_varint bs = read_varint_bits 64 bs"

function get_varint_byte_size :: "u64 \<Rightarrow> nat" where
  "get_varint_byte_size val = (let val = drop_bit 7 val in if val \<noteq> 0 then 1 + get_varint_byte_size val else 1)"
  by auto
termination
proof (relation "measure unat")
  fix val x :: u64
  assume "x = drop_bit 7 val" "x \<noteq> 0"
  then have "0 < unat val div 2 ^ 7" by (metis unat_drop_bit unat_gt_0)
  then show "(x, val) \<in> measure unat" using \<open>x = _\<close> by (simp add: unat_drop_bit)
qed simp

declare write_varint.simps [simp del] get_varint_byte_size.simps [simp del]

section \<open>Round trip\<close>

lemma low7: "unat (b AND 0x7f) = unat b mod 128" for b :: u8
proof -
  have "b AND 0x7f = take_bit 7 b" by (simp add: take_bit_eq_mask mask_eq_exp_minus_1)
  then show ?thesis by (simp add: unat_take_bit)
qed

lemma high_bit: "b AND 0x80 = 0 \<longleftrightarrow> unat b < 128" for b :: u8
proof -
  have "b AND 0x80 = 0 \<longleftrightarrow> \<not> bit b 7" using and_exp_eq_0_iff_not_bit [of b 7] by simp
  also have "bit b 7 \<longleftrightarrow> odd (unat b div 2 ^ 7)" using bit_iff_odd [of "unat b" 7] by (simp add: bit_unsigned_iff)
  also have "\<dots> \<longleftrightarrow> \<not> unat b < 128"
  proof -
    have "odd (u div 128) \<longleftrightarrow> \<not> u < 128" if "u < 256" for u :: nat using that by (cases "u < 128") (simp_all add: le_div_geq)
    then show ?thesis using unat_lt_u8 [of b] by simp
  qed
  finally show ?thesis by simp
qed

lemma unat_of_nat_64: "m < 2 ^ 64 \<Longrightarrow> unat (word_of_nat m :: u64) = m"
  by (simp add: unat_of_nat)

lemma of_nat_unat_64: "unat w = m \<Longrightarrow> w = word_of_nat m" for w :: u64
proof -
  assume "unat w = m"
  then have "unat (word_of_nat m :: u64) = unat w" using unat_of_nat_64 [of m] unat_lt_u64 [of w] by simp
  then show ?thesis by (intro word_unat_eq_iff [THEN iffD2]) (rule sym)
qed

lemma or_push:
  fixes w x :: u64
  assumes "unat w < 2 ^ s" "unat x * 2 ^ s < 2 ^ 64"
  shows "unat (w OR push_bit s x) = unat w + unat x * 2 ^ s"
proof (cases "s < 64")
  case True
  have t: "take_bit s w = w" using assms(1) by (intro word_unat_eq_iff [THEN iffD2]) (simp add: unat_take_bit)
  have "take_bit s w AND push_bit s x = 0" by (rule bit_eqI) (simp only: bit_and_iff bit_take_bit_iff bit_push_bit_iff, auto)
  then have d: "w OR push_bit s x = w + push_bit s x" unfolding t by (simp add: disjunctive_add_eq_or)
  have p: "unat (push_bit s x) = unat x * 2 ^ s" using assms(2) by (simp add: unat_push_bit mult.commute)
  have "unat x * 2 ^ s + 2 ^ s \<le> 2 ^ 64"
  proof -
    have e: "(2::nat) ^ 64 = 2 ^ (64 - s) * 2 ^ s" unfolding power_add [symmetric] using True by simp
    then have "unat x < 2 ^ (64 - s)" using assms(2) unfolding e mult_less_cancel2 by blast
    then have "(unat x + 1) * 2 ^ s \<le> 2 ^ (64 - s) * 2 ^ s" by (intro mult_right_mono) simp_all
    then show ?thesis unfolding e by simp
  qed
  then have "unat w + unat (push_bit s x) < 2 ^ 64" unfolding p using assms(1) by linarith
  then show ?thesis unfolding d p [symmetric] by (simp add: unat_word_ariths)
next
  case False
  then have "2 ^ 64 \<le> (2::nat) ^ s" by (intro power_increasing) simp_all
  then have "unat x = 0" using assms(2) by (metis gr0I less_le_trans mult_le_mono1 mult_1 not_less Suc_leI One_nat_def)
  then have "x = 0" by (simp add: unat_eq_0)
  then show ?thesis by simp
qed

lemma write_byte: "unat (((ucast i :: u8) AND 0x7f) OR 0x80) = unat i mod 128 + 128" for i :: u64
proof -
  have l: "unat ((ucast i :: u8) AND 0x7f) = unat i mod 128" unfolding low7 by (simp add: unat_ucast mod_mod_cancel)
  have e: "(0x80 :: u8) = push_bit 7 1" by (simp add: push_bit_eq_mult)
  have t: "(ucast i :: u8) AND 0x7f = take_bit 7 (ucast i)" by (simp add: take_bit_eq_mask mask_eq_exp_minus_1)
  have "take_bit 7 (ucast i :: u8) AND push_bit 7 1 = 0" by (rule bit_eqI) (simp only: bit_and_iff bit_take_bit_iff bit_push_bit_iff, auto)
  then have "((ucast i :: u8) AND 0x7f) OR 0x80 = ((ucast i :: u8) AND 0x7f) + 0x80" unfolding e t by (simp add: disjunctive_add_eq_or)
  then show ?thesis using l by (simp add: unat_word_ariths)
qed

lemma low7_up: "unat (ucast (b AND 0x7f :: u8) :: u64) = unat b mod 128"
  using low7 [of b] by (simp add: unat_ucast_up)

lemma read_write:
  assumes "unat v < 2 ^ (64 - s)" "s \<le> 63" "s \<noteq> 0 \<Longrightarrow> v \<noteq> 0" "unat w < 2 ^ s"
  shows "read_varint_from 64 s r w (write_varint v @ rest) =
    (r + int (length (write_varint v)), word_of_nat (unat w + unat v * 2 ^ s), rest)"
  using assms
proof (induction v arbitrary: s r w rule: write_varint.induct)
  case (1 v)
  have e: "(2::nat) ^ 64 = 2 ^ (64 - s) * 2 ^ s" unfolding power_add [symmetric] using "1.prems"(2) by simp
  have lt: "unat v * 2 ^ s < 2 ^ 64" unfolding e using "1.prems"(1) by simp
  show ?case
  proof (cases "v \<ge> 0x80")
    case True
    let ?b = "((ucast v :: u8) AND 0x7f) OR 0x80"
    have b: "unat ?b = unat v mod 128 + 128" by (rule write_byte)
    have v: "128 \<le> unat v" using True by (simp add: word_le_nat_alt)
    have s: "s + 7 < 64"
    proof (rule ccontr)
      assume "\<not> s + 7 < 64"
      then have "(2::nat) ^ (64 - s) \<le> 2 ^ 7" by (intro power_increasing) auto
      then show False using v "1.prems"(1) by simp
    qed
    have m: "unat (ucast (?b AND 0x7f) :: u64) = unat v mod 128" unfolding low7_up b by simp
    let ?w = "w OR push_bit s (ucast (?b AND 0x7f))"
    have mv: "unat v mod 128 * 2 ^ s < 2 ^ 64" using lt mod_less_eq_dividend [of "unat v" 128] by (meson le_less_trans mult_le_mono1)
    have w: "unat ?w = unat w + unat v mod 128 * 2 ^ s" using or_push [OF "1.prems"(4), of "ucast (?b AND 0x7f)"] mv unfolding m by blast
    have w': "unat ?w < 2 ^ (s + 7)"
    proof -
      have "unat v mod 128 * 2 ^ s \<le> 127 * 2 ^ s" by (intro mult_right_mono) simp_all
      moreover have "(2::nat) ^ (s + 7) = 128 * 2 ^ s" by (simp add: power_add)
      ultimately show ?thesis unfolding w using "1.prems"(4) by linarith
    qed
    have d: "unat (drop_bit 7 v) = unat v div 128" by (simp add: unat_drop_bit)
    have v': "unat (drop_bit 7 v) < 2 ^ (64 - (s + 7))"
    proof -
      have "(2::nat) ^ (64 - s) = 2 ^ (64 - (s + 7)) * 128" using s power_add [of "2::nat" "64 - (s + 7)" 7] by simp
      then show ?thesis unfolding d using "1.prems"(1) by (simp add: less_mult_imp_div_less)
    qed
    have nz: "drop_bit 7 v \<noteq> 0"
    proof
      assume "drop_bit 7 v = 0"
      then have "unat v div 128 = 0" using d by simp
      then show False using v by simp
    qed
    have tot: "unat ?w + unat (drop_bit 7 v) * 2 ^ (s + 7) = unat w + unat v * 2 ^ s"
    proof -
      define q m where "q = unat v div 128" and "m = unat v mod 128"
      have "unat v = 128 * q + m" by (simp add: q_def m_def)
      then show ?thesis unfolding w d power_add q_def [symmetric] m_def [symmetric] by (simp add: algebra_simps)
    qed
    have "read_varint_from 64 s r w (write_varint v @ rest) = read_varint_from 64 (s + 7) (r + 1) ?w (write_varint (drop_bit 7 v) @ rest)"
    proof -
      have "\<not> (?b AND 0x80 = 0)" unfolding high_bit b by simp
      moreover have "?b \<noteq> 0" using b by force
      ultimately show ?thesis using True s by (simp add: write_varint.simps [of v] Let_def del: word_ao_absorbs)
    qed
    also have "\<dots> = (r + 1 + int (length (write_varint (drop_bit 7 v))), word_of_nat (unat w + unat v * 2 ^ s), rest)"
      using "1.IH" [OF True v' _ nz w', of "r + 1"] s unfolding tot by simp
    finally show ?thesis using True by (simp add: write_varint.simps [of v])
  next
    case False
    then have v: "unat v < 128" by (simp add: word_le_nat_alt)
    have b: "unat (ucast v :: u8) = unat v" using v by (simp add: unat_ucast)
    have m: "unat (ucast ((ucast v :: u8) AND 0x7f) :: u64) = unat v" unfolding low7_up b using v by simp
    have "unat (w OR push_bit s (ucast ((ucast v :: u8) AND 0x7f))) = unat w + unat v * 2 ^ s"
      using or_push [OF "1.prems"(4), of "ucast ((ucast v :: u8) AND 0x7f)"] lt unfolding m by blast
    then have w: "w OR push_bit s (ucast ((ucast v :: u8) AND 0x7f)) = word_of_nat (unat w + unat v * 2 ^ s)" by (rule of_nat_unat_64)
    have h: "(ucast v :: u8) AND 0x80 = 0" unfolding high_bit b by (rule v)
    have o: "\<not> uint (ucast v :: u8) \<ge> 2 ^ (64 - s)"
    proof -
      have "int (unat v) < 2 ^ (64 - s)" using "1.prems"(1) by (metis of_nat_less_iff of_nat_numeral of_nat_power)
      moreover have "uint (ucast v :: u8) = int (unat v)" unfolding b [symmetric] by (rule uint_nat)
      ultimately show ?thesis by simp
    qed
    have z: "\<not> ((ucast v :: u8) = 0 \<and> s \<noteq> 0)" using "1.prems"(3) b by (metis unat_0 unat_eq_0)
    have "write_varint v = [ucast v]" using False by (simp add: write_varint.simps [of v])
    moreover have "\<not> (64 \<le> s + 7 \<and> uint (ucast v :: u8) \<ge> 2 ^ (64 - s))" using o by blast
    ultimately show ?thesis
      by (simp only: append.simps read_varint_from.simps if_not_P [OF z] if_not_P if_P [OF h] Let_def w) simp
  qed
qed

text \<open>What is read without an error is either cut off, all its bytes announcing another one, or the encoding of the value.\<close>

lemma write_small: "unat b < 128 \<Longrightarrow> write_varint (ucast (b :: u8)) = [b]"
proof -
  assume b: "unat b < 128"
  then have u: "unat (ucast b :: u64) = unat b" by (simp add: unat_ucast_up)
  then have "\<not> (ucast b :: u64) \<ge> 0x80" using b by (simp add: word_le_nat_alt)
  moreover have "(ucast (ucast b :: u64) :: u8) = b" by (rule word_unat_eq_iff [THEN iffD2]) (use u unat_lt_u8 [of b] in \<open>simp add: unat_ucast\<close>)
  ultimately show ?thesis by (simp add: write_varint.simps [of "ucast b"])
qed

lemma write_cons:
  assumes b: "128 \<le> unat (b :: u8)" and x: "0 < unat x" "unat x * 128 + 127 < 2 ^ 64"
  shows "\<exists>y :: u64. unat y = unat b mod 128 + unat x * 128 \<and> write_varint y = b # write_varint x"
proof -
  define y :: u64 where "y = word_of_nat (unat b mod 128 + unat x * 128)"
  have "unat b mod 128 \<le> 127" by simp
  then have lt: "unat b mod 128 + unat x * 128 < 2 ^ 64" using x(2) by linarith
  then have y: "unat y = unat b mod 128 + unat x * 128" unfolding y_def by (rule unat_of_nat_64)
  have ge: "y \<ge> 0x80" using x(1) y by (simp add: word_le_nat_alt)
  have "unat (((ucast y :: u8) AND 0x7f) OR 0x80) = unat b"
  proof -
    have "(unat b mod 128 + unat x * 128) mod 128 = unat b mod 128" by simp
    moreover have "u mod 128 + 128 = u" if "128 \<le> u" "u < 256" for u :: nat using that by (simp add: le_mod_geq)
    ultimately show ?thesis unfolding write_byte y using b unat_lt_u8 [of b] by simp
  qed
  then have c: "((ucast y :: u8) AND 0x7f) OR 0x80 = b" by (rule word_unat_eq_iff [THEN iffD2])
  have d: "drop_bit 7 y = x" by (rule word_unat_eq_iff [THEN iffD2]) (simp add: unat_drop_bit y)
  show ?thesis using y ge by (intro exI [of _ y]) (simp add: write_varint.simps [of y] c d)
qed

lemma read_canonical:
  assumes "read_varint_from 64 s r w bs = (n, v, rest)" "0 \<le> n" "0 \<le> r" "s \<le> 63" "unat w < 2 ^ s"
  shows "rest = [] \<and> (\<forall>b \<in> set bs. 128 \<le> unat b) \<and> n = r + int (length bs) \<or>
    (\<exists>x. bs = write_varint x @ rest \<and> n = r + int (length (write_varint x)) \<and> unat v = unat w + unat x * 2 ^ s \<and> unat x < 2 ^ (64 - s) \<and> (s = 0 \<or> 0 < unat x))"
  using assms
proof (induction bs arbitrary: s r w)
  case (Cons b bs)
  have err: "\<not> (64 \<le> s + 7 \<and> uint b \<ge> 2 ^ (64 - s))" "\<not> (b = 0 \<and> s \<noteq> 0)"
    using Cons.prems(1,2) by (auto simp: EVARINT_OVERFLOW_def EVARINT_REPRESENT_def Let_def split: if_splits)
  define w' where "w' = w OR push_bit s (ucast (b AND 0x7f))"
  have b64: "unat b < 2 ^ (64 - s)"
  proof (cases "64 \<le> s + 7")
    case True
    then have "int (unat b) < 2 ^ (64 - s)" using err(1) unfolding uint_nat by linarith
    then show ?thesis by (metis of_nat_less_iff of_nat_numeral of_nat_power)
  next
    case False
    then have "(2::nat) ^ 8 \<le> 2 ^ (64 - s)" by (intro power_increasing) auto
    then show ?thesis using unat_lt_u8 [of b] by simp
  qed
  have e: "(2::nat) ^ 64 = 2 ^ (64 - s) * 2 ^ s" unfolding power_add [symmetric] using Cons.prems(4) by simp
  have "unat b mod 128 * 2 ^ s < 2 ^ 64"
  proof -
    have "unat b mod 128 < 2 ^ (64 - s)" using b64 mod_less_eq_dividend [of "unat b" 128] by linarith
    then show ?thesis unfolding e mult_less_cancel2 by simp
  qed
  then have w: "unat w' = unat w + unat b mod 128 * 2 ^ s" using or_push [OF Cons.prems(5), of "ucast (b AND 0x7f)"] unfolding w'_def low7_up by blast
  show ?case
  proof (cases "b AND 0x80 = 0")
    case True
    then have b: "unat b < 128" by (simp add: high_bit)
    have "(n, v, rest) = (r + 1, w', bs)" using Cons.prems(1) by (simp only: read_varint_from.simps if_not_P [OF err(1)] if_not_P [OF err(2)] if_P [OF True] Let_def w'_def)
    moreover have "unat (ucast b :: u64) = unat b" by (simp add: unat_ucast_up)
    moreover have "s = 0 \<or> 0 < unat b" using err(2) by (auto simp: unat_gt_0)
    ultimately show ?thesis using write_small [OF b] w b b64 by (intro disjI2 exI [of _ "ucast b"]) simp
  next
    case False
    then have b: "128 \<le> unat b" by (simp add: high_bit)
    have s: "s + 7 < 64"
    proof (rule ccontr)
      assume "\<not> s + 7 < 64"
      then have "(2::nat) ^ (64 - s) \<le> 2 ^ 7" by (intro power_increasing) auto
      then show False using b b64 by simp
    qed
    have rec: "read_varint_from 64 (s + 7) (r + 1) w' bs = (n, v, rest)" using Cons.prems(1) by (simp only: read_varint_from.simps if_not_P [OF err(1)] if_not_P [OF err(2)] if_not_P [OF False] Let_def w'_def)
    have p7: "(2::nat) ^ (s + 7) = 128 * 2 ^ s" by (simp add: power_add)
    have "unat b mod 128 * 2 ^ s \<le> 127 * 2 ^ s" by (intro mult_right_mono) simp_all
    then have "unat w' < 2 ^ (s + 7)" unfolding w p7 using Cons.prems(5) by linarith
    from Cons.IH [OF rec Cons.prems(2) _ _ this] Cons.prems(3) s
    consider (cut) "rest = []" "\<forall>b \<in> set bs. 128 \<le> unat b" "n = r + 1 + int (length bs)"
      | (full) x where "bs = write_varint x @ rest" "n = r + 1 + int (length (write_varint x))" "unat v = unat w' + unat x * 2 ^ (s + 7)" "unat x < 2 ^ (64 - (s + 7))" "0 < unat x"
      by auto
    then show ?thesis
    proof cases
      case cut
      then show ?thesis using b by simp
    next
      case full
      have p: "(2::nat) ^ (64 - s) = 2 ^ (64 - (s + 7)) * 128" using s power_add [of "2::nat" "64 - (s + 7)" 7] by simp
      have "(unat x + 1) * 128 \<le> 2 ^ (64 - s)" unfolding p using full(4) by (intro mult_right_mono) simp_all
      then have le: "unat x * 128 + 128 \<le> 2 ^ (64 - s)" by simp
      have "(2::nat) ^ (64 - s) \<le> 2 ^ 64" by (intro power_increasing) simp_all
      then have "unat x * 128 + 127 < 2 ^ 64" using le by simp
      from write_cons [OF b full(5) this] obtain y :: u64 where y: "unat y = unat b mod 128 + unat x * 128" "write_varint y = b # write_varint x" by blast
      have "unat b mod 128 \<le> 127" by simp
      then have "unat y < 2 ^ (64 - s)" unfolding y(1) using le by linarith
      moreover have "unat v = unat w + unat y * 2 ^ s" unfolding full(3) w y(1) p7 by (simp add: algebra_simps)
      ultimately show ?thesis using full(1,2,5) y by (intro disjI2 exI [of _ y]) simp
    qed
  qed
qed simp

lemma byte_size_length: "get_varint_byte_size v = length (write_varint v)"
proof (induction v rule: write_varint.induct)
  case (1 v)
  have "drop_bit 7 v \<noteq> 0 \<longleftrightarrow> v \<ge> 0x80"
  proof -
    have "unat (drop_bit 7 v) = unat v div 128" by (simp add: unat_drop_bit)
    then have "drop_bit 7 v = 0 \<longleftrightarrow> unat v div 128 = 0" by (metis unat_eq_0)
    then show ?thesis by (auto simp: word_le_nat_alt div_eq_0_iff)
  qed
  then show ?case using 1 by (simp add: get_varint_byte_size.simps [of v] write_varint.simps [of v] Let_def)
qed

lemma read_codes: "read_varint_from bits s r w bs = (n, v, rest) \<Longrightarrow> 0 \<le> r \<Longrightarrow> n = EVARINT_OVERFLOW \<or> n = EVARINT_REPRESENT \<or> 0 \<le> n"
proof (induction bs arbitrary: s r w)
  case (Cons b bs)
  then show ?case by (auto simp: Let_def split: if_splits)
qed simp

text \<open>The two examples of the file comment: the second byte carries seven bits, so they are read as \<open>0x100\<close> and \<open>0x17f\<close>.\<close>

lemma varint_comment_examples:
  "read_varint [0x80, 0x02] = (2, 0x100, [])" "read_varint [0xff, 0x02] = (2, 0x17f, [])"
  by (simp_all add: read_varint_def read_varint_bits_def Let_def)

section \<open>Properties\<close>

text \<open>C36: variable-length integers round-trip and have one encoding. Reading the encoding of any 64-bit value from a stream gives
  the value, the number of bytes (which is also \<^verbatim>\<open>get_varint_byte_size\<close>) and the rest of the stream. Conversely,
  whatever is read without an error code is exactly the encoding of the value returned, unless the stream ended inside the
  number, all its bytes having the continuation bit set.\<close>

theorem varint_roundtrip:
  "read_varint (get_varint_data v @ rest) = (int (get_varint_byte_size v), v, rest) \<and>
   (case read_varint bs of (n, x, tail) \<Rightarrow>
     n = EVARINT_OVERFLOW \<or> n = EVARINT_REPRESENT \<or> tail = [] \<and> list_all (\<lambda>b. 128 \<le> unat b) bs \<or> bs = get_varint_data x @ tail)"
proof (intro conjI)
  show "read_varint (get_varint_data v @ rest) = (int (get_varint_byte_size v), v, rest)"
    using read_write [of v 0 0 0 rest] unat_lt_u64 [of v] by (simp add: read_varint_def read_varint_bits_def get_varint_data_def byte_size_length)
  obtain n x tail where r: "read_varint bs = (n, x, tail)" by (metis prod_cases3)
  have neg: "n < 0 \<Longrightarrow> n = EVARINT_OVERFLOW \<or> n = EVARINT_REPRESENT" using read_codes [OF r [unfolded read_varint_def read_varint_bits_def]] by auto
  have "0 \<le> n \<Longrightarrow> tail = [] \<and> list_all (\<lambda>b. 128 \<le> unat b) bs \<or> bs = get_varint_data x @ tail"
  proof -
    assume "0 \<le> n"
    from read_canonical [OF r [unfolded read_varint_def read_varint_bits_def] this]
    have "tail = [] \<and> (\<forall>b \<in> set bs. 128 \<le> unat b) \<or> (\<exists>y. bs = write_varint y @ tail \<and> unat x = unat y)" by auto
    then show ?thesis by (auto simp: list_all_iff get_varint_data_def dest: word_unat_eq_iff [THEN iffD2])
  qed
  then show "case read_varint bs of (n, x, tail) \<Rightarrow>
     n = EVARINT_OVERFLOW \<or> n = EVARINT_REPRESENT \<or> tail = [] \<and> list_all (\<lambda>b. 128 \<le> unat b) bs \<or> bs = get_varint_data x @ tail"
    unfolding r using neg by force
qed

end
