(* ===== verification/Tree_Hash.thy ===== *)
theory Tree_Hash
  imports Prelude_Monero
begin

unbundle bit_operations_syntax

text \<open>
  The tree of transaction hashes of a block (\<open>src/crypto/tree-hash.c\<close>): its root, the branch of a leaf and the check of a
  branch.  A hash is a byte string, and contiguous hashes in memory are their concatenation.  The statements hold for any hash
  function, which is the argument \<open>H\<close> for \<open>cn_fast_hash\<close>.  Indices are natural numbers: where \<open>tree_hash_cnt\<close> returns, no sum
  or product of them reaches \<open>2^64\<close>.  \<open>tree_hash\<close> of no hash is undefined: it copies two entries into a buffer of one.
\<close>

section \<open>The operations\<close>

partial_function (option) pow_loop :: "u64 \<Rightarrow> u64 \<Rightarrow> u64 option" where
  [code]: "pow_loop pow num = (if pow < num then pow_loop (push_bit 1 pow) num else Some pow)"

definition tree_hash_cnt :: "u64 \<Rightarrow> u64 option" where
  "tree_hash_cnt num = do { pow \<leftarrow> pow_loop 2 num; Some (drop_bit 1 pow) }"

definition hash_pair :: "(bytes \<Rightarrow> bytes) \<Rightarrow> bytes list \<Rightarrow> nat \<Rightarrow> bytes option" where
  "hash_pair H hs i = do { a \<leftarrow> vec_at hs i; b \<leftarrow> vec_at hs (i + 1); Some (H (a @ b)) }"

text \<open>The loop over the pairs that start at \<open>off\<close> and are stored from \<open>off\<close> on: \<open>i = off, j = off; j < cnt; i += 2, ++j\<close>.\<close>

definition leaf_level :: "(bytes \<Rightarrow> bytes) \<Rightarrow> bytes list \<Rightarrow> nat \<Rightarrow> nat \<Rightarrow> bytes list \<Rightarrow> bytes list option" where
  "leaf_level H hashes off cnt = ofold (\<lambda>j ints. do { h \<leftarrow> hash_pair H hashes (2 * j - off); Some (ints[j := h]) }) [off..<cnt]"

definition inner_level :: "(bytes \<Rightarrow> bytes) \<Rightarrow> nat \<Rightarrow> bytes list \<Rightarrow> bytes list option" where
  "inner_level H cnt = ofold (\<lambda>j ints. do { h \<leftarrow> hash_pair H ints (2 * j); Some (ints[j := h]) }) [0..<cnt]"

function tree_levels :: "(bytes \<Rightarrow> bytes) \<Rightarrow> nat \<Rightarrow> bytes list \<Rightarrow> bytes list option" where
  "tree_levels H cnt ints =
     (if cnt > 2 then do { ints \<leftarrow> inner_level H (cnt div 2) ints; tree_levels H (cnt div 2) ints } else Some ints)"
  by auto
termination by (relation "measure (\<lambda>(H, cnt, ints). cnt)") auto

definition tree_hash :: "(bytes \<Rightarrow> bytes) \<Rightarrow> bytes list \<Rightarrow> bytes option" where
  "tree_hash H hashes = (let num = length hashes in
     if num = 0 then None
     else if num = 1 then Some (hashes ! 0)
     else if num = 2 then hash_pair H hashes 0
     else do {
       c \<leftarrow> tree_hash_cnt (of_nat num);
       let cnt = unat c;
       let ints = take (2 * cnt - num) hashes @ replicate (num - cnt) (replicate 32 0);
       ints \<leftarrow> leaf_level H hashes (2 * cnt - num) cnt ints;
       ints \<leftarrow> tree_levels H cnt ints;
       hash_pair H ints 0 })"

text \<open>The position of a leaf on the way up: \<open>visit i j\<close> is the body of the loops of \<open>tree_path\<close>, \<open>visit_branch\<close> that of
  \<open>tree_branch\<close>, which also records the sibling.\<close>

definition visit :: "nat \<Rightarrow> nat \<Rightarrow> nat \<times> u32 \<Rightarrow> nat \<times> u32" where
  "visit i j = (\<lambda>(idx, path). if idx = i \<or> idx = i + 1 then (j, push_bit 1 path OR (if idx = i then 0 else 1)) else (idx, path))"

function path_levels :: "nat \<Rightarrow> nat \<times> u32 \<Rightarrow> nat \<times> u32" where
  "path_levels cnt s = (if cnt > 2 then path_levels (cnt div 2) (fold (\<lambda>j. visit (2 * j) j) [0..<cnt div 2] s) else s)"
  by auto
termination by (relation "measure (\<lambda>(cnt, s). cnt)") auto

text \<open>\<open>Some None\<close> where the code returns false.\<close>

definition tree_path :: "nat \<Rightarrow> nat \<Rightarrow> u32 option option" where
  "tree_path num idx =
     (if num = 0 then Some None
      else if num = 1 then Some (Some 0)
      else if num = 2 then Some (Some (if idx = 0 then 0 else 1))
      else do {
        c \<leftarrow> tree_hash_cnt (of_nat num);
        let cnt = unat c;
        let s = fold (\<lambda>j. visit (2 * j - (2 * cnt - num)) j) [2 * cnt - num..<cnt] (idx, 0);
        let (idx, path) = visit 0 0 (path_levels cnt s);
        Some (Some path) })"

definition visit_branch :: "bytes list \<Rightarrow> nat \<Rightarrow> nat \<Rightarrow> nat \<times> bytes list \<times> u32 \<Rightarrow> (nat \<times> bytes list \<times> u32) option" where
  "visit_branch hs i j = (\<lambda>(idx, branch, path).
     if idx = i \<or> idx = i + 1 then do {
       sib \<leftarrow> vec_at hs (if idx = i then i + 1 else i);
       Some (j, branch @ [sib], push_bit 1 path OR (if idx = i then 0 else 1)) }
     else Some (idx, branch, path))"

definition leaf_branch :: "(bytes \<Rightarrow> bytes) \<Rightarrow> bytes list \<Rightarrow> nat \<Rightarrow> nat \<Rightarrow>
    (nat \<times> bytes list \<times> u32) \<times> bytes list \<Rightarrow> ((nat \<times> bytes list \<times> u32) \<times> bytes list) option" where
  "leaf_branch H hashes off cnt = ofold (\<lambda>j (s, ints). do {
     s \<leftarrow> visit_branch hashes (2 * j - off) j s;
     h \<leftarrow> hash_pair H hashes (2 * j - off);
     Some (s, ints[j := h]) }) [off..<cnt]"

definition inner_branch :: "(bytes \<Rightarrow> bytes) \<Rightarrow> nat \<Rightarrow>
    (nat \<times> bytes list \<times> u32) \<times> bytes list \<Rightarrow> ((nat \<times> bytes list \<times> u32) \<times> bytes list) option" where
  "inner_branch H cnt = ofold (\<lambda>j (s, ints). do {
     s \<leftarrow> visit_branch ints (2 * j) j s;
     h \<leftarrow> hash_pair H ints (2 * j);
     Some (s, ints[j := h]) }) [0..<cnt]"

function branch_levels :: "(bytes \<Rightarrow> bytes) \<Rightarrow> nat \<Rightarrow>
    (nat \<times> bytes list \<times> u32) \<times> bytes list \<Rightarrow> ((nat \<times> bytes list \<times> u32) \<times> bytes list) option" where
  "branch_levels H cnt s =
     (if cnt > 2 then do { s \<leftarrow> inner_branch H (cnt div 2) s; branch_levels H (cnt div 2) s } else Some s)"
  by auto
termination by (relation "measure (\<lambda>(H, cnt, s). cnt)") auto

fun find_index :: "bytes \<Rightarrow> bytes list \<Rightarrow> nat \<Rightarrow> nat" where
  "find_index hash [] idx = idx"
| "find_index hash (h # hs) idx = (if hash = h then idx else find_index hash hs (idx + 1))"

text \<open>The result is the branch and the path; the depth is the length of the branch.\<close>

definition tree_branch :: "(bytes \<Rightarrow> bytes) \<Rightarrow> bytes list \<Rightarrow> bytes \<Rightarrow> (bytes list \<times> u32) option option" where
  "tree_branch H hashes hash = (let num = length hashes; idx = find_index hash hashes 0 in
     if num = 0 then Some None
     else if idx = num then Some None
     else if num = 1 then Some (Some ([], 0))
     else if num = 2 then do { h \<leftarrow> vec_at hashes (if idx = 0 then 1 else 0); Some (Some ([h], if idx = 0 then 0 else 1)) }
     else do {
       c \<leftarrow> tree_hash_cnt (of_nat num);
       let cnt = unat c;
       let ints = take (2 * cnt - num) hashes @ replicate (num - cnt) (replicate 32 0);
       s \<leftarrow> leaf_branch H hashes (2 * cnt - num) cnt ((idx, [], 0), ints);
       (s, ints) \<leftarrow> branch_levels H cnt s;
       (idx, branch, path) \<leftarrow> visit_branch ints 0 0 s;
       Some (Some (branch, path)) })"

definition tree_branch_hash :: "(bytes \<Rightarrow> bytes) \<Rightarrow> bytes \<Rightarrow> bytes list \<Rightarrow> nat \<Rightarrow> u32 \<Rightarrow> bytes option" where
  "tree_branch_hash H hash branch depth path = ofold (\<lambda>d partial.
     if depth - d - 1 < 32 then do {
       b \<leftarrow> vec_at branch d;
       Some (H (if drop_bit (depth - d - 1) path AND 1 \<noteq> 0 then b @ partial else partial @ b)) }
     else None) [0..<depth] hash"

definition is_branch_in_tree :: "(bytes \<Rightarrow> bytes) \<Rightarrow> bytes \<Rightarrow> bytes \<Rightarrow> bytes list \<Rightarrow> nat \<Rightarrow> u32 \<Rightarrow> bool option" where
  "is_branch_in_tree H hash root branch depth path = do {
     res \<leftarrow> tree_branch_hash H hash branch depth path;
     Some (res = root) }"

declare tree_levels.simps [simp del] path_levels.simps [simp del] branch_levels.simps [simp del]

section \<open>The width of the tree\<close>

lemma unat_dbl: "unat (push_bit 1 p) = 2 * unat p" if "unat p < 2 ^ 63" for p :: u64
  using that unat_push_bit [of 1 p] by simp

lemma unat_pow: "m \<le> 63 \<Longrightarrow> unat (word_of_nat (2 ^ m) :: u64) = 2 ^ m"
proof -
  assume "m \<le> 63"
  then have "(2::nat) ^ m < 2 ^ 64" by (intro power_strict_increasing) simp_all
  then show ?thesis by (subst unat_of_nat) simp
qed

lemma pow_loop_returns:
  assumes "unat num \<le> 2 ^ 63"
  shows "n \<le> 63 \<Longrightarrow> unat p = 2 ^ n \<Longrightarrow> \<exists>m. n \<le> m \<and> m \<le> 63 \<and> pow_loop p num = Some (word_of_nat (2 ^ m)) \<and> unat num \<le> 2 ^ m \<and>
    (n < m \<longrightarrow> 2 ^ (m - 1) < unat num)"
proof (induction "63 - n" arbitrary: n p)
  case 0
  then have n: "n = 63" by simp
  have p: "p = word_of_nat (2 ^ 63)" using 0 n by (intro word_unat_eq_iff [THEN iffD2]) simp
  have "\<not> p < num" using 0 n assms by (simp add: word_less_nat_alt)
  then have "pow_loop p num = Some p" by (subst pow_loop.simps) simp
  then show ?case using n assms p by (intro exI [of _ 63]) simp
next
  case (Suc k)
  have n: "n < 63" using Suc.hyps(2) by simp
  show ?case
  proof (cases "p < num")
    case False
    have "unat (word_of_nat (2 ^ n) :: u64) = 2 ^ n" using n by (intro unat_pow) simp
    then have "p = word_of_nat (2 ^ n)" using Suc.prems(2) by (intro word_unat_eq_iff [THEN iffD2]) simp
    moreover have "pow_loop p num = Some p" using False by (subst pow_loop.simps) simp
    ultimately show ?thesis using False n Suc.prems(2) by (intro exI [of _ n]) (simp add: word_less_nat_alt)
  next
    case True
    have "unat p < 2 ^ 63" unfolding Suc.prems(2) using n by (rule power_strict_increasing) simp
    then have "unat (push_bit 1 p) = 2 ^ Suc n" using Suc.prems(2) unat_dbl by simp
    moreover have "k = 63 - Suc n" "Suc n \<le> 63" using Suc.hyps(2) n by simp_all
    ultimately obtain m where m: "Suc n \<le> m" "m \<le> 63" "pow_loop (push_bit 1 p) num = Some (word_of_nat (2 ^ m))"
      "unat num \<le> 2 ^ m" "Suc n < m \<longrightarrow> 2 ^ (m - 1) < unat num" using Suc.hyps(1) by blast
    have "pow_loop p num = pow_loop (push_bit 1 p) num" using True by (subst pow_loop.simps) simp
    moreover have "2 ^ (m - 1) < unat num" using m(1,5) True Suc.prems(2) by (cases "Suc n = m") (auto simp: word_less_nat_alt)
    ultimately show ?thesis using m by (intro exI [of _ m]) auto
  qed
qed

text \<open>Above \<open>2^63\<close> the power is shifted out and the loop does not end.\<close>

lemma pow_loop_result:
  assumes "pow_loop p num = Some r"
  shows "\<exists>k. r = push_bit k p \<and> num \<le> r"
proof (rule pow_loop.raw_induct [where P = "\<lambda>p num r. \<exists>k. r = push_bit k p \<and> num \<le> r", OF _ assms])
  fix loop :: "u64 \<Rightarrow> u64 \<Rightarrow> u64 option" and p num r
  assume IH: "\<And>p num r. loop p num = Some r \<Longrightarrow> \<exists>k. r = push_bit k p \<and> num \<le> r"
    and r: "(if p < num then loop (push_bit 1 p) num else Some p) = Some r"
  show "\<exists>k. r = push_bit k p \<and> num \<le> r"
  proof (cases "p < num")
    case True
    then have "loop (push_bit 1 p) num = Some r" using r by simp
    from IH [OF this] obtain k where "r = push_bit k (push_bit 1 p)" "num \<le> r" by blast
    then show ?thesis by (intro exI [of _ "k + 1"]) (simp only: push_bit_push_bit simp_thms)
  next
    case False
    then show ?thesis using r by (intro exI [of _ 0]) simp
  qed
qed

lemma pow_loop_diverges: "2 ^ 63 < unat num \<Longrightarrow> pow_loop 2 num = None"
proof (rule ccontr)
  assume n: "2 ^ 63 < unat num" and "pow_loop 2 num \<noteq> None"
  then obtain r where "pow_loop 2 num = Some r" by blast
  from pow_loop_result [OF this] obtain k where k: "r = push_bit k 2" "num \<le> r" by blast
  have "unat (push_bit k 2 :: u64) = 2 ^ Suc k mod 2 ^ 64" by (simp add: unat_push_bit mult.commute)
  also have "\<dots> \<le> 2 ^ 63"
  proof (cases "k < 63")
    case True
    then have "(2::nat) ^ Suc k \<le> 2 ^ 63" by (intro power_increasing) simp_all
    then show ?thesis using mod_less_eq_dividend [of "2 ^ Suc k" "(2::nat) ^ 64"] by linarith
  next
    case False
    then have "(2::nat) ^ 64 dvd 2 ^ Suc k" by (intro le_imp_power_dvd) simp
    then show ?thesis by (simp add: mod_eq_0_iff_dvd)
  qed
  finally show False using k n by (simp add: word_le_nat_alt)
qed

lemma tree_hash_cnt_ok:
  assumes "3 \<le> unat num" "unat num \<le> 2 ^ 63"
  shows "\<exists>m. 1 \<le> m \<and> m \<le> 62 \<and> tree_hash_cnt num = Some (word_of_nat (2 ^ m)) \<and> 2 ^ m < unat num \<and> unat num \<le> 2 * 2 ^ m"
proof -
  obtain m where m: "1 \<le> m" "m \<le> 63" "pow_loop 2 num = Some (word_of_nat (2 ^ m))" "unat num \<le> 2 ^ m" "1 < m \<longrightarrow> 2 ^ (m - 1) < unat num"
    using pow_loop_returns [OF assms(2), of 1 2] by auto
  have "1 < m"
  proof (rule ccontr)
    assume "\<not> 1 < m"
    then show False using m(1,4) assms(1) by (cases "m = 1") auto
  qed
  then obtain l where l: "m = Suc l" "1 \<le> l" by (cases m) auto
  have "unat (word_of_nat (2 ^ m) :: u64) = 2 ^ m" using m(2) by (rule unat_pow)
  then have "unat (drop_bit 1 (word_of_nat (2 ^ m) :: u64)) = 2 ^ l" using l by (simp add: unat_drop_bit)
  moreover have "unat (word_of_nat (2 ^ l) :: u64) = 2 ^ l" using m(2) l by (intro unat_pow) simp
  ultimately have "drop_bit 1 (word_of_nat (2 ^ m) :: u64) = word_of_nat (2 ^ l)" by (intro word_unat_eq_iff [THEN iffD2]) simp
  then show ?thesis using m l \<open>1 < m\<close> by (intro exI [of _ l]) (simp add: tree_hash_cnt_def)
qed

section \<open>Levels\<close>

definition sib :: "nat \<Rightarrow> nat" where
  "sib i = (if even i then i + 1 else i - 1)"

definition level_upto :: "(bytes \<Rightarrow> bytes) \<Rightarrow> nat \<Rightarrow> bytes list \<Rightarrow> bytes list" where
  "level_upto H n ints = map (\<lambda>m. if m < n then H (ints ! (2 * m) @ ints ! (2 * m + 1)) else ints ! m) [0..<length ints]"

lemma hash_pair_eq: "i + 1 < length hs \<Longrightarrow> hash_pair H hs i = Some (H (hs ! i @ hs ! (i + 1)))"
  by (simp add: hash_pair_def)

lemma level_upto_simps: "length (level_upto H n ints) = length ints"
  "m < length ints \<Longrightarrow> level_upto H n ints ! m = (if m < n then H (ints ! (2 * m) @ ints ! (2 * m + 1)) else ints ! m)"
  by (simp_all add: level_upto_def)

lemma level_upto_0: "level_upto H 0 ints = ints"
  by (simp add: level_upto_def map_nth)

lemma level_upto_Suc:
  "2 * n + 1 < length ints \<Longrightarrow> (level_upto H n ints)[n := H (ints ! (2 * n) @ ints ! (2 * n + 1))] = level_upto H (Suc n) ints"
  by (rule nth_equalityI) (auto simp: level_upto_simps nth_list_update less_Suc_eq)

lemma inner_branch_ok:
  assumes "2 * cnt \<le> length ints"
  shows "inner_branch H cnt ((idx, br, path), ints) =
    Some (if idx < 2 * cnt then (idx div 2, br @ [ints ! sib idx], push_bit 1 path OR (if even idx then 0 else 1)) else (idx, br, path), level_upto H cnt ints)"
  using assms
proof (induction cnt)
  case 0
  then show ?case by (simp add: inner_branch_def level_upto_0)
next
  case (Suc n)
  let ?s = "if idx < 2 * n then (idx div 2, br @ [ints ! sib idx], push_bit 1 path OR (if even idx then 0 else 1)) else (idx, br, path)"
  let ?s' = "if idx < 2 * Suc n then (idx div 2, br @ [ints ! sib idx], push_bit 1 path OR (if even idx then 0 else 1)) else (idx, br, path)"
  let ?L = "level_upto H n ints"
  have n: "2 * n + 1 < length ints" using Suc.prems by simp
  have at: "?L ! (2 * n) = ints ! (2 * n)" "?L ! (2 * n + 1) = ints ! (2 * n + 1)" using n by (simp_all add: level_upto_simps)
  have h: "hash_pair H ?L (2 * n) = Some (H (ints ! (2 * n) @ ints ! (2 * n + 1)))" using n at by (simp add: hash_pair_eq level_upto_simps)
  consider "idx < 2 * n" | "idx = 2 * n" | "idx = 2 * n + 1" | "2 * n + 2 \<le> idx" by linarith
  then have v: "visit_branch ?L (2 * n) n ?s = Some ?s'"
    by cases (use n at in \<open>auto simp: visit_branch_def sib_def level_upto_simps\<close>)
  have "inner_branch H (Suc n) ((idx, br, path), ints) = do { (s, L) \<leftarrow> inner_branch H n ((idx, br, path), ints);
      s \<leftarrow> visit_branch L (2 * n) n s; h \<leftarrow> hash_pair H L (2 * n); Some (s, L[n := h]) }"
    unfolding inner_branch_def ofold_upt_Suc [OF le0] by (simp add: case_prod_beta')
  also have "inner_branch H n ((idx, br, path), ints) = Some (?s, ?L)" using Suc by simp
  also have "do { (s, L) \<leftarrow> Some (?s, ?L); s \<leftarrow> visit_branch L (2 * n) n s; h \<leftarrow> hash_pair H L (2 * n); Some (s, L[n := h]) } = Some (?s', level_upto H (Suc n) ints)"
    unfolding bind.bind_lunit split_conv v h level_upto_Suc [OF n] ..
  finally show ?case .
qed

lemma inner_level_ok: "2 * cnt \<le> length ints \<Longrightarrow> inner_level H cnt ints = Some (level_upto H cnt ints)"
proof (induction cnt)
  case (Suc n)
  have n: "2 * n + 1 < length ints" using Suc.prems by simp
  have h: "hash_pair H (level_upto H n ints) (2 * n) = Some (H (ints ! (2 * n) @ ints ! (2 * n + 1)))" using n by (simp add: hash_pair_eq level_upto_simps)
  have "inner_level H (Suc n) ints = do { L \<leftarrow> inner_level H n ints; h \<leftarrow> hash_pair H L (2 * n); Some (L[n := h]) }"
    unfolding inner_level_def ofold_upt_Suc [OF le0] ..
  then show ?case using Suc h level_upto_Suc [OF n] by simp
qed (simp add: inner_level_def level_upto_0)

definition leaves_upto :: "(bytes \<Rightarrow> bytes) \<Rightarrow> bytes list \<Rightarrow> nat \<Rightarrow> nat \<Rightarrow> bytes list \<Rightarrow> bytes list" where
  "leaves_upto H hashes off t ints = map (\<lambda>m. if off \<le> m \<and> m < off + t then H (hashes ! (off + 2 * (m - off)) @ hashes ! (off + 2 * (m - off) + 1)) else ints ! m)
     [0..<length ints]"

lemma leaves_upto_simps: "length (leaves_upto H hashes off t ints) = length ints"
  "m < length ints \<Longrightarrow> leaves_upto H hashes off t ints ! m = (if off \<le> m \<and> m < off + t then H (hashes ! (off + 2 * (m - off)) @ hashes ! (off + 2 * (m - off) + 1)) else ints ! m)"
  by (simp_all add: leaves_upto_def)

lemma leaves_upto_0: "leaves_upto H hashes off 0 ints = ints"
  by (rule nth_equalityI) (auto simp: leaves_upto_simps)

lemma leaves_upto_Suc:
  "off + t < length ints \<Longrightarrow> (leaves_upto H hashes off t ints)[off + t := H (hashes ! (off + 2 * t) @ hashes ! (off + 2 * t + 1))] = leaves_upto H hashes off (Suc t) ints"
  by (rule nth_equalityI) (auto simp: leaves_upto_simps nth_list_update less_Suc_eq)

lemma leaf_level_ok:
  "off + t \<le> length ints \<Longrightarrow> off + 2 * t \<le> length hashes \<Longrightarrow> leaf_level H hashes off (off + t) ints = Some (leaves_upto H hashes off t ints)"
proof (induction t)
  case 0
  then show ?case by (simp add: leaf_level_def leaves_upto_0)
next
  case (Suc t)
  have i: "2 * (off + t) - off = off + 2 * t" by simp
  have h: "hash_pair H hashes (off + 2 * t) = Some (H (hashes ! (off + 2 * t) @ hashes ! (off + 2 * t + 1)))" using Suc.prems by (simp add: hash_pair_eq)
  have "leaf_level H hashes off (off + Suc t) ints = do { L \<leftarrow> leaf_level H hashes off (off + t) ints; h \<leftarrow> hash_pair H hashes (off + 2 * t); Some (L[off + t := h]) }"
    unfolding leaf_level_def add_Suc_right by (simp only: ofold_upt_Suc le_add1 i)
  then show ?case using Suc h leaves_upto_Suc [of off t ints H hashes] by simp
qed

lemma leaf_branch_ok:
  assumes "off + t \<le> length ints" "off + 2 * t \<le> length hashes"
  shows "leaf_branch H hashes off (off + t) ((idx, br, path), ints) =
    Some (if off \<le> idx \<and> idx < off + 2 * t then (off + (idx - off) div 2, br @ [hashes ! (off + sib (idx - off))], push_bit 1 path OR (if even (idx - off) then 0 else 1))
      else (idx, br, path), leaves_upto H hashes off t ints)"
  using assms
proof (induction t)
  case 0
  then show ?case by (simp add: leaf_branch_def leaves_upto_0)
next
  case (Suc t)
  let ?s = "\<lambda>t. if off \<le> idx \<and> idx < off + 2 * t then (off + (idx - off) div 2, br @ [hashes ! (off + sib (idx - off))], push_bit 1 path OR (if even (idx - off) then 0 else 1))
      else (idx, br, path)"
  let ?L = "leaves_upto H hashes off t ints"
  have i: "2 * (off + t) - off = off + 2 * t" by simp
  have h: "hash_pair H hashes (off + 2 * t) = Some (H (hashes ! (off + 2 * t) @ hashes ! (off + 2 * t + 1)))" using Suc.prems by (simp add: hash_pair_eq)
  consider "idx < off" | "off \<le> idx" "idx < off + 2 * t" | "idx = off + 2 * t" | "idx = off + 2 * t + 1" | "off + 2 * t + 2 \<le> idx" by linarith
  then have v: "visit_branch hashes (off + 2 * t) (off + t) (?s t) = Some (?s (Suc t))"
    by cases (use Suc.prems in \<open>auto simp: visit_branch_def sib_def\<close>)
  have "leaf_branch H hashes off (off + Suc t) ((idx, br, path), ints) = do { (s, L) \<leftarrow> leaf_branch H hashes off (off + t) ((idx, br, path), ints);
      s \<leftarrow> visit_branch hashes (off + 2 * t) (off + t) s; h \<leftarrow> hash_pair H hashes (off + 2 * t); Some (s, L[off + t := h]) }"
    unfolding leaf_branch_def add_Suc_right by (simp only: ofold_upt_Suc le_add1 i case_prod_beta')
  also have "leaf_branch H hashes off (off + t) ((idx, br, path), ints) = Some (?s t, ?L)" using Suc by simp
  also have "do { (s, L) \<leftarrow> Some (?s t, ?L); s \<leftarrow> visit_branch hashes (off + 2 * t) (off + t) s; h \<leftarrow> hash_pair H hashes (off + 2 * t); Some (s, L[off + t := h]) }
      = Some (?s (Suc t), leaves_upto H hashes off (Suc t) ints)"
  proof -
    have "off + t < length ints" using Suc.prems by simp
    then show ?thesis unfolding bind.bind_lunit split_conv v h by (simp only: leaves_upto_Suc)
  qed
  finally show ?case .
qed

section \<open>The root\<close>

text \<open>The root of a complete binary tree of depth \<open>m\<close>, defined from the top.\<close>

primrec mroot :: "(bytes \<Rightarrow> bytes) \<Rightarrow> nat \<Rightarrow> bytes list \<Rightarrow> bytes" where
  "mroot H 0 hs = hs ! 0"
| "mroot H (Suc m) hs = H (mroot H m (take (2 ^ m) hs) @ mroot H m (drop (2 ^ m) hs))"

definition level :: "(bytes \<Rightarrow> bytes) \<Rightarrow> bytes list \<Rightarrow> bytes list" where
  "level H hs = map (\<lambda>i. H (hs ! (2 * i) @ hs ! (2 * i + 1))) [0..<length hs div 2]"

lemma level_take: "2 * n \<le> length hs \<Longrightarrow> level H (take (2 * n) hs) = take n (level H hs)"
  by (rule nth_equalityI) (auto simp: level_def)

lemma level_drop: "2 * n \<le> length hs \<Longrightarrow> level H (drop (2 * n) hs) = drop n (level H hs)"
  by (rule nth_equalityI) (auto simp: level_def algebra_simps)

lemma mroot_level: "length hs = 2 ^ Suc m \<Longrightarrow> mroot H (Suc m) hs = mroot H m (level H hs)"
proof (induction m arbitrary: hs)
  case 0
  then show ?case by (simp add: level_def)
next
  case (Suc m)
  have t: "mroot H (Suc m) (take (2 ^ Suc m) hs) = mroot H m (take (2 ^ m) (level H hs))"
    using Suc.IH [of "take (2 ^ Suc m) hs"] level_take [of "2 ^ m" hs H] Suc.prems by simp
  have d: "mroot H (Suc m) (drop (2 ^ Suc m) hs) = mroot H m (drop (2 ^ m) (level H hs))"
    using Suc.IH [of "drop (2 ^ Suc m) hs"] level_drop [of "2 ^ m" hs H] Suc.prems by simp
  show ?case unfolding mroot.simps(2) [of H "Suc m"] mroot.simps(2) [of H m "level H hs"] t d ..
qed

lemma take_level_upto: "2 * n \<le> length ints \<Longrightarrow> take n (level_upto H n ints) = level H (take (2 * n) ints)"
  by (rule nth_equalityI) (auto simp: level_def level_upto_simps)

lemma tree_levels_ok:
  "length ints = N \<Longrightarrow> 2 ^ Suc m \<le> N \<Longrightarrow> \<exists>L. tree_levels H (2 ^ Suc m) ints = Some L \<and> length L = N \<and> H (L ! 0 @ L ! 1) = mroot H (Suc m) (take (2 ^ Suc m) ints)"
proof (induction m arbitrary: ints)
  case 0
  then show ?case by (simp add: tree_levels.simps)
next
  case (Suc m)
  have e: "(2::nat) ^ Suc (Suc m) div 2 = 2 ^ Suc m" "(2::nat) < 2 ^ Suc (Suc m)" using one_less_power [of "2::nat" "Suc m"] by simp_all
  have "tree_levels H (2 ^ Suc (Suc m)) ints = tree_levels H (2 ^ Suc m) (level_upto H (2 ^ Suc m) ints)"
    using inner_level_ok [of "2 ^ Suc m" ints H] Suc.prems e by (subst tree_levels.simps) simp
  moreover obtain L where L: "tree_levels H (2 ^ Suc m) (level_upto H (2 ^ Suc m) ints) = Some L" "length L = N"
    "H (L ! 0 @ L ! 1) = mroot H (Suc m) (take (2 ^ Suc m) (level_upto H (2 ^ Suc m) ints))"
    using Suc.IH [of "level_upto H (2 ^ Suc m) ints"] Suc.prems by (auto simp: level_upto_simps)
  moreover have "take (2 ^ Suc m) (level_upto H (2 ^ Suc m) ints) = level H (take (2 ^ Suc (Suc m)) ints)"
    using take_level_upto [of "2 ^ Suc m" ints H] Suc.prems by simp
  moreover have "mroot H (Suc (Suc m)) (take (2 ^ Suc (Suc m)) ints) = mroot H (Suc m) (level H (take (2 ^ Suc (Suc m)) ints))"
    using Suc.prems by (intro mroot_level) simp
  ultimately show ?case by (intro exI [of _ L]) (simp del: mroot.simps power_Suc)
qed

section \<open>Climbing a branch\<close>

definition path_bits :: "nat \<Rightarrow> u32 \<Rightarrow> bool list" where
  "path_bits depth path = map (\<lambda>d. bit path (depth - d - 1)) [0..<depth]"

definition climb_input :: "bytes \<Rightarrow> bool \<times> bytes \<Rightarrow> bytes" where
  "climb_input h = (\<lambda>(b, s). if b then s @ h else h @ s)"

primrec climb :: "(bytes \<Rightarrow> bytes) \<Rightarrow> bytes \<Rightarrow> (bool \<times> bytes) list \<Rightarrow> bytes" where
  "climb H h [] = h"
| "climb H h (z # zs) = climb H (H (climb_input h z)) zs"

lemma climb_snoc: "climb H h (zs @ [z]) = H (climb_input (climb H h zs) z)"
  by (induction zs arbitrary: h) simp_all

lemma path_bits_simps: "length (path_bits n p) = n" "d < n \<Longrightarrow> path_bits n p ! d = bit p (n - d - 1)"
  by (simp_all add: path_bits_def)

lemma path_bits_snoc:
  assumes "Suc n \<le> 32"
  shows "path_bits (Suc n) (push_bit 1 p OR (if c then 0 else 1)) = path_bits n p @ [\<not> c]"
proof (rule nth_equalityI)
  fix d assume d: "d < length (path_bits (Suc n) (push_bit 1 p OR (if c then 0 else 1)))"
  show "path_bits (Suc n) (push_bit 1 p OR (if c then 0 else 1)) ! d = (path_bits n p @ [\<not> c]) ! d"
  proof (cases "d = n")
    case True
    then show ?thesis by (simp add: path_bits_simps nth_append bit_simps bit_0 even_or_iff)
  next
    case False
    then have "d < n" using d by (simp add: path_bits_simps)
    then have "Suc n - d - 1 = Suc (n - d - 1)" "Suc (n - d - 1) < 32" using assms by simp_all
    then show ?thesis using \<open>d < n\<close> by (simp add: path_bits_simps nth_append bit_simps del: push_bit_Suc One_nat_def)
  qed
qed (simp add: path_bits_simps)

lemma path_bit: "drop_bit k path AND 1 \<noteq> 0 \<longleftrightarrow> bit path k" for path :: u32
  by (simp add: bit_iff_odd_drop_bit and_one_eq odd_iff_mod_2_eq_one)

lemma tree_branch_hash_ok:
  assumes "depth \<le> 32" "depth \<le> length br"
  shows "tree_branch_hash H h br depth path = Some (climb H h (zip (path_bits depth path) br))"
proof -
  let ?z = "zip (path_bits depth path) br"
  let ?f = "\<lambda>d partial. if depth - d - 1 < 32 then do { b \<leftarrow> vec_at br d;
       Some (H (if drop_bit (depth - d - 1) path AND 1 \<noteq> 0 then b @ partial else partial @ b)) } else None"
  have "n \<le> depth \<Longrightarrow> ofold ?f [0..<n] h = Some (climb H h (take n ?z))" for n
  proof (induction n)
    case (Suc n)
    have n: "n < depth" "n < length ?z" using Suc.prems assms by (simp_all add: path_bits_simps)
    have z: "?z ! n = (bit path (depth - n - 1), br ! n)" using n by (simp add: path_bits_simps)
    have f: "?f n a = Some (H (climb_input a (?z ! n)))" for a
      unfolding z path_bit using n assms by (simp add: climb_input_def)
    have "ofold ?f [0..<Suc n] h = ofold ?f [0..<n] h \<bind> ?f n" by (rule ofold_upt_Suc) simp
    also have "\<dots> = ?f n (climb H h (take n ?z))" using Suc by simp
    also have "\<dots> = Some (climb H h (take (Suc n) ?z))" unfolding f take_Suc_conv_app_nth [OF n(2)] climb_snoc ..
    finally show ?case .
  qed simp
  from this [of depth] show ?thesis using assms by (simp add: tree_branch_hash_def path_bits_simps)
qed

definition on_path :: "(bytes \<Rightarrow> bytes) \<Rightarrow> bytes \<Rightarrow> nat \<times> bytes list \<times> u32 \<Rightarrow> bytes list \<Rightarrow> bool" where
  "on_path H h = (\<lambda>(idx, br, path) ints. ints ! idx = climb H h (zip (path_bits (length br) path) br))"

lemma on_path_step:
  assumes "on_path H h (idx, br, path) ints" "length br < 32"
    and "L ! idx' = H (if c then ints ! idx @ s else s @ ints ! idx)"
  shows "on_path H h (idx', br @ [s], push_bit 1 path OR (if c then 0 else 1)) L"
proof -
  have "zip (path_bits (Suc (length br)) (push_bit 1 path OR (if c then 0 else 1))) (br @ [s]) = zip (path_bits (length br) path) br @ [(\<not> c, s)]"
    using assms(2) by (subst path_bits_snoc) (simp_all add: path_bits_simps)
  then show ?thesis using assms by (simp add: on_path_def climb_snoc climb_input_def)
qed

lemma sib_pair: "H (ints ! (2 * (i div 2)) @ ints ! (2 * (i div 2) + 1)) = H (if even i then ints ! i @ ints ! sib i else ints ! sib i @ ints ! i)"
  by (auto simp: sib_def elim!: oddE)

lemma path_level: "fold (\<lambda>j. visit (2 * j) j) [0..<n] (idx, path) = (if idx < 2 * n then (idx div 2, push_bit 1 path OR (if even idx then 0 else 1)) else (idx, path))"
proof (induction n)
  case (Suc n)
  consider "idx < 2 * n" | "idx = 2 * n" | "idx = 2 * n + 1" | "2 * n + 2 \<le> idx" by linarith
  then show ?case using Suc by cases (auto simp: visit_def)
qed simp

lemma path_leaves: "fold (\<lambda>j. visit (2 * j - off) j) [off..<off + t] (idx, path) =
    (if off \<le> idx \<and> idx < off + 2 * t then (off + (idx - off) div 2, push_bit 1 path OR (if even (idx - off) then 0 else 1)) else (idx, path))"
proof (induction t)
  case (Suc t)
  have i: "2 * (off + t) - off = off + 2 * t" by simp
  consider "idx < off" | "off \<le> idx" "idx < off + 2 * t" | "idx = off + 2 * t" | "idx = off + 2 * t + 1" | "off + 2 * t + 2 \<le> idx" by linarith
  then show ?case using Suc unfolding add_Suc_right by cases (auto simp: visit_def i)
qed auto

lemma branch_levels_ok:
  "length ints = N \<Longrightarrow> 2 ^ Suc m \<le> N \<Longrightarrow> idx < 2 ^ Suc m \<Longrightarrow> on_path H h (idx, br, path) ints \<Longrightarrow> length br + m \<le> 32 \<Longrightarrow>
   \<exists>idx' br' path' L. branch_levels H (2 ^ Suc m) ((idx, br, path), ints) = Some ((idx', br', path'), L) \<and> tree_levels H (2 ^ Suc m) ints = Some L \<and>
     path_levels (2 ^ Suc m) (idx, path) = (idx', path') \<and> idx' < 2 \<and> on_path H h (idx', br', path') L \<and> length br' = length br + m \<and> length L = N"
proof (induction m arbitrary: ints idx br path)
  case 0
  then show ?case by (simp add: branch_levels.simps tree_levels.simps path_levels.simps)
next
  case (Suc m)
  let ?L = "level_upto H (2 ^ Suc m) ints"
  let ?br = "br @ [ints ! sib idx]" and ?path = "push_bit 1 path OR (if even idx then 0 else 1)"
  have e: "(2::nat) ^ Suc (Suc m) div 2 = 2 ^ Suc m" "(2::nat) < 2 ^ Suc (Suc m)" using one_less_power [of "2::nat" "Suc m"] by simp_all
  have i: "idx < 2 * 2 ^ Suc m" "2 * 2 ^ Suc m \<le> length ints" using Suc.prems by simp_all
  have b: "branch_levels H (2 ^ Suc (Suc m)) ((idx, br, path), ints) = branch_levels H (2 ^ Suc m) ((idx div 2, ?br, ?path), ?L)"
    using inner_branch_ok [OF i(2), of H idx br path] i(1) e by (subst branch_levels.simps) (simp del: power_Suc)
  have t: "tree_levels H (2 ^ Suc (Suc m)) ints = tree_levels H (2 ^ Suc m) ?L"
    using inner_level_ok [OF i(2), of H] e by (subst tree_levels.simps) (simp del: power_Suc)
  have p: "path_levels (2 ^ Suc (Suc m)) (idx, path) = path_levels (2 ^ Suc m) (idx div 2, ?path)"
    using path_level [of "2 ^ Suc m" idx path] i(1) e by (subst path_levels.simps) (simp del: power_Suc)
  have "?L ! (idx div 2) = H (if even idx then ints ! idx @ ints ! sib idx else ints ! sib idx @ ints ! idx)"
  proof -
    have "idx div 2 < 2 ^ Suc m" using i(1) by simp
    then show ?thesis using i(2) sib_pair [of H ints idx] by (simp add: level_upto_simps del: power_Suc)
  qed
  then have o: "on_path H h (idx div 2, ?br, ?path) ?L" using Suc.prems by (intro on_path_step) simp_all
  have l: "length ?L = N" "2 ^ Suc m \<le> N" "idx div 2 < 2 ^ Suc m" "length ?br + m \<le> 32" using Suc.prems by (simp_all add: level_upto_simps)
  from Suc.IH [OF l(1,2,3) o l(4)] show ?case unfolding b t p by simp
qed

section \<open>The tree of a list of hashes\<close>

lemma level_leaves:
  assumes "length ints = off + t" "take off ints = take off hashes" "length hashes = off + 2 * t"
  shows "leaves_upto H hashes off t ints = take off hashes @ level H (drop off hashes)"
proof (rule nth_equalityI)
  fix m assume "m < length (leaves_upto H hashes off t ints)"
  then have m: "m < off + t" using assms(1) by (simp add: leaves_upto_simps)
  show "leaves_upto H hashes off t ints ! m = (take off hashes @ level H (drop off hashes)) ! m"
  proof (cases "m < off")
    case True
    then have "ints ! m = hashes ! m" using arg_cong [OF assms(2), of "\<lambda>l. l ! m"] by simp
    then show ?thesis using True m assms by (simp add: leaves_upto_simps nth_append)
  next
    case False
    then have "m - off < t" using m by simp
    then show ?thesis using False m assms by (simp add: leaves_upto_simps nth_append level_def)
  qed
qed (use assms in \<open>simp add: leaves_upto_simps level_def\<close>)

lemma tree_hash_cnt_pow:
  assumes "1 \<le> m" "m \<le> 62" "2 ^ m < num" "num \<le> 2 * 2 ^ m"
  shows "\<exists>c. tree_hash_cnt (word_of_nat num) = Some c \<and> unat c = 2 ^ m"
proof -
  have "(2::nat) ^ 1 \<le> 2 ^ m" "(2::nat) ^ m \<le> 2 ^ 62" using assms(1,2) by (intro power_increasing; simp)+
  then have n: "3 \<le> num" "num \<le> 2 ^ 63" using assms by simp_all
  then have u: "unat (word_of_nat num :: u64) = num" by (simp add: unat_of_nat)
  obtain l where l: "l \<le> 62" "tree_hash_cnt (word_of_nat num) = Some (word_of_nat (2 ^ l))" "2 ^ l < num" "num \<le> 2 * 2 ^ l"
    using tree_hash_cnt_ok [of "word_of_nat num"] n u by auto
  have "(2::nat) ^ l < 2 ^ Suc m" "(2::nat) ^ m < 2 ^ Suc l" using l assms by simp_all
  then have "l < Suc m" "m < Suc l" by (simp_all only: power_strict_increasing_iff [of "2::nat"] one_less_numeral_iff semiring_norm)
  then have "l = m" by simp
  moreover have "unat (word_of_nat (2 ^ l) :: u64) = 2 ^ l" using l by (intro unat_pow) simp
  ultimately show ?thesis using l by blast
qed

lemma pow_leaves:
  assumes "2 ^ m < num" "num \<le> 2 * 2 ^ m"
  obtains off t where "2 * 2 ^ m - num = off" "(2::nat) ^ m = off + t" "num = off + 2 * t" "num - 2 ^ m = t"
  using that [of "2 * 2 ^ m - num" "num - 2 ^ m"] assms by simp

lemma tree_hash_root:
  assumes "m \<le> 62" "2 ^ m < length hashes" "length hashes \<le> 2 * 2 ^ m"
  shows "tree_hash H hashes = Some (mroot H m (take (2 * 2 ^ m - length hashes) hashes @ level H (drop (2 * 2 ^ m - length hashes) hashes)))"
proof (cases m)
  case 0
  then have "length hashes = 2" using assms by simp
  then show ?thesis using 0 by (simp add: tree_hash_def hash_pair_eq level_def)
next
  case (Suc l)
  obtain c where c: "tree_hash_cnt (word_of_nat (length hashes)) = Some c" "unat c = 2 ^ m" using tree_hash_cnt_pow assms Suc by fastforce
  obtain off t where o: "2 * 2 ^ m - length hashes = off" "(2::nat) ^ m = off + t" "length hashes = off + 2 * t" "length hashes - 2 ^ m = t"
    using pow_leaves assms(2,3) by blast
  have n: "2 < length hashes" using assms(2) one_le_power [of "2::nat" l] unfolding Suc power_Suc by linarith
  let ?I = "take off hashes @ replicate t (replicate 32 0)" and ?J = "take off hashes @ level H (drop off hashes)"
  have J: "leaf_level H hashes off (off + t) ?I = Some ?J"
    using leaf_level_ok [of off t ?I hashes H] level_leaves [of ?I off t hashes H] o by simp
  have l: "length ?J = 2 ^ m" using o by (simp add: level_def)
  obtain L where L: "tree_levels H (2 ^ m) ?J = Some L" "length L = 2 ^ m" "H (L ! 0 @ L ! 1) = mroot H m (take (2 ^ m) ?J)"
    using tree_levels_ok [of ?J "2 ^ m" l H] l Suc by auto
  have "1 < length L" unfolding L(2) Suc by (rule one_less_power) simp_all
  moreover have "take (2 ^ m) ?J = ?J" using l by (intro take_all) (simp only: order_refl)
  ultimately have "hash_pair H L 0 = Some (mroot H m ?J)" using L(3) hash_pair_eq [of 0 L H] by (simp only: add_0)
  moreover have "hashes \<noteq> []" using n by auto
  ultimately show ?thesis using n c o(1,4) J L(1) unfolding tree_hash_def Let_def by (simp add: o(2) [symmetric])
qed

lemma find_index_in: "hash \<in> set hs \<Longrightarrow> \<exists>k < length hs. find_index hash hs i = i + k \<and> hs ! k = hash"
proof (induction hs arbitrary: i)
  case (Cons h hs)
  show ?case
  proof (cases "hash = h")
    case False
    then obtain k where "k < length hs" "find_index hash hs (i + 1) = i + 1 + k" "hs ! k = hash" using Cons.IH [of "i + 1"] Cons.prems by auto
    then show ?thesis using False by (intro exI [of _ "Suc k"]) simp
  qed auto
qed simp

lemma find_index_notin: "hash \<notin> set hs \<Longrightarrow> find_index hash hs i = i + length hs"
  by (induction hs arbitrary: i) auto

lemma tree_branch_notin: "hash \<notin> set hashes \<Longrightarrow> tree_branch H hashes hash = Some None"
  using find_index_notin [of hash hashes 0] by (simp add: tree_branch_def Let_def)

lemma leaf_on_path:
  assumes "length ints = off + t" "take off ints = take off hashes" "length hashes = off + 2 * t" "idx < length hashes"
  obtains idx' br path where "leaf_branch H hashes off (off + t) ((idx, [], 0), ints) = Some ((idx', br, path), leaves_upto H hashes off t ints)"
    "fold (\<lambda>j. visit (2 * j - off) j) [off..<off + t] (idx, 0) = (idx', path)" "idx' < off + t" "length br \<le> 1"
    "on_path H (hashes ! idx) (idx', br, path) (leaves_upto H hashes off t ints)"
proof (cases "idx < off")
  case True
  then have "ints ! idx = hashes ! idx" using arg_cong [OF assms(2), of "\<lambda>l. l ! idx"] by simp
  then have "on_path H (hashes ! idx) (idx, [], 0) (leaves_upto H hashes off t ints)" using True assms by (simp add: on_path_def leaves_upto_simps)
  then show ?thesis using that [of idx "[]" 0] leaf_branch_ok [of off t ints hashes H idx "[]" 0] path_leaves [of off t idx 0] True assms by simp
next
  case False
  let ?i = "idx - off"
  let ?br = "[hashes ! (off + sib ?i)]" and ?path = "push_bit 1 0 OR (if even ?i then 0 else 1) :: u32" and ?L = "leaves_upto H hashes off t ints"
  have i: "?i div 2 < t" using False assms by (simp add: less_mult_imp_div_less)
  have "?L ! (off + ?i div 2) = H (drop off hashes ! (2 * (?i div 2)) @ drop off hashes ! (2 * (?i div 2) + 1))"
    using i assms by (simp add: leaves_upto_simps)
  also have "\<dots> = H (if even ?i then hashes ! idx @ hashes ! (off + sib ?i) else hashes ! (off + sib ?i) @ hashes ! idx)"
    unfolding sib_pair using False assms by simp
  finally have L: "?L ! (off + ?i div 2) = H (if even ?i then hashes ! idx @ hashes ! (off + sib ?i) else hashes ! (off + sib ?i) @ hashes ! idx)" .
  have "on_path H (hashes ! idx) (idx, [], 0) hashes" by (simp add: on_path_def)
  from on_path_step [OF this _ L] have "on_path H (hashes ! idx) (off + ?i div 2, ?br, ?path) ?L" by simp
  then show ?thesis
    using that [of "off + ?i div 2" ?br ?path] leaf_branch_ok [of off t ints hashes H idx "[]" 0] path_leaves [of off t idx 0] False i assms by simp
qed

lemma tree_branch_climbs:
  assumes "hash \<in> set hashes" "length hashes \<le> 2 ^ 32"
  shows "\<exists>branch path root. tree_branch H hashes hash = Some (Some (branch, path)) \<and> tree_hash H hashes = Some root \<and>
    tree_path (length hashes) (find_index hash hashes 0) = Some (Some path) \<and> length branch \<le> 32 \<and>
    climb H hash (zip (path_bits (length branch) path) branch) = root"
proof -
  obtain k where k: "k < length hashes" "find_index hash hashes 0 = k" "hashes ! k = hash" using find_index_in [OF assms(1), of 0] by auto
  consider "length hashes = 1" | "length hashes = 2" | "3 \<le> length hashes" using k(1) by linarith
  then show ?thesis
  proof cases
    case 1
    then show ?thesis using k by (simp add: tree_branch_def tree_hash_def tree_path_def)
  next
    case 2
    then have "k = 0 \<or> k = 1" using k by auto
    then show ?thesis using 2 k by (auto simp: tree_branch_def tree_hash_def tree_path_def hash_pair_eq path_bits_def climb_input_def)
  next
    case 3
    then have ne: "hashes \<noteq> []" by auto
    have u: "unat (word_of_nat (length hashes) :: u64) = length hashes" using assms(2) by (simp add: unat_of_nat)
    obtain m where m: "1 \<le> m" "tree_hash_cnt (word_of_nat (length hashes)) = Some (word_of_nat (2 ^ m))" "2 ^ m < length hashes" "length hashes \<le> 2 * 2 ^ m" "m \<le> 62"
      using tree_hash_cnt_ok [of "word_of_nat (length hashes)"] 3 assms(2) u by auto
    have c: "unat (word_of_nat (2 ^ m) :: u64) = 2 ^ m" using m(5) by (intro unat_pow) simp
    have "(2::nat) ^ m < 2 ^ 32" using m(3) assms(2) by linarith
    then have m32: "m < 32" by (simp only: power_strict_increasing_iff [of "2::nat"] one_less_numeral_iff semiring_norm)
    obtain l where l: "m = Suc l" using m(1) by (cases m) auto
    obtain off t where o: "2 * 2 ^ m - length hashes = off" "(2::nat) ^ m = off + t" "length hashes = off + 2 * t" "length hashes - 2 ^ m = t"
      using pow_leaves m(3,4) by blast
    let ?I = "take off hashes @ replicate t (replicate 32 0)"
    let ?J = "leaves_upto H hashes off t ?I"
    have I: "length ?I = off + t" "take off ?I = take off hashes" using o by simp_all
    obtain i br path where b: "leaf_branch H hashes off (off + t) ((k, [], 0), ?I) = Some ((i, br, path), ?J)"
      "fold (\<lambda>j. visit (2 * j - off) j) [off..<off + t] (k, 0) = (i, path)" "i < off + t" "length br \<le> 1" "on_path H hash (i, br, path) ?J"
      by (rule leaf_on_path [OF I o(3) k(1), of H]) (simp only: k(3))
    have J: "leaf_level H hashes off (off + t) ?I = Some ?J" using leaf_level_ok [of off t ?I hashes H] o by simp
    have lJ: "length ?J = 2 ^ Suc l" "2 ^ Suc l \<le> (2::nat) ^ Suc l" "i < 2 ^ Suc l" "length br + l \<le> 32" using o b(3,4) l m32 by (simp_all add: leaves_upto_simps)
    obtain i' br' path' L where L: "branch_levels H (2 ^ m) ((i, br, path), ?J) = Some ((i', br', path'), L)" "tree_levels H (2 ^ m) ?J = Some L"
      "path_levels (2 ^ m) (i, path) = (i', path')" "i' < 2" "on_path H hash (i', br', path') L" "length br' = length br + l" "length L = 2 ^ Suc l"
      using branch_levels_ok [OF lJ(1,2,3) b(5) lJ(4)] unfolding l by blast
    let ?br = "br' @ [L ! sib i']" and ?path = "push_bit 1 path' OR (if even i' then 0 else 1)" and ?root = "H (L ! 0 @ L ! 1)"
    have i': "i' = 0 \<or> i' = 1" "1 < length L" "0 < length L" using L(4) one_less_power [of "2::nat" "Suc l"] unfolding L(7) by auto
    have s: "length br' < 32" "length ?br \<le> 32" using L(6) b(4) l m32 by simp_all
    have "on_path H hash (0, ?br, ?path) [?root]" using L(5) s(1) i' by (intro on_path_step) (auto simp: sib_def)
    then have climb: "climb H hash (zip (path_bits (length ?br) ?path) ?br) = ?root" by (simp add: on_path_def)
    have v: "visit_branch L 0 0 (i', br', path') = Some (0, ?br, ?path)" "visit 0 0 (i', path') = (0, ?path)" using i' by (auto simp: visit_branch_def visit_def sib_def)
    have "tree_branch H hashes hash = Some (Some (?br, ?path))"
      using 3 ne k m(2) c o(1,4) b(1) L(1) v(1) unfolding tree_branch_def Let_def by (simp add: o(2) [symmetric])
    moreover have "tree_hash H hashes = Some ?root"
      using 3 ne m(2) c o(1,4) J L(2) hash_pair_eq [of 0 L H] i'(2) unfolding tree_hash_def Let_def by (simp add: o(2) [symmetric])
    moreover have "tree_path (length hashes) (find_index hash hashes 0) = Some (Some ?path)"
      using 3 ne k(2) m(2) c o(1) b(2) L(3) v(2) unfolding tree_path_def Let_def by (simp add: o(2) [symmetric])
    ultimately show ?thesis using climb s(2) by blast
  qed
qed

lemma climb_collision:
  assumes "length zs = length zs'" "map fst zs = map fst zs'" "climb H h zs = climb H h' zs'" "h \<noteq> h'" "length h = 32" "length h' = 32"
    "\<And>x. length (H x) = 32"
  shows "\<exists>d < length zs. let x = climb_input (climb H h (take d zs)) (zs ! d); y = climb_input (climb H h' (take d zs')) (zs' ! d) in x \<noteq> y \<and> H x = H y"
  using assms(1-6)
proof (induction zs zs' arbitrary: h h' rule: list_induct2)
  case (Cons z zs z' zs')
  let ?x = "climb_input h z" and ?y = "climb_input h' z'"
  have "?x \<noteq> ?y" using Cons.prems by (auto simp: climb_input_def split: prod.splits if_splits)
  show ?case
  proof (cases "H ?x = H ?y")
    case True
    then show ?thesis using \<open>?x \<noteq> ?y\<close> by (intro exI [of _ 0]) simp
  next
    case False
    have "\<exists>d < length zs. let x = climb_input (climb H (H ?x) (take d zs)) (zs ! d); y = climb_input (climb H (H ?y) (take d zs')) (zs' ! d) in x \<noteq> y \<and> H x = H y"
      using Cons.prems False assms(7) by (intro Cons.IH) simp_all
    then obtain d where "d < length zs" "let x = climb_input (climb H (H ?x) (take d zs)) (zs ! d); y = climb_input (climb H (H ?y) (take d zs')) (zs' ! d) in x \<noteq> y \<and> H x = H y" by blast
    then show ?thesis by (intro exI [of _ "Suc d"]) simp
  qed
qed simp

text \<open>The string \<open>tree_branch_hash\<close> hashes in step \<open>d\<close>.\<close>

definition branch_input :: "(bytes \<Rightarrow> bytes) \<Rightarrow> bytes \<Rightarrow> bytes list \<Rightarrow> nat \<Rightarrow> u32 \<Rightarrow> nat \<Rightarrow> bytes" where
  "branch_input H h branch depth path d = (let zs = zip (path_bits depth path) branch in climb_input (climb H h (take d zs)) (zs ! d))"

section \<open>Properties\<close>

text \<open>C40: the loop of \<open>tree_hash_cnt\<close> ends exactly for the counts up to \<open>2^63\<close>, for every larger one the power is shifted out of
  the 64-bit word and the loop runs forever; and for a count of at least 3 it returns the largest power of two below the count,
  so that the count is at most twice the result.\<close>

theorem tree_hash_cnt_terminates:
  "(tree_hash_cnt num \<noteq> None \<longleftrightarrow> unat num \<le> 2 ^ 63) \<and>
   (3 \<le> unat num \<and> unat num \<le> 2 ^ 63 \<longrightarrow>
     (\<exists>m cnt. 1 \<le> m \<and> tree_hash_cnt num = Some cnt \<and> unat cnt = 2 ^ m \<and> unat cnt < unat num \<and> unat num \<le> 2 * unat cnt))"
proof (intro conjI impI)
  show "tree_hash_cnt num \<noteq> None \<longleftrightarrow> unat num \<le> 2 ^ 63"
  proof (cases "unat num \<le> 2 ^ 63")
    case True
    then show ?thesis using pow_loop_returns [OF True, of 1 2] by (auto simp: tree_hash_cnt_def)
  next
    case False
    then show ?thesis using pow_loop_diverges [of num] by (simp add: tree_hash_cnt_def)
  qed
next
  assume n: "3 \<le> unat num \<and> unat num \<le> 2 ^ 63"
  then obtain m where m: "1 \<le> m" "m \<le> 62" "tree_hash_cnt num = Some (word_of_nat (2 ^ m))" "2 ^ m < unat num" "unat num \<le> 2 * 2 ^ m"
    using tree_hash_cnt_ok by blast
  have u: "unat (word_of_nat (2 ^ m) :: u64) = 2 ^ m" using m(2) by (intro unat_pow) simp
  show "\<exists>m cnt. 1 \<le> m \<and> tree_hash_cnt num = Some cnt \<and> unat cnt = 2 ^ m \<and> unat cnt < unat num \<and> unat num \<le> 2 * unat cnt"
    by (intro exI [of _ m] exI [of _ "word_of_nat (2 ^ m)"]) (simp only: u m simp_thms)
qed

theorem tree_hash_cnt_terminates_witness: "\<exists>cnt. tree_hash_cnt 514 = Some cnt \<and> unat cnt < 514 \<and> 514 \<le> 2 * unat cnt"
  using tree_hash_cnt_terminates [of 514] by auto

text \<open>C37: \<open>tree_hash\<close> of more than \<open>2^m\<close> and at most \<open>2^(m+1)\<close> hashes is the root of the complete binary tree of depth \<open>m\<close> whose
  leaves are the first \<open>2^(m+1) - count\<close> hashes as they are and the hashes of the remaining ones by pairs, for any hash function; in particular
  the levels computed in place in the buffer never read an entry that was already overwritten.\<close>

theorem tree_hash_is_merkle_root:
  assumes "m \<le> 62" "2 ^ m < length hashes" "length hashes \<le> 2 ^ Suc m"
  shows "tree_hash H hashes = Some (mroot H m (take (2 ^ Suc m - length hashes) hashes @ level H (drop (2 ^ Suc m - length hashes) hashes)))"
  using tree_hash_root [of m hashes H] assms by simp

theorem tree_hash_is_merkle_root_witness:
  "tree_hash (\<lambda>x. take 2 (rev x)) [[1, 2], [3, 4], [5, 6]] =
     Some (mroot (\<lambda>x. take 2 (rev x)) 1 (take 1 [[1, 2], [3, 4], [5, 6]] @ level (\<lambda>x. take 2 (rev x)) (drop 1 [[1, 2], [3, 4], [5, 6]])))"
  using tree_hash_is_merkle_root [of 1 "[[1, 2], [3, 4], [5, 6]]" "\<lambda>x. take 2 (rev x)"] by simp

text \<open>C38: for every hash of a list of at most \<open>2^32\<close>, \<open>tree_branch\<close> returns a branch of at most 32 hashes and a path, \<open>tree_path\<close> of the
  position of the hash gives the same path, and \<open>is_branch_in_tree\<close> accepts the hash with this branch against the root that
  \<open>tree_hash\<close> computes; for a hash that is not in the list, \<open>tree_branch\<close> returns false.\<close>

theorem tree_branch_verifies:
  assumes "length hashes \<le> 2 ^ 32"
  shows "if hash \<in> set hashes
    then \<exists>branch path root. tree_branch H hashes hash = Some (Some (branch, path)) \<and> length branch \<le> 32 \<and>
      tree_path (length hashes) (find_index hash hashes 0) = Some (Some path) \<and>
      tree_hash H hashes = Some root \<and> is_branch_in_tree H hash root branch (length branch) path = Some True
    else tree_branch H hashes hash = Some None"
proof (cases "hash \<in> set hashes")
  case True
  obtain branch path root where b: "tree_branch H hashes hash = Some (Some (branch, path))" "tree_hash H hashes = Some root"
    "tree_path (length hashes) (find_index hash hashes 0) = Some (Some path)" "length branch \<le> 32"
    "climb H hash (zip (path_bits (length branch) path) branch) = root" using tree_branch_climbs [OF True assms] by blast
  have "is_branch_in_tree H hash root branch (length branch) path = Some True"
    using tree_branch_hash_ok [OF b(4) order_refl, of H hash path] b(5) by (simp add: is_branch_in_tree_def)
  then show ?thesis using True b by auto
next
  case False
  then show ?thesis by (simp add: tree_branch_notin)
qed

theorem tree_branch_verifies_witness:
  "\<exists>branch path root. tree_branch rev [[1], [2], [3], [4], [5]] [4] = Some (Some (branch, path)) \<and> tree_hash rev [[1], [2], [3], [4], [5]] = Some root \<and>
     is_branch_in_tree rev [4] root branch (length branch) path = Some True"
  using tree_branch_verifies [of "[[1], [2], [3], [4], [5]]" "[4]" rev] by auto

text \<open>C39: a branch binds its leaf.  When \<open>is_branch_in_tree\<close> accepts another 32-byte hash at the path that \<open>tree_branch\<close> gives for a hash of
  the list, with any branch of the same depth and against the same root, then the two runs of \<open>tree_branch_hash\<close> hash two different strings
  with equal results in one and the same step: a forged inclusion proof exhibits a collision of the hash function.\<close>

theorem branch_binds_leaf:
  assumes "length hashes \<le> 2 ^ 32" "\<And>x. length (H x) = 32" "length hash = 32" "length hash' = 32" "hash' \<noteq> hash"
    and "tree_branch H hashes hash = Some (Some (branch, path))" "tree_hash H hashes = Some root"
    and "length branch' = length branch" "is_branch_in_tree H hash' root branch' (length branch) path = Some True"
  shows "\<exists>d < length branch. branch_input H hash branch (length branch) path d \<noteq> branch_input H hash' branch' (length branch) path d \<and>
    H (branch_input H hash branch (length branch) path d) = H (branch_input H hash' branch' (length branch) path d)"
proof -
  have "hash \<in> set hashes" using assms(6) tree_branch_notin [of hash hashes H] by auto
  then have b: "length branch \<le> 32" "climb H hash (zip (path_bits (length branch) path) branch) = root"
    using tree_branch_climbs [of hash hashes H] assms(1,6,7) by auto
  let ?zs = "zip (path_bits (length branch) path) branch" and ?zs' = "zip (path_bits (length branch) path) branch'"
  have "climb H hash' ?zs' = root"
    using tree_branch_hash_ok [of "length branch" branch' H hash' path] b(1) assms(8,9) by (simp add: is_branch_in_tree_def)
  then have "\<exists>d < length ?zs. let x = climb_input (climb H hash (take d ?zs)) (?zs ! d); y = climb_input (climb H hash' (take d ?zs')) (?zs' ! d) in x \<noteq> y \<and> H x = H y"
    using b(2) assms by (intro climb_collision) (simp_all add: path_bits_simps)
  then show ?thesis using assms(8) unfolding branch_input_def Let_def by (simp add: path_bits_simps)
qed

theorem branch_binds_leaf_witness:
  "\<exists>d < 1. branch_input (\<lambda>x. replicate 32 0) (replicate 32 1) [replicate 32 2] 1 0 d \<noteq> branch_input (\<lambda>x. replicate 32 0) (replicate 32 3) [replicate 32 4] 1 0 d"
proof -
  let ?H = "\<lambda>x :: bytes. replicate 32 (0 :: u8)" and ?hs = "[replicate 32 1, replicate 32 2 :: bytes]"
  have n: "replicate 32 3 \<noteq> (replicate 32 1 :: bytes)" by simp
  have b: "tree_branch ?H ?hs (replicate 32 1) = Some (Some ([replicate 32 2], 0))" by (simp add: tree_branch_def)
  have r: "tree_hash ?H ?hs = Some (replicate 32 0)" by (simp add: tree_hash_def hash_pair_def)
  have i: "is_branch_in_tree ?H (replicate 32 3) (replicate 32 0) [replicate 32 4] (length [replicate 32 2 :: bytes]) 0 = Some True"
    by (simp add: is_branch_in_tree_def tree_branch_hash_def)
  show ?thesis
    using branch_binds_leaf [of ?hs ?H "replicate 32 1" "replicate 32 3" "[replicate 32 2]" 0 "replicate 32 0" "[replicate 32 4]", OF _ _ _ _ n b r _ i] by auto
qed

end
