(* ===== verification/Spec2Isabelle.thy ===== *)
theory Spec2Isabelle
  imports Difficulty Hard_Fork Block_Weight Scalarmult25519 Varint Tree_Hash
begin

text \<open>
  A verification of parts of the Monero node: the consensus rules that decide which chain is valid, and the elliptic-curve
  arithmetic under its keys and proofs.

  \<^bold>\<open>The program.\<close>  A node receives blocks from its peers, checks each block against the rules in force at its height and
  appends it to the chain it stores in a database.  \<^verbatim>\<open>Blockchain\<close> (\<^verbatim>\<open>src/cryptonote_core/blockchain.cpp\<close>) drives
  this: it asks \<^verbatim>\<open>HardFork\<close> (\<^verbatim>\<open>src/cryptonote_basic/hardfork.cpp\<close>) which rule version a height has, \<^verbatim>\<open>difficulty.cpp\<close>
  for the next difficulty and whether a hash reaches it, \<^verbatim>\<open>cryptonote_basic_impl.cpp\<close> for the coins a block may create,
  and its own members for weight limits, fees and time rules.  Signatures and addresses rest on
  \<^verbatim>\<open>src/crypto/crypto-ops.c\<close>.  The database (\<^verbatim>\<open>BlockchainDB\<close>) is read and written by all of them.

  \<^bold>\<open>Theories and sources.\<close>  The definitions of a theory follow its source file in order and keep its names.
  \<^item> \<^verbatim>\<open>Prelude_Monero\<close>: machine integers as words, little-endian byte strings (\<open>le_nat\<close>), checked vector access, checked signed arithmetic
    (\<open>i32\<close>, \<open>i64\<close>), loops that may fail (\<open>ofold\<close>), and the collection \<open>word_nat\<close>.
  \<^item> \<^verbatim>\<open>Int_Util\<close>: \<^verbatim>\<open>contrib/epee/include/int-util.h\<close>, 128-bit products and quotients from 64-bit words.  They are exact.
  \<^item> \<^verbatim>\<open>Difficulty\<close>: \<^verbatim>\<open>src/cryptonote_basic/difficulty.cpp\<close>.  The hash test decides \<open>hash * difficulty < 2^256\<close>; retargeting is
    the work of the kept window over its time, rounded up; the 64-bit and the 128-bit rules agree; the hexadecimal form is the
    canonical numeral and reads back.
  \<^item> \<^verbatim>\<open>Chain_Db\<close>: the database calls the others use, with the locale of their contract and its interpretation on the model.
  \<^item> \<^verbatim>\<open>Hard_Fork\<close>: \<^verbatim>\<open>hardfork.cpp\<close> and the tables of \<^verbatim>\<open>src/hardforks/hardforks.cpp\<close>.  State \<open>HardFork\<close>, operations as
    functions to options, runs as a step relation.  No reachable state is stuck, the window is that of the chain, the vote selects
    the fork its threshold defines (for windows below \<open>2^32\<close> blocks: the code cuts the threshold to 32 bits, which an example above that bound shows),
    reorganisations rebuild the window; popping blocks does not.
  \<^item> \<^verbatim>\<open>Heap_Order\<close>, \<^verbatim>\<open>Rolling_Median\<close>: \<^verbatim>\<open>contrib/epee/include/rolling_median.h\<close> and \<^verbatim>\<open>median\<close> of \<^verbatim>\<open>misc_language.h\<close>.
    The members are \<^verbatim>\<open>int\<close>s, so the arithmetic on them is checked.  For a capacity that can be allocated, \<open>N < 2^27\<close>, nothing
    overflows and the two-heap structure returns the median of the last \<open>N\<close> items after any insertions.  The order is the parameter of a locale,
    interpreted for both heaps.
  \<^item> \<^verbatim>\<open>Block_Reward\<close>: \<^verbatim>\<open>get_block_reward\<close>.  The reward and its penalty for every median, with the products modulo \<open>2^64\<close>;
    below a median of \<open>2^32\<close> nothing wraps.
  \<^item> \<^verbatim>\<open>Money\<close>: amounts as text in \<^verbatim>\<open>cryptonote_format_utils.cpp\<close>.  Printing and parsing are inverse, rounding is least.
  \<^item> \<^verbatim>\<open>Block_Weight\<close>: the members of \<^verbatim>\<open>Blockchain\<close> for weights, fees, miner transactions, unlock and block times.  The cached long-term median is the
    median whatever happens to the chain between calls; limits and fees have closed forms; the estimate's result
    carries the cause of a failure (\<open>estimate_error\<close>), and one admitted grace period always fails.  Over a run of accepted blocks
    the total of generated coins grows by the rewards and never wraps.
  \<^item> \<^verbatim>\<open>Limb_Arith\<close>, \<^verbatim>\<open>Scalar25519\<close>: \<^verbatim>\<open>sc_*\<close> of \<^verbatim>\<open>crypto-ops.c\<close>.  A sound interval analysis, evaluated per routine, shows that
    no signed 64-bit operation overflows; the results are the canonical residues modulo the group order.
  \<^item> \<^verbatim>\<open>Field25519\<close>, \<^verbatim>\<open>Field_Power\<close>: \<^verbatim>\<open>fe_*\<close>.  Limb bounds are kept and values are right modulo \<open>2^255 - 19\<close>; byte forms are
    canonical; powers, square-root candidates and batch inverses have the stated exponents.  The calculus \<open>ok\<close> is total correctness:
    the program returns and its result satisfies the postcondition.
  \<^item> \<^verbatim>\<open>Group25519\<close>: \<^verbatim>\<open>ge_*\<close>.  The formulas compute the Edwards addition law; what is decoded encodes back to the same string.
  \<^item> \<^verbatim>\<open>Scalarmult25519\<close>: fixed and sliding windows.  The digits have the value of the scalar, and all routines return the sum of
    multiples they are called for; two of them leave their result unwritten when both scalars are zero.
  \<^item> \<^verbatim>\<open>Varint\<close>: \<^verbatim>\<open>src/common/varint.h\<close>.  Writing and reading are inverse and every value has one encoding.
  \<^item> \<^verbatim>\<open>Tree_Hash\<close>: \<^verbatim>\<open>src/crypto/tree-hash.c\<close>.  The root is that of the complete binary tree over the hashes, the
    branch of every leaf is accepted, and a branch accepted for another leaf exhibits a collision of the hash function.

  \<^bold>\<open>Conventions.\<close>  \<open>None\<close> stands for an exception, undefined behaviour or a loop that does not end; a result \<open>Some None\<close> is the error
  code of a function that has one.  So a theorem that a function returns \<open>Some\<close> excludes all of these.  Release builds define
  \<^verbatim>\<open>NDEBUG\<close>: an \<^verbatim>\<open>assert\<close> is no branch.  \<^verbatim>\<open>size_t\<close> has 64 bits and memory is little-endian.  Shifts of negative signed
  integers are arithmetic, as on the supported compilers.  Code repeated per limb or per table entry is written once over an index.
  Loops are recursions on a list of indices or on a decreasing measure, and partial functions where they may not end; there is no fuel.

  \<^bold>\<open>Parameters.\<close>  Code of other projects is an argument: \<^verbatim>\<open>crypto_verify_32\<close> of libsodium, \<^verbatim>\<open>trim\<close> and \<^verbatim>\<open>lexical_cast\<close> of
  boost.  The clock, the slow hash of a passphrase and the hash function of the transaction tree are arguments too.  The tables \<^verbatim>\<open>ge_Bi\<close> and \<^verbatim>\<open>ge_base\<close> are arguments with
  the property of their entries as a hypothesis.  That the points of the curve form a group, and that \<open>2^255 - 19\<close> is prime, are
  facts of mathematics that are not proved here: multiples are taken in any group that maps to the curve by the addition law, and
  inverses are stated by their exponent.

  \<^bold>\<open>Not modelled.\<close>  Locks and threads (every modelled object holds its lock for the whole of an operation); the wallet, the command
  line programs, the RPC server and the hardware devices, which are clients of the library or input and output; the peer-to-peer layer, whose
  behaviour is that of sockets and timers; LMDB itself; ring signatures, range proofs and multisignatures, which need the algebra of the
  group beyond the addition law; the proof-of-work hashes, generated or vectorised code whose only specification is itself;
  \<^verbatim>\<open>ge_fromfe_frombytes_vartime\<close>, whose correctness rests on quadratic residues modulo a prime.
\<close>

end
